(* ===== verification/Prelude.thy ===== *)
theory Prelude
  imports Complex_Main "HOL-Library.AList" "HOL-Library.Sublist" "HOL-Library.Word"
    "HOL-Library.Code_Target_Nat"
begin

text \<open>
  Shared vocabulary of the gateway development.

  \<^item> Types: byte strings, file descriptors, clock readings, and association lists as the
    model of \<^verbatim>\<open>std::unordered_map\<close>.
  \<^item> The parts of the C++ standard library the sources call: \<^verbatim>\<open>std::string\<close>
    searching and slicing, \<^verbatim>\<open>size_t\<close> subtraction with its wrap-around, the
    character classes of the C locale, \<^verbatim>\<open>std::to_string\<close>,
    \<^verbatim>\<open>std::from_chars\<close>, \<^verbatim>\<open>atoi\<close> and \<^verbatim>\<open>std::stoi\<close>.
  \<^item> The outcome type of code that may throw while it mutates an object.
  \<^item> Generic lemmas on these, collected in \<open>cxx\<close> (rewriting facts about the library
    functions) and \<open>invs\<close> (facts that an operation keeps an invariant).
\<close>

named_theorems cxx \<open>rewriting facts about the modelled parts of the C++ library\<close>
named_theorems invs \<open>facts that an operation keeps an invariant\<close>

section \<open>Types\<close>

type_synonym fd = int
type_synonym time_ns = int  \<comment> \<open>steady clock, nanoseconds since its epoch\<close>
type_synonym ('k, 'v) umap = "('k \<times> 'v) list"

text \<open>
  A C++ member function that may throw leaves the object in the state it had reached. The
  model returns that state beside the outcome.
\<close>

datatype 'a outcome = Throw | Ret 'a

text \<open>
  Code that waits for the kernel consumes a script of answers. It is still waiting when the script
  ends, has thrown, or is done.
\<close>

datatype 'a run = Pending | Thrown | Ran 'a

fun bind_run :: "'a run \<Rightarrow> ('a \<Rightarrow> 'b run) \<Rightarrow> 'b run" where
  "bind_run Pending f = Pending"
| "bind_run Thrown f = Thrown"
| "bind_run (Ran x) f = f x"

fun run_outcome :: "'a outcome \<Rightarrow> 'a run" where
  "run_outcome Throw = Thrown"
| "run_outcome (Ret x) = Ran x"

lemma bind_run_Ran: "bind_run r f = Ran y \<longleftrightarrow> (\<exists>x. r = Ran x \<and> f x = Ran y)"
  by (cases r) auto

section \<open>Byte strings\<close>

abbreviation CR :: char where "CR \<equiv> CHR 0x0D"
abbreviation LF :: char where "LF \<equiv> CHR 0x0A"
abbreviation SP :: char where "SP \<equiv> CHR 0x20"
abbreviation TAB :: char where "TAB \<equiv> CHR 0x09"
abbreviation DQUOTE :: char where "DQUOTE \<equiv> CHR 0x22"
abbreviation CRLF :: string where "CRLF \<equiv> [CR, LF]"

fun find_sub :: "string \<Rightarrow> string \<Rightarrow> nat option" where
  "find_sub p [] = (if p = [] then Some 0 else None)"
| "find_sub p (c # cs) = (if prefix p (c # cs) then Some 0 else map_option Suc (find_sub p cs))"

definition str_find :: "string \<Rightarrow> string \<Rightarrow> nat \<Rightarrow> nat option" where
  \<comment> \<open>\<^verbatim>\<open>s.find(p, pos)\<close>; None is \<^verbatim>\<open>npos\<close>\<close>
  "str_find s p pos =
     (if pos \<le> length s then map_option ((+) pos) (find_sub p (drop pos s)) else None)"

fun find_first :: "(char \<Rightarrow> bool) \<Rightarrow> string \<Rightarrow> nat option" where
  \<comment> \<open>\<^verbatim>\<open>find(c)\<close>, \<^verbatim>\<open>find_first_of\<close>, \<^verbatim>\<open>find_first_not_of\<close>\<close>
  "find_first P [] = None"
| "find_first P (c # cs) = (if P c then Some 0 else map_option Suc (find_first P cs))"

fun find_last :: "(char \<Rightarrow> bool) \<Rightarrow> string \<Rightarrow> nat option" where
  \<comment> \<open>\<^verbatim>\<open>rfind(c)\<close>, \<^verbatim>\<open>find_last_not_of\<close>\<close>
  "find_last P [] = None"
| "find_last P (c # cs) =
     (case find_last P cs of Some i \<Rightarrow> Some (Suc i) | None \<Rightarrow> if P c then Some 0 else None)"

definition substr :: "string \<Rightarrow> nat \<Rightarrow> nat \<Rightarrow> string" where
  \<comment> \<open>\<^verbatim>\<open>s.substr(pos, n)\<close> for \<open>pos \<le> s.size()\<close>\<close>
  "substr s pos n = take n (drop pos s)"

definition substr_from :: "string \<Rightarrow> nat \<Rightarrow> string" where
  \<comment> \<open>\<^verbatim>\<open>s.substr(pos)\<close> for \<open>pos \<le> s.size()\<close>\<close>
  "substr_from s pos = drop pos s"

subsection \<open>\<^verbatim>\<open>size_t\<close> arithmetic\<close>

definition npos :: nat where "npos = 2 ^ 64 - 1"

definition pos_val :: "nat option \<Rightarrow> nat" where
  "pos_val p = (case p of None \<Rightarrow> npos | Some i \<Rightarrow> i)"

definition usub :: "nat \<Rightarrow> nat \<Rightarrow> nat" where
  "usub a b = (a + 2 ^ 64 - b) mod 2 ^ 64"

definition uadd :: "nat \<Rightarrow> nat \<Rightarrow> nat" where
  "uadd a b = (a + b) mod 2 ^ 64"

subsection \<open>Character classes of the C locale\<close>

definition isdigit :: "char \<Rightarrow> bool" where
  "isdigit c \<longleftrightarrow> (let n = (of_char c :: nat) in 48 \<le> n \<and> n \<le> 57)"

definition isupper :: "char \<Rightarrow> bool" where
  "isupper c \<longleftrightarrow> (let n = (of_char c :: nat) in 65 \<le> n \<and> n \<le> 90)"

definition isspace :: "char \<Rightarrow> bool" where
  "isspace c \<longleftrightarrow> (let n = (of_char c :: nat) in n = 32 \<or> (9 \<le> n \<and> n \<le> 13))"

definition tolower :: "char \<Rightarrow> char" where
  "tolower c = (if isupper c then char_of ((of_char c :: nat) + 32) else c)"

section \<open>Numbers and text\<close>

definition digit_char :: "nat \<Rightarrow> char" where
  "digit_char d = char_of (48 + d)"

definition digit_val :: "char \<Rightarrow> nat" where
  "digit_val c = of_char c - 48"

fun nat_to_string :: "nat \<Rightarrow> string" where
  "nat_to_string n =
     (if n < 10 then [digit_char n] else nat_to_string (n div 10) @ [digit_char (n mod 10)])"

declare nat_to_string.simps [simp del]

definition int_to_string :: "int \<Rightarrow> string" where
  \<comment> \<open>\<^verbatim>\<open>std::to_string\<close> and \<^verbatim>\<open>operator<<\<close> on \<^verbatim>\<open>int\<close>\<close>
  "int_to_string i = (if i < 0 then CHR ''-'' # nat_to_string (nat (- i)) else nat_to_string (nat i))"

definition digits_val :: "string \<Rightarrow> nat" where
  "digits_val ds = foldl (\<lambda>n c. 10 * n + digit_val c) 0 ds"

datatype from_chars_result = FC_invalid | FC_out_of_range | FC_ok nat nat

definition from_chars :: "string \<Rightarrow> from_chars_result" where
  \<comment> \<open>\<^verbatim>\<open>std::from_chars(first, last, size_t&)\<close>: the value and the characters consumed\<close>
  "from_chars s =
     (let ds = takeWhile isdigit s
      in if ds = [] then FC_invalid
         else if 2 ^ 64 \<le> digits_val ds then FC_out_of_range
         else FC_ok (digits_val ds) (length ds))"

definition strtol :: "string \<Rightarrow> int option" where
  \<comment> \<open>\<^verbatim>\<open>strtol\<close>, base 10, before its range check: None when no digit is found\<close>
  "strtol s =
     (let t = dropWhile isspace s;
          neg = (t \<noteq> [] \<and> hd t = CHR ''-'');
          u = (if t \<noteq> [] \<and> (hd t = CHR ''-'' \<or> hd t = CHR ''+'') then tl t else t);
          ds = takeWhile isdigit u
      in if ds = [] then None
         else Some (if neg then - int (digits_val ds) else int (digits_val ds)))"

definition int_range :: "int \<Rightarrow> bool" where
  "int_range i \<longleftrightarrow> - (2 ^ 31) \<le> i \<and> i < 2 ^ 31"

definition c_str :: "string \<Rightarrow> string" where
  "c_str s = takeWhile (\<lambda>c. c \<noteq> CHR 0x00) s"

definition atoi :: "string \<Rightarrow> int" where
  \<comment> \<open>glibc: \<^verbatim>\<open>strtol\<close>, saturated at the range of \<^verbatim>\<open>long\<close>, converted to \<^verbatim>\<open>int\<close>\<close>
  "atoi s =
     (case strtol (c_str s) of
        None \<Rightarrow> 0
      | Some v \<Rightarrow> (max (- (2 ^ 63)) (min (2 ^ 63 - 1) v) + 2 ^ 31) mod 2 ^ 32 - 2 ^ 31)"

definition stoi :: "string \<Rightarrow> int outcome" where
  "stoi s =
     (case strtol (c_str s) of
        None \<Rightarrow> Throw
      | Some v \<Rightarrow> if int_range v then Ret v else Throw)"

section \<open>Lemmas on searching and slicing\<close>

lemma find_sub_SomeD:
  assumes "find_sub p s = Some i"
  shows "prefix p (drop i s)" and "i + length p \<le> length s"
  using assms
  by (induction p s arbitrary: i rule: find_sub.induct)
    (auto split: if_splits dest: prefix_length_le)

lemma find_sub_least:
  "find_sub p s = Some i \<Longrightarrow> j < i \<Longrightarrow> \<not> prefix p (drop j s)"
proof (induction p s arbitrary: i j rule: find_sub.induct)
  case (1 p)
  then show ?case by (auto split: if_splits)
next
  case (2 p c cs)
  then show ?case by (cases j) (auto split: if_splits)
qed

lemma find_sub_append [cxx]:
  "find_sub p s = Some i \<Longrightarrow> find_sub p (s @ t) = Some i"
proof (induction p s arbitrary: i rule: find_sub.induct)
  case (1 p)
  then show ?case by (cases t) (auto split: if_splits)
next
  case (2 p c cs)
  show ?case
  proof (cases "prefix p (c # cs)")
    case True
    then have "prefix p ((c # cs) @ t)" by (rule prefix_prefix)
    with True "2.prems" show ?thesis by simp
  next
    case False
    with "2.prems" obtain k where k: "find_sub p cs = Some k" and i: "i = Suc k" by auto
    from find_sub_SomeD(2) [OF k] have "length p \<le> length cs" by simp
    with False have "\<not> prefix p ((c # cs) @ t)"
      unfolding prefix_append by (auto dest: prefix_length_le)
    with False k i "2.IH" show ?thesis by simp
  qed
qed

lemma str_find_SomeD:
  assumes "str_find s p pos = Some i"
  shows "pos \<le> i" and "i + length p \<le> length s" and "prefix p (drop i s)"
    and "pos \<le> length s"
proof -
  from assms obtain k where k: "find_sub p (drop pos s) = Some k" "i = pos + k" "pos \<le> length s"
    by (auto simp: str_find_def split: if_splits)
  show "pos \<le> i" "pos \<le> length s" using k by simp_all
  show "i + length p \<le> length s" using find_sub_SomeD(2) [OF k(1)] k by simp
  show "prefix p (drop i s)" using find_sub_SomeD(1) [OF k(1)] k by (simp add: add.commute)
qed

lemma str_find_crlf_progress:
  "str_find s CRLF pos = Some eol \<Longrightarrow> length s - Suc (Suc eol) < length s - pos"
  using str_find_SomeD(1,2) [of s CRLF pos eol] by simp

lemma str_find_append [cxx]:
  "str_find s p pos = Some i \<Longrightarrow> str_find (s @ t) p pos = Some i"
  by (auto simp: str_find_def find_sub_append split: if_splits)

lemma find_first_SomeD:
  "find_first P s = Some i \<Longrightarrow> i < length s \<and> P (s ! i) \<and> (\<forall>j < i. \<not> P (s ! j))"
  by (induction P s arbitrary: i rule: find_first.induct)
    (auto split: if_splits simp: nth_Cons' less_Suc_eq_0_disj)

lemma find_first_None_iff [cxx]: "find_first P s = None \<longleftrightarrow> (\<forall>c \<in> set s. \<not> P c)"
  by (induction s) auto

lemma find_first_split [cxx]:
  "(\<forall>x \<in> set a. \<not> P x) \<Longrightarrow> P c \<Longrightarrow> find_first P (a @ c # b) = Some (length a)"
  by (induction a) auto

lemma find_last_None_iff [cxx]: "find_last P s = None \<longleftrightarrow> (\<forall>c \<in> set s. \<not> P c)"
  by (induction s) (auto split: option.splits)

lemma find_last_split [cxx]:
  "(\<forall>x \<in> set b. \<not> P x) \<Longrightarrow> P c \<Longrightarrow> find_last P (a @ c # b) = Some (length a)"
proof (induction a)
  case Nil
  then have "find_last P b = None" by (simp add: find_last_None_iff)
  with Nil show ?case by simp
qed simp

lemma find_last_SomeD:
  "find_last P s = Some i \<Longrightarrow> i < length s \<and> P (s ! i) \<and> (\<forall>j. i < j \<and> j < length s \<longrightarrow> \<not> P (s ! j))"
proof (induction s arbitrary: i)
  case (Cons c s)
  show ?case
  proof (cases "find_last P s")
    case None
    with Cons.prems show ?thesis
      by (auto simp: find_last_None_iff nth_Cons' split: if_splits)
  next
    case (Some k)
    with Cons.prems have i: "i = Suc k" by simp
    note IH = Cons.IH [OF Some]
    have "\<not> P ((c # s) ! j)" if "i < j" "j < length (c # s)" for j
      using IH i that by (cases j) auto
    with IH i show ?thesis by simp
  qed
qed simp

lemma find_sub_crlf [cxx]:
  "CR \<notin> set a \<Longrightarrow> find_sub CRLF (a @ CR # LF # b) = Some (length a)"
  by (induction a) auto

lemma usub_le [cxx]: "b \<le> a \<Longrightarrow> a < 2 ^ 64 \<Longrightarrow> usub a b = a - b"
proof -
  assume a: "b \<le> a" "a < 2 ^ 64"
  then have "a + 2 ^ 64 - b = (a - b) + 2 ^ 64" by simp
  then have "usub a b = (a - b) mod 2 ^ 64"
    unfolding usub_def by (metis mod_add_self2)
  also have "\<dots> = a - b" using a by (intro mod_less) linarith
  finally show ?thesis .
qed

section \<open>Lemmas on characters and numbers\<close>

lemma of_char_digit_char: "d < 10 \<Longrightarrow> (of_char (digit_char d) :: nat) = 48 + d"
  by (simp add: digit_char_def)

lemma isdigit_digit_char [simp]: "d < 10 \<Longrightarrow> isdigit (digit_char d)"
  by (simp add: isdigit_def of_char_digit_char)

lemma digit_val_digit_char [simp]: "d < 10 \<Longrightarrow> digit_val (digit_char d) = d"
  by (simp add: digit_val_def of_char_digit_char)

lemma digits_val_snoc: "digits_val (ds @ [c]) = 10 * digits_val ds + digit_val c"
  by (simp add: digits_val_def)

lemma nat_to_string_digits: "c \<in> set (nat_to_string n) \<Longrightarrow> isdigit c"
proof (induction n rule: nat_to_string.induct)
  case (1 n)
  then show ?case
    by (cases "n < 10") (auto simp: nat_to_string.simps [of n])
qed

lemma nat_to_string_nonempty [simp]: "nat_to_string n \<noteq> []"
  by (subst nat_to_string.simps) simp

lemma digits_val_nat_to_string [cxx]: "digits_val (nat_to_string n) = n"
proof (induction n rule: nat_to_string.induct)
  case (1 n)
  show ?case
  proof (cases "n < 10")
    case True
    then show ?thesis by (subst nat_to_string.simps) (simp add: digits_val_def)
  next
    case False
    with 1 show ?thesis by (subst nat_to_string.simps) (simp add: digits_val_snoc)
  qed
qed

lemma from_chars_to_string [cxx]:
  "n < 2 ^ 64 \<Longrightarrow> from_chars (nat_to_string n) = FC_ok n (length (nat_to_string n))"
proof -
  assume "n < 2 ^ 64"
  moreover have "takeWhile isdigit (nat_to_string n) = nat_to_string n"
    by (simp add: takeWhile_eq_all_conv nat_to_string_digits)
  ultimately show ?thesis
    by (simp only: from_chars_def digits_val_nat_to_string Let_def) simp
qed

subsection \<open>Decimal round trips\<close>

lemma digit_class: "isdigit c \<Longrightarrow> \<not> isspace c \<and> \<not> isupper c \<and> c \<notin> set ''-+#.:?'' \<and> c \<noteq> CHR 0x00 \<and> c \<noteq> LF \<and> c \<noteq> CR"
  by (auto simp: isdigit_def isspace_def isupper_def Let_def)

lemma nat_string_cons: obtains d ds where "nat_to_string n = d # ds" "isdigit d"
  by (metis nat_to_string_digits nat_to_string_nonempty list.exhaust list.set_intros(1))

lemma nat_string_all: "\<forall>c \<in> set (nat_to_string n). isdigit c"
  using nat_to_string_digits by blast

lemma c_str_digits: "(\<forall>c \<in> set s. isdigit c) \<Longrightarrow> c_str s = s"
  unfolding c_str_def by (rule takeWhile_eq_all_conv [THEN iffD2]) (use digit_class in blast)

lemma digits_all: "\<forall>c \<in> set s. isdigit c \<Longrightarrow> takeWhile isdigit s = s \<and> dropWhile isdigit s = []"
  by (simp add: takeWhile_eq_all_conv dropWhile_eq_Nil_conv)

lemmas nat_string_while [simp] = digits_all [OF nat_string_all, THEN conjunct1]
  digits_all [OF nat_string_all, THEN conjunct2]

lemma nat_string_hd [simp]:
  "dropWhile isspace (nat_to_string n) = nat_to_string n"
  "hd (nat_to_string n) \<noteq> CHR ''-''" "hd (nat_to_string n) \<noteq> CHR ''+''"
  by (rule nat_string_cons [of n]; use digit_class in auto)+

lemma strtol_nat: "strtol (nat_to_string n) = Some (int n)"
  by (simp add: strtol_def Let_def digits_val_nat_to_string)

lemma strtol_neg: "strtol (CHR ''-'' # nat_to_string n) = Some (- int n)"
  by (simp add: strtol_def Let_def digits_val_nat_to_string isspace_def)

lemma stoi_int: "int_range i \<Longrightarrow> stoi (int_to_string i) = Ret i"
proof (cases "i < 0")
  case True
  assume r: "int_range i"
  have "c_str (CHR ''-'' # nat_to_string (nat (- i))) = CHR ''-'' # nat_to_string (nat (- i))"
    using c_str_digits [OF nat_string_all] by (simp add: c_str_def)
  with True r show ?thesis by (simp add: int_to_string_def stoi_def strtol_neg)
next
  case False
  assume "int_range i"
  with False show ?thesis
    using c_str_digits [OF nat_string_all] by (simp add: int_to_string_def stoi_def strtol_nat)
qed

lemma atoi_int: "int_range i \<Longrightarrow> atoi (int_to_string i) = i"
  using stoi_int [of i]
  by (auto simp: atoi_def stoi_def int_range_def split: option.splits if_splits)

lemma int_string_chars:
  "c \<in> set (int_to_string i) \<Longrightarrow> isdigit c \<or> c = CHR ''-''"
  using nat_to_string_digits by (auto simp: int_to_string_def split: if_splits)

lemma tolower_idem [simp]: "tolower (tolower c) = tolower c"
proof (cases "isupper c")
  case True
  then have n: "65 \<le> (of_char c :: nat)" "(of_char c :: nat) \<le> 90"
    by (auto simp: isupper_def Let_def)
  then have "(of_char (char_of ((of_char c :: nat) + 32) :: char) :: nat) = of_char c + 32"
    by simp
  with n have "\<not> isupper (char_of ((of_char c :: nat) + 32))"
    by (simp add: isupper_def)
  with True show ?thesis by (simp add: tolower_def)
qed (simp add: tolower_def)

section \<open>Lemmas on maps as association lists\<close>

lemma distinct_keys_update [invs]:
  "distinct (map fst m) \<Longrightarrow> distinct (map fst (AList.update k v m))"
  by (rule distinct_update)

lemma distinct_keys_delete [invs]:
  "distinct (map fst m) \<Longrightarrow> distinct (map fst (AList.delete k m))"
  by (rule distinct_delete)

lemma map_of_update [simp]: "map_of (AList.update k v m) = (map_of m)(k \<mapsto> v)"
  by (rule update_conv')

lemma map_of_delete [simp]: "map_of (AList.delete k m) = (map_of m)(k := None)"
  by (rule delete_conv')

lemma length_update_new: "map_of m k = None \<Longrightarrow> length (AList.update k v m) = Suc (length m)"
  by (induction m) (auto split: if_splits)

lemma length_update_old: "map_of m k = Some w \<Longrightarrow> length (AList.update k v m) = length m"
  by (induction m) (auto split: if_splits)

end
