(* ===== verification/HttpMessage.thy ===== *)
theory HttpMessage
  imports Prelude
begin

text \<open>
  The data the gateway passes between its components: \<^verbatim>\<open>HttpRequest\<close>
  (include/http/HttpRequest.hpp) and \<^verbatim>\<open>HttpResponse\<close>
  (include/http/HttpResponse.hpp), with their member functions. Header names of a request
  are keys of an \<^verbatim>\<open>unordered_map\<close>; the headers of a response are a vector of pairs,
  in which order and duplicates matter.
\<close>

section \<open>Requests\<close>

record HttpRequest =
  rq_method :: string
  rq_path :: string
  rq_query :: string
  rq_version :: string
  rq_headers :: "(string, string) umap"
  rq_body :: string
  rq_keepAlive :: bool
  rq_requestId :: string

definition HttpRequest_init :: HttpRequest where
  "HttpRequest_init =
     \<lparr>rq_method = [], rq_path = [], rq_query = [], rq_version = [], rq_headers = [],
      rq_body = [], rq_keepAlive = True, rq_requestId = []\<rparr>"

definition header :: "HttpRequest \<Rightarrow> string \<Rightarrow> string option" where
  "header r lowerKey = map_of (rq_headers r) lowerKey"

definition cacheKey :: "HttpRequest \<Rightarrow> string" where
  "cacheKey r =
     rq_method r @ '' '' @ rq_path r @ (if rq_query r = [] then [] else ''?'' @ rq_query r)"

section \<open>Responses\<close>

record HttpResponse =
  rs_statusCode :: int
  rs_statusText :: string
  rs_headers :: "(string \<times> string) list"
  rs_body :: string

definition HttpResponse_init :: HttpResponse where
  "HttpResponse_init =
     \<lparr>rs_statusCode = 200, rs_statusText = ''OK'', rs_headers = [], rs_body = []\<rparr>"

fun set_header :: "string \<Rightarrow> string \<Rightarrow> (string \<times> string) list \<Rightarrow> (string \<times> string) list" where
  "set_header k v [] = [(k, v)]"
| "set_header k v (h # hs) = (if fst h = k then (fst h, v) # hs else h # set_header k v hs)"

definition setHeader :: "HttpResponse \<Rightarrow> string \<Rightarrow> string \<Rightarrow> HttpResponse" where
  "setHeader r k v = r\<lparr>rs_headers := set_header k v (rs_headers r)\<rparr>"

definition make :: "int \<Rightarrow> string \<Rightarrow> string \<Rightarrow> HttpResponse" where
  "make code text body =
     HttpResponse_init\<lparr>rs_statusCode := code, rs_statusText := text, rs_body := body\<rparr>"

definition has_name :: "string \<Rightarrow> (string \<times> string) list \<Rightarrow> bool" where
  "has_name k hs \<longleftrightarrow> list_ex (\<lambda>h. fst h = k) hs"

definition header_line :: "string \<times> string \<Rightarrow> string" where
  "header_line h = fst h @ '': '' @ snd h @ CRLF"

definition serialize :: "HttpResponse \<Rightarrow> bool \<Rightarrow> string" where
  "serialize r keepAlive =
     ''HTTP/1.1 '' @ int_to_string (rs_statusCode r) @ '' '' @ rs_statusText r @ CRLF @
     concat (map header_line (rs_headers r)) @
     (if has_name ''Content-Length'' (rs_headers r) then []
      else header_line (''Content-Length'', nat_to_string (length (rs_body r)))) @
     (if has_name ''Connection'' (rs_headers r) then []
      else header_line (''Connection'', if keepAlive then ''keep-alive'' else ''close'')) @
     CRLF @ rs_body r"

section \<open>Lemmas\<close>

lemma map_of_set_header [simp]: "map_of (set_header k v hs) = (map_of hs)(k \<mapsto> v)"
  by (induction k v hs rule: set_header.induct) (auto simp: fun_eq_iff)

lemma set_header_keys: "fst ` set (set_header k v hs) = insert k (fst ` set hs)"
  by (induction k v hs rule: set_header.induct) auto

lemma distinct_set_header:
  "distinct (map fst hs) \<Longrightarrow> distinct (map fst (set_header k v hs))"
proof (induction k v hs rule: set_header.induct)
  case (2 k v h hs)
  then show ?case using set_header_keys [of k v hs] by (auto simp flip: set_map)
qed simp

lemma has_name_iff: "has_name k hs \<longleftrightarrow> k \<in> fst ` set hs"
  by (auto simp: has_name_def list_ex_iff)

lemma has_name_set_header [simp]: "has_name k' (set_header k v hs) \<longleftrightarrow> k' = k \<or> has_name k' hs"
  by (auto simp: has_name_iff set_header_keys)

lemma setHeader_simps [simp]:
  "rs_statusCode (setHeader r k v) = rs_statusCode r"
  "rs_statusText (setHeader r k v) = rs_statusText r"
  "rs_body (setHeader r k v) = rs_body r"
  "rs_headers (setHeader r k v) = set_header k v (rs_headers r)"
  by (simp_all add: setHeader_def)

lemma make_simps [simp]:
  "rs_statusCode (make c t b) = c"
  "rs_statusText (make c t b) = t"
  "rs_body (make c t b) = b"
  "rs_headers (make c t b) = []"
  by (simp_all add: make_def HttpResponse_init_def)

text \<open>
  Two requests share a cache key only when they agree on method, path and query. A method
  has no space and a path no question mark in every request the parser accepts.
\<close>

lemma cacheKey_inj:
  assumes "cacheKey r = cacheKey q"
    and "SP \<notin> set (rq_method r)" "SP \<notin> set (rq_method q)"
    and "CHR ''?'' \<notin> set (rq_path r)" "CHR ''?'' \<notin> set (rq_path q)"
  shows "rq_method r = rq_method q \<and> rq_path r = rq_path q \<and> rq_query r = rq_query q"
proof -
  define tail where
    "tail x = rq_path x @ (if rq_query x = [] then [] else ''?'' @ rq_query x)" for x :: HttpRequest
  have key: "cacheKey x = rq_method x @ SP # tail x" for x
    by (simp add: cacheKey_def tail_def)
  have m: "takeWhile (\<lambda>c. c \<noteq> SP) (cacheKey x) = rq_method x" if "SP \<notin> set (rq_method x)" for x
    using that unfolding key by (subst takeWhile_append2) auto
  have path: "takeWhile (\<lambda>c. c \<noteq> CHR ''?'') (tail x) = rq_path x"
    if "CHR ''?'' \<notin> set (rq_path x)" for x
    using that unfolding tail_def by (subst takeWhile_append2) auto
  from m assms(1-3) have meth: "rq_method r = rq_method q" by metis
  with assms(1) have tl: "tail r = tail q" by (simp add: key)
  with path assms(4,5) have pth: "rq_path r = rq_path q" by metis
  with tl have "rq_query r = rq_query q" by (auto simp: tail_def split: if_splits)
  with meth pth show ?thesis by simp
qed

end
