(* ===== verification/HttpParser.thy ===== *)
theory HttpParser
  imports HttpMessage
begin

text \<open>
  The incremental request parser of src/http/HttpParser.cpp and include/http/HttpParser.hpp:
  its object as the record \<open>HttpParser\<close>, the two line scanners \<open>parseRequestLine\<close> and
  \<open>parseHeaders\<close>, and \<open>parse\<close> as the composition of the three stages the source runs
  one after the other. An exception leaves the object in the state it had reached, so each
  scanner returns the object beside its outcome.

  The locale \<open>resumable\<close> is the contract the connection handler relies on: bytes may
  arrive in any chunks. It is interpreted on \<open>append\<close> and \<open>parse\<close>.
\<close>

section \<open>State\<close>

datatype ParseStatus = Incomplete | Complete | Error

datatype PState = RequestLine | Headers | Body | Done

record HttpParser =
  hp_buffer :: string
  hp_state :: PState
  hp_method :: string
  hp_path :: string
  hp_query :: string
  hp_version :: string
  hp_headers :: "(string, string) umap"
  hp_contentLength :: nat
  hp_chunked :: bool
  hp_headerCount :: nat
  hp_consumed :: nat

definition HttpParser_init :: HttpParser where
  "HttpParser_init =
     \<lparr>hp_buffer = [], hp_state = RequestLine, hp_method = [], hp_path = [], hp_query = [],
      hp_version = [], hp_headers = [], hp_contentLength = 0, hp_chunked = False,
      hp_headerCount = 0, hp_consumed = 0\<rparr>"

definition kMaxRequestLineLen :: nat where "kMaxRequestLineLen = 8192"
definition kMaxHeaderBytes :: nat where "kMaxHeaderBytes = 32768"
definition kMaxHeaderCount :: nat where "kMaxHeaderCount = 100"
definition kMaxBodyBytes :: nat where "kMaxBodyBytes = 10 * 1024 * 1024"

section \<open>Operations\<close>

definition append :: "HttpParser \<Rightarrow> string \<Rightarrow> HttpParser" where
  "append p bytes = p\<lparr>hp_buffer := hp_buffer p @ bytes\<rparr>"

definition reset :: "HttpParser \<Rightarrow> HttpParser" where
  "reset p = p\<lparr>hp_buffer := [], hp_state := RequestLine, hp_consumed := 0, hp_headers := [],
     hp_headerCount := 0\<rparr>"

definition bufferedBytes :: "HttpParser \<Rightarrow> nat" where
  "bufferedBytes p = length (hp_buffer p)"

definition toLower :: "string \<Rightarrow> string" where
  "toLower s = map tolower s"

definition trim :: "string \<Rightarrow> string" where
  \<comment> \<open>\<^verbatim>\<open>b - a + 1\<close> wraps when the second search finds nothing\<close>
  "trim s =
     (case find_first (\<lambda>c. c \<notin> {SP, TAB}) s of
        None \<Rightarrow> []
      | Some a \<Rightarrow>
          (case find_last (\<lambda>c. c \<notin> {SP, TAB, CR}) s of
             None \<Rightarrow> substr s a (uadd (usub npos a) 1)
           | Some b \<Rightarrow> substr s a (b - a + 1)))"

definition method_char :: "char \<Rightarrow> bool" where
  "method_char c \<longleftrightarrow> isupper c \<or> isdigit c \<or> c = CHR ''-'' \<or> c = CHR ''_''"

definition parseTarget :: "HttpParser \<Rightarrow> string \<Rightarrow> HttpParser" where
  "parseTarget p target =
     (let p1 = (case find_first ((=) (CHR ''?'')) target of
                  None \<Rightarrow> p\<lparr>hp_path := target, hp_query := []\<rparr>
                | Some q \<Rightarrow> p\<lparr>hp_path := substr target 0 q, hp_query := substr_from target (q + 1)\<rparr>)
      in if hp_path p1 = [] then p1\<lparr>hp_path := ''/''\<rparr> else p1)"

definition scanRequestLine :: "HttpParser \<Rightarrow> string \<Rightarrow> HttpParser \<times> bool outcome" where
  \<comment> \<open>the part of \<^verbatim>\<open>parseRequestLine\<close> that works on the extracted line\<close>
  "scanRequestLine p line =
     (case (find_first ((=) SP) line, find_last ((=) SP) line) of
        (Some sp1, Some sp2) \<Rightarrow>
          if sp1 = sp2 then (p, Throw)
          else
            (let target = substr line (sp1 + 1) (sp2 - sp1 - 1);
                 p1 = p\<lparr>hp_method := substr line 0 sp1, hp_version := substr_from line (sp2 + 1)\<rparr>
             in if hp_version p1 \<noteq> ''HTTP/1.1'' \<and> hp_version p1 \<noteq> ''HTTP/1.0'' then (p1, Throw)
                else if hp_method p1 = [] \<or> \<not> list_all method_char (hp_method p1) then (p1, Throw)
                else if target = [] \<or> hd target \<noteq> CHR ''/'' \<or>
                        find_first (\<lambda>c. c \<in> {CR, LF}) target \<noteq> None then (p1, Throw)
                else (parseTarget p1 target, Ret True))
      | _ \<Rightarrow> (p, Throw))"

definition parseRequestLine :: "HttpParser \<Rightarrow> nat \<Rightarrow> HttpParser \<times> nat \<times> bool outcome" where
  "parseRequestLine p pos =
     (case str_find (hp_buffer p) CRLF pos of
        None \<Rightarrow> (p, pos, if length (hp_buffer p) > kMaxRequestLineLen then Throw else Ret False)
      | Some eol \<Rightarrow>
          (case scanRequestLine p (substr (hp_buffer p) pos (eol - pos)) of
             (p1, out) \<Rightarrow> (p1, eol + 2, out)))"

definition framing_header :: "string \<Rightarrow> bool" where
  "framing_header key \<longleftrightarrow>
     key = ''content-length'' \<or> key = ''transfer-encoding'' \<or> key = ''host''"

definition scanHeaderLine :: "HttpParser \<Rightarrow> string \<Rightarrow> HttpParser \<times> unit outcome" where
  \<comment> \<open>the body of the loop of \<^verbatim>\<open>parseHeaders\<close> on the extracted line\<close>
  "scanHeaderLine p line =
     (case find_first ((=) (CHR '':'')) line of
        None \<Rightarrow> (p, Throw)
      | Some colon \<Rightarrow>
          (let key = toLower (trim (substr line 0 colon));
               val = trim (substr_from line (colon + 1));
               p1 = p\<lparr>hp_headerCount := hp_headerCount p + 1\<rparr>
           in if key = [] \<or> find_first (\<lambda>c. c \<in> {SP, TAB, CR, LF}) key \<noteq> None \<or>
                 find_first (\<lambda>c. c \<in> {CR, LF}) val \<noteq> None then (p, Throw)
              else if hp_headerCount p1 > kMaxHeaderCount then (p1, Throw)
              else if map_of (hp_headers p1) key \<noteq> None \<and> framing_header key then (p1, Throw)
              else (p1\<lparr>hp_headers := AList.update key val (hp_headers p1)\<rparr>, Ret ())))"

lemma scanHeaderLine_frame:
  assumes "scanHeaderLine p line = (p', r)"
  shows "hp_buffer p' = hp_buffer p" and "hp_state p' = hp_state p"
    and "hp_consumed p' = hp_consumed p" and "hp_contentLength p' = hp_contentLength p"
    and "hp_method p' = hp_method p" and "hp_path p' = hp_path p"
    and "hp_query p' = hp_query p" and "hp_version p' = hp_version p"
  using assms by (auto simp: scanHeaderLine_def Let_def split: option.splits if_splits)

lemma parseHeaders_progress:
  assumes "str_find (hp_buffer p) CRLF pos = Some eol" and "(p1, r) = scanHeaderLine p line"
  shows "length (hp_buffer p1) - Suc (Suc eol) < length (hp_buffer p) - pos"
  using str_find_crlf_progress [OF assms(1)] scanHeaderLine_frame(1) [OF assms(2) [symmetric]]
  by simp

function parseHeaders :: "HttpParser \<Rightarrow> nat \<Rightarrow> HttpParser \<times> nat \<times> bool outcome" where
  "parseHeaders p pos =
     (case str_find (hp_buffer p) CRLF pos of
        None \<Rightarrow> (p, pos, if length (hp_buffer p) - pos > kMaxHeaderBytes then Throw else Ret False)
      | Some eol \<Rightarrow>
          if eol = pos then (p, eol + 2, Ret True)
          else
            (case scanHeaderLine p (substr (hp_buffer p) pos (eol - pos)) of
               (p1, Throw) \<Rightarrow> (p1, eol + 2, Throw)
             | (p1, Ret _) \<Rightarrow> parseHeaders (p1\<lparr>hp_consumed := eol + 2\<rparr>) (eol + 2)))"
  by pat_completeness auto
termination
  by (relation "measure (\<lambda>(p, pos). length (hp_buffer p) - pos)")
    (auto intro: parseHeaders_progress)

declare parseHeaders.simps [simp del]

definition readContentLength :: "HttpParser \<Rightarrow> HttpParser \<times> unit outcome" where
  "readContentLength p =
     (case map_of (hp_headers p) ''content-length'' of
        None \<Rightarrow> (p, Ret ())
      | Some v \<Rightarrow>
          (case from_chars v of
             FC_ok n used \<Rightarrow>
               if used \<noteq> length v then (p, Throw)
               else (p\<lparr>hp_contentLength := n\<rparr>, if n > kMaxBodyBytes then Throw else Ret ())
           | _ \<Rightarrow> (p, Throw)))"

definition says_chunked :: "string option \<Rightarrow> bool" where
  "says_chunked te =
     (case te of None \<Rightarrow> False | Some v \<Rightarrow> str_find (toLower v) ''chunked'' 0 \<noteq> None)"

definition checkFraming :: "HttpParser \<Rightarrow> HttpParser \<times> unit outcome" where
  \<comment> \<open>\<^verbatim>\<open>parse\<close>, from the end of the headers to \<^verbatim>\<open>state_ = State::Body\<close>\<close>
  "checkFraming p =
     (case readContentLength p of
        (p1, Throw) \<Rightarrow> (p1, Throw)
      | (p1, Ret _) \<Rightarrow>
          (let te = map_of (hp_headers p1) ''transfer-encoding'';
               p2 = p1\<lparr>hp_chunked := says_chunked te\<rparr>
           in if te \<noteq> None \<and> map_of (hp_headers p1) ''content-length'' \<noteq> None then (p2, Throw)
              else if hp_chunked p2 then (p2, Throw)
              else (p2\<lparr>hp_state := Body\<rparr>, Ret ())))"

text \<open>
  The three stages of \<^verbatim>\<open>parse\<close>. Each returns the object and, when the function
  returns there, its status.
\<close>

definition stageRequestLine :: "HttpParser \<Rightarrow> HttpParser \<times> ParseStatus option" where
  "stageRequestLine p =
     (if hp_state p = RequestLine then
        (case parseRequestLine p 0 of
           (p1, _, Throw) \<Rightarrow> (p1, Some Error)
         | (p1, pos, Ret b) \<Rightarrow>
             if b then (p1\<lparr>hp_state := Headers, hp_consumed := pos\<rparr>, None) else (p1, Some Incomplete))
      else (p, None))"

definition stageHeaders :: "HttpParser \<Rightarrow> HttpParser \<times> ParseStatus option" where
  "stageHeaders p =
     (if hp_state p = Headers then
        (case parseHeaders p (hp_consumed p) of
           (p1, _, Throw) \<Rightarrow> (p1, Some Error)
         | (p1, pos, Ret b) \<Rightarrow>
             if b then
               (case checkFraming (p1\<lparr>hp_consumed := pos\<rparr>) of
                  (p2, Throw) \<Rightarrow> (p2, Some Error)
                | (p2, Ret _) \<Rightarrow> (p2, None))
             else (p1, Some Incomplete))
      else (p, None))"

definition bodyMissing :: "HttpParser \<Rightarrow> bool" where
  "bodyMissing p \<longleftrightarrow>
     hp_state p = Body \<and> length (hp_buffer p) - hp_consumed p < hp_contentLength p"

definition emitRequest :: "HttpParser \<Rightarrow> HttpRequest \<Rightarrow> HttpRequest" where
  "emitRequest p out =
     out\<lparr>rq_body := (if hp_state p = Body then substr (hp_buffer p) (hp_consumed p) (hp_contentLength p)
                       else rq_body out),
         rq_method := hp_method p, rq_path := hp_path p, rq_query := hp_query p,
         rq_version := hp_version p, rq_headers := hp_headers p,
         rq_keepAlive :=
           (case map_of (hp_headers p) ''connection'' of
              Some v \<Rightarrow> toLower v \<noteq> ''close''
            | None \<Rightarrow> hp_version p = ''HTTP/1.1'')\<rparr>"

definition finishRequest :: "HttpParser \<Rightarrow> HttpParser" where
  "finishRequest p =
     p\<lparr>hp_buffer :=
          drop (if hp_state p = Body then hp_consumed p + hp_contentLength p else hp_consumed p)
            (hp_buffer p),
       hp_state := RequestLine, hp_consumed := 0, hp_method := [], hp_path := [], hp_query := [],
       hp_version := [], hp_headers := [], hp_contentLength := 0, hp_chunked := False,
       hp_headerCount := 0\<rparr>"

definition parse :: "HttpParser \<Rightarrow> HttpRequest \<Rightarrow> ParseStatus \<times> HttpParser \<times> HttpRequest" where
  "parse p out =
     (case stageRequestLine p of
        (p1, Some st) \<Rightarrow> (st, p1, out)
      | (p1, None) \<Rightarrow>
          (case stageHeaders p1 of
             (p2, Some st) \<Rightarrow> (st, p2, out)
           | (p2, None) \<Rightarrow>
               if bodyMissing p2 then (Incomplete, p2, out)
               else (Complete, finishRequest p2, emitRequest p2 out)))"

section \<open>Well-formedness\<close>

definition hp_wf :: "HttpParser \<Rightarrow> bool" where
  "hp_wf p \<longleftrightarrow>
     hp_consumed p \<le> length (hp_buffer p) \<and> hp_state p \<noteq> Done \<and>
     (hp_state p \<noteq> RequestLine \<longrightarrow> 0 < hp_consumed p)"

definition header_ok :: "string \<times> string \<Rightarrow> bool" where
  "header_ok h \<longleftrightarrow>
     fst h \<noteq> [] \<and> toLower (fst h) = fst h \<and>
     list_all (\<lambda>c. c \<notin> {SP, TAB, CR, LF, CHR '':''}) (fst h) \<and>
     list_all (\<lambda>c. c \<notin> {CR, LF}) (snd h)"

definition line_ok :: "string \<Rightarrow> string \<Rightarrow> string \<Rightarrow> string \<Rightarrow> bool" where
  "line_ok meth path query version \<longleftrightarrow>
     meth \<noteq> [] \<and> list_all method_char meth \<and>
     path \<noteq> [] \<and> hd path = CHR ''/'' \<and> list_all (\<lambda>c. c \<notin> {CR, LF, CHR ''?''}) path \<and>
     list_all (\<lambda>c. c \<notin> {CR, LF}) query \<and>
     (version = ''HTTP/1.1'' \<or> version = ''HTTP/1.0'')"

definition framing_ok :: "(string, string) umap \<Rightarrow> nat \<Rightarrow> bool" where
  "framing_ok hs n \<longleftrightarrow>
     n \<le> kMaxBodyBytes \<and> \<not> says_chunked (map_of hs ''transfer-encoding'') \<and>
     (case map_of hs ''content-length'' of
        None \<Rightarrow> n = 0
      | Some v \<Rightarrow> from_chars v = FC_ok n (length v) \<and> map_of hs ''transfer-encoding'' = None)"

definition request_ok :: "HttpRequest \<Rightarrow> bool" where
  "request_ok r \<longleftrightarrow>
     line_ok (rq_method r) (rq_path r) (rq_query r) (rq_version r) \<and>
     distinct (map fst (rq_headers r)) \<and> list_all header_ok (rq_headers r) \<and>
     length (rq_headers r) \<le> kMaxHeaderCount \<and>
     framing_ok (rq_headers r) (length (rq_body r))"

definition hdrs_ok :: "HttpParser \<Rightarrow> bool" where
  "hdrs_ok p \<longleftrightarrow>
     distinct (map fst (hp_headers p)) \<and> list_all header_ok (hp_headers p) \<and>
     length (hp_headers p) \<le> hp_headerCount p \<and> hp_headerCount p \<le> kMaxHeaderCount"

abbreviation hp_line_ok :: "HttpParser \<Rightarrow> bool" where
  "hp_line_ok p \<equiv> line_ok (hp_method p) (hp_path p) (hp_query p) (hp_version p)"

definition hp_inv :: "HttpParser \<Rightarrow> bool" where
  "hp_inv p \<longleftrightarrow>
     hp_wf p \<and> hdrs_ok p \<and>
     (case hp_state p of
        RequestLine \<Rightarrow> hp_headers p = [] \<and> hp_contentLength p = 0
      | Headers \<Rightarrow> hp_line_ok p \<and> hp_contentLength p = 0
      | Body \<Rightarrow> hp_line_ok p \<and> framing_ok (hp_headers p) (hp_contentLength p)
      | Done \<Rightarrow> False)"

section \<open>The contract of an incremental parser\<close>

text \<open>
  \<open>deliver\<close> feeds a list of chunks, parsing after each, until the parser gives a verdict;
  the chunks that follow a verdict stay in its buffer. The locale states what a caller needs of
  \<open>feed\<close> and \<open>step\<close> for the chunk boundaries to be invisible.
\<close>

fun deliver ::
  "('p \<Rightarrow> 'b list \<Rightarrow> 'p) \<Rightarrow> ('p \<Rightarrow> 'o \<Rightarrow> ParseStatus \<times> 'p \<times> 'o) \<Rightarrow> 'p \<Rightarrow> 'o \<Rightarrow> 'b list list \<Rightarrow>
    ParseStatus \<times> 'p \<times> 'o" where
  "deliver feed step p out [] = (Incomplete, p, out)"
| "deliver feed step p out (c # cs) =
     (case step (feed p c) out of
        (Incomplete, p', out') \<Rightarrow> deliver feed step p' out' cs
      | (st, p', out') \<Rightarrow> (st, feed p' (concat cs), out'))"

locale resumable =
  fixes feed :: "'p \<Rightarrow> 'b list \<Rightarrow> 'p"
    and step :: "'p \<Rightarrow> 'o \<Rightarrow> ParseStatus \<times> 'p \<times> 'o"
    and ok :: "'p \<Rightarrow> bool"
    and small :: "'p \<Rightarrow> bool"
  assumes feed_feed: "feed (feed p a) b = feed p (a @ b)"
    and ok_feed: "ok p \<Longrightarrow> ok (feed p a)"
    and small_prefix: "small (feed p a) \<Longrightarrow> small p"
    and more: "ok p \<Longrightarrow> step p out = (Incomplete, p', out') \<Longrightarrow>
      ok p' \<and> out' = out \<and> step (feed p' d) out = step (feed p d) out \<and>
      (small (feed p d) \<longrightarrow> small (feed p' d))"
    and complete: "ok p \<Longrightarrow> step p out = (Complete, p', out') \<Longrightarrow>
      step (feed p d) out = (Complete, feed p' d, out')"
    and error: "ok p \<Longrightarrow> small p \<Longrightarrow> step p out = (Error, p', out') \<Longrightarrow>
      \<exists>q. step (feed p d) out = (Error, q, out')"
begin

lemma deliver_complete:
  "ok p \<Longrightarrow> deliver feed step p out cs = (Complete, p', out') \<Longrightarrow>
   step (feed p (concat cs)) out = (Complete, p', out')"
proof (induction cs arbitrary: p)
  case (Cons c cs)
  obtain st q out1 where s: "step (feed p c) out = (st, q, out1)" by (metis prod_cases3)
  note ok = ok_feed [OF Cons.prems(1), of c]
  show ?case
  proof (cases st)
    case Incomplete
    note m = more [OF ok s [unfolded Incomplete], of "concat cs"]
    with s Incomplete Cons.prems(2) have "deliver feed step q out cs = (Complete, p', out')"
      by simp
    with Cons.IH [of q] m show ?thesis by (simp add: feed_feed)
  next
    case Complete
    with complete [OF ok, of out q out1 "concat cs"] s Cons.prems show ?thesis
      by (simp add: feed_feed)
  qed (use s Cons.prems in auto)
qed simp

lemma deliver_status:
  "ok p \<Longrightarrow> cs \<noteq> [] \<Longrightarrow> small (feed p (concat cs)) \<Longrightarrow>
   deliver feed step p out cs = (st, p', out') \<Longrightarrow>
   \<exists>q. step (feed p (concat cs)) out = (st, q, out')"
proof (induction cs arbitrary: p)
  case (Cons c cs)
  obtain st1 q out1 where s: "step (feed p c) out = (st1, q, out1)" by (metis prod_cases3)
  note ok = ok_feed [OF Cons.prems(1), of c]
  have small: "small (feed (feed p c) (concat cs))" using Cons.prems(3) by (simp add: feed_feed)
  show ?case
  proof (cases st1)
    case Incomplete
    note m = more [OF ok s [unfolded Incomplete], of "concat cs"]
    show ?thesis
    proof (cases "cs = []")
      case True
      with s Incomplete Cons.prems show ?thesis by simp
    next
      case False
      with Cons.IH [of q] m small s Incomplete Cons.prems(4) show ?thesis
        by (simp add: feed_feed)
    qed
  next
    case Complete
    with complete [OF ok, of out q out1 "concat cs"] s Cons.prems(4) show ?thesis
      by (simp add: feed_feed)
  next
    case Error
    with error [OF ok small_prefix [OF small], of out q out1 "concat cs"] s Cons.prems(4)
    show ?thesis by (auto simp: feed_feed)
  qed
qed simp

end


section \<open>More bytes do not change what was already decided\<close>

lemma append_simps [simp]:
  "hp_buffer (append p d) = hp_buffer p @ d" "hp_state (append p d) = hp_state p"
  "hp_method (append p d) = hp_method p" "hp_path (append p d) = hp_path p"
  "hp_query (append p d) = hp_query p" "hp_version (append p d) = hp_version p"
  "hp_headers (append p d) = hp_headers p" "hp_contentLength (append p d) = hp_contentLength p"
  "hp_chunked (append p d) = hp_chunked p" "hp_headerCount (append p d) = hp_headerCount p"
  "hp_consumed (append p d) = hp_consumed p"
  by (simp_all add: append_def)

lemma append_append [simp]: "append (append p a) b = append p (a @ b)"
  by (simp add: append_def)

lemma append_Nil [simp]: "append p [] = p"
  by (simp add: append_def)

lemma append_upd:
  "append (p\<lparr>hp_consumed := n\<rparr>) d = (append p d)\<lparr>hp_consumed := n\<rparr>"
  "append (p\<lparr>hp_state := s\<rparr>) d = (append p d)\<lparr>hp_state := s\<rparr>"
  "append (p\<lparr>hp_method := m\<rparr>) d = (append p d)\<lparr>hp_method := m\<rparr>"
  "append (p\<lparr>hp_version := m\<rparr>) d = (append p d)\<lparr>hp_version := m\<rparr>"
  "append (p\<lparr>hp_path := m\<rparr>) d = (append p d)\<lparr>hp_path := m\<rparr>"
  "append (p\<lparr>hp_query := m\<rparr>) d = (append p d)\<lparr>hp_query := m\<rparr>"
  "append (p\<lparr>hp_headers := hs\<rparr>) d = (append p d)\<lparr>hp_headers := hs\<rparr>"
  "append (p\<lparr>hp_headerCount := n\<rparr>) d = (append p d)\<lparr>hp_headerCount := n\<rparr>"
  "append (p\<lparr>hp_contentLength := n\<rparr>) d = (append p d)\<lparr>hp_contentLength := n\<rparr>"
  "append (p\<lparr>hp_chunked := b\<rparr>) d = (append p d)\<lparr>hp_chunked := b\<rparr>"
  by (simp_all add: append_def)

lemma substr_append: "pos + n \<le> length s \<Longrightarrow> substr (s @ t) pos n = substr s pos n"
  by (simp add: substr_def)

lemma line_append:
  "str_find s CRLF pos = Some eol \<Longrightarrow> substr (s @ t) pos (eol - pos) = substr s pos (eol - pos)"
  by (rule substr_append) (use str_find_SomeD [of s CRLF pos eol] in simp)

lemma scanRequestLine_append:
  "scanRequestLine (append p d) line = map_prod (\<lambda>q. append q d) id (scanRequestLine p line)"
  by (simp add: scanRequestLine_def parseTarget_def Let_def append_upd split: option.split)

lemma scanHeaderLine_append:
  "scanHeaderLine (append p d) line = map_prod (\<lambda>q. append q d) id (scanHeaderLine p line)"
  by (simp add: scanHeaderLine_def Let_def append_upd split: option.split)

lemma readContentLength_append:
  "readContentLength (append p d) = map_prod (\<lambda>q. append q d) id (readContentLength p)"
  by (simp add: readContentLength_def append_upd split: option.split from_chars_result.split)

lemma checkFraming_append:
  "checkFraming (append p d) = map_prod (\<lambda>q. append q d) id (checkFraming p)"
  by (cases "readContentLength p")
    (auto simp: checkFraming_def readContentLength_append Let_def append_upd split: outcome.split)

lemma parseRequestLine_append:
  assumes "str_find (hp_buffer p) CRLF pos = Some eol"
  shows "parseRequestLine (append p d) pos = map_prod (\<lambda>q. append q d) id (parseRequestLine p pos)"
  using assms
  by (simp add: parseRequestLine_def str_find_append line_append scanRequestLine_append
      split: prod.split)

lemma parseHeaders_more:
  "str_find (hp_buffer p) CRLF pos = None \<Longrightarrow> parseHeaders p pos =
     (p, pos, if length (hp_buffer p) - pos > kMaxHeaderBytes then Throw else Ret False)"
  by (simp add: parseHeaders.simps)

lemma parseHeaders_last:
  "str_find (hp_buffer p) CRLF pos = Some pos \<Longrightarrow> parseHeaders p pos = (p, pos + 2, Ret True)"
  by (simp add: parseHeaders.simps)

lemma parseHeaders_bad:
  "str_find (hp_buffer p) CRLF pos = Some eol \<Longrightarrow> eol \<noteq> pos \<Longrightarrow>
   scanHeaderLine p (substr (hp_buffer p) pos (eol - pos)) = (p1, Throw) \<Longrightarrow>
   parseHeaders p pos = (p1, eol + 2, Throw)"
  by (simp add: parseHeaders.simps)

lemma parseHeaders_next:
  "str_find (hp_buffer p) CRLF pos = Some eol \<Longrightarrow> eol \<noteq> pos \<Longrightarrow>
   scanHeaderLine p (substr (hp_buffer p) pos (eol - pos)) = (p1, Ret u) \<Longrightarrow>
   parseHeaders p pos = parseHeaders (p1\<lparr>hp_consumed := eol + 2\<rparr>) (eol + 2)"
  by (subst parseHeaders.simps) simp

lemmas parseHeaders_unfold = parseHeaders_more parseHeaders_last parseHeaders_bad parseHeaders_next

lemma parseHeaders_induct [case_names more last bad step]:
  assumes "\<And>p pos. str_find (hp_buffer p) CRLF pos = None \<Longrightarrow> P p pos"
    and "\<And>p pos. str_find (hp_buffer p) CRLF pos = Some pos \<Longrightarrow> P p pos"
    and "\<And>p pos eol p1. str_find (hp_buffer p) CRLF pos = Some eol \<Longrightarrow> eol \<noteq> pos \<Longrightarrow>
      scanHeaderLine p (substr (hp_buffer p) pos (eol - pos)) = (p1, Throw) \<Longrightarrow> P p pos"
    and "\<And>p pos eol p1 u. str_find (hp_buffer p) CRLF pos = Some eol \<Longrightarrow> eol \<noteq> pos \<Longrightarrow>
      scanHeaderLine p (substr (hp_buffer p) pos (eol - pos)) = (p1, Ret u) \<Longrightarrow>
      P (p1\<lparr>hp_consumed := eol + 2\<rparr>) (eol + 2) \<Longrightarrow> P p pos"
  shows "P p pos"
proof (induction p pos rule: parseHeaders.induct)
  case (1 p pos)
  show ?case
  proof (cases "str_find (hp_buffer p) CRLF pos")
    case None
    then show ?thesis by (rule assms(1))
  next
    case (Some eol)
    obtain p1 r where scan: "scanHeaderLine p (substr (hp_buffer p) pos (eol - pos)) = (p1, r)"
      by fastforce
    show ?thesis
    proof (cases "eol = pos")
      case True
      with Some show ?thesis by (simp add: assms(2))
    next
      case False
      with Some scan 1 show ?thesis by (cases r) (auto intro: assms(3,4))
    qed
  qed
qed

lemma parseHeaders_frame:
  "parseHeaders p pos = (p', pos', r) \<Longrightarrow>
   hp_buffer p' = hp_buffer p \<and> hp_state p' = hp_state p \<and>
   hp_contentLength p' = hp_contentLength p \<and> hp_method p' = hp_method p \<and>
   hp_path p' = hp_path p \<and> hp_query p' = hp_query p \<and> hp_version p' = hp_version p"
proof (induction p pos rule: parseHeaders_induct)
  case (bad p pos eol p1)
  then show ?case by (auto simp: parseHeaders_unfold dest: scanHeaderLine_frame)
next
  case (step p pos eol p1 u)
  then show ?case using scanHeaderLine_frame [OF step(3)] by (simp add: parseHeaders_unfold(4))
qed (auto simp: parseHeaders_unfold)

lemma scan_line_append:
  assumes "str_find (hp_buffer p) CRLF pos = Some eol"
    and "scanHeaderLine p (substr (hp_buffer p) pos (eol - pos)) = (p1, r)"
  shows "scanHeaderLine (append p d) (substr (hp_buffer (append p d)) pos (eol - pos)) =
    (append p1 d, r)"
  using assms by (simp add: line_append scanHeaderLine_append)

lemma parseHeaders_append_done:
  "parseHeaders p pos = (p', pos', Ret True) \<Longrightarrow>
   parseHeaders (append p d) pos = (append p' d, pos', Ret True)"
proof (induction p pos rule: parseHeaders_induct)
  case (step p pos eol p1 u)
  then show ?case
    by (simp add: parseHeaders_next [OF step(1-3)] append_upd str_find_append
        parseHeaders_next [OF _ step(2) scan_line_append [OF step(1,3)]])
qed (auto simp: parseHeaders_unfold str_find_append split: if_splits)

lemma parseHeaders_append_more:
  "parseHeaders p pos = (p', pos', Ret False) \<Longrightarrow> hp_consumed p = pos \<Longrightarrow>
   parseHeaders (append p d) pos = parseHeaders (append p' d) (hp_consumed p')"
proof (induction p pos rule: parseHeaders_induct)
  case (step p pos eol p1 u)
  then show ?case
    by (simp add: parseHeaders_next [OF step(1-3)] append_upd str_find_append
        parseHeaders_next [OF _ step(2) scan_line_append [OF step(1,3)]])
qed (auto simp: parseHeaders_unfold str_find_append split: if_splits)

lemma parseHeaders_append_bad:
  "parseHeaders p pos = (p', pos', Throw) \<Longrightarrow> length (hp_buffer p) \<le> kMaxHeaderBytes \<Longrightarrow>
   parseHeaders (append p d) pos = (append p' d, pos', Throw)"
proof (induction p pos rule: parseHeaders_induct)
  case (bad p pos eol p1)
  then show ?case
    by (simp add: parseHeaders_bad [OF bad(1-3)] str_find_append
        parseHeaders_bad [OF _ bad(2) scan_line_append [OF bad(1,3)]])
next
  case (step p pos eol p1 u)
  then show ?case using scanHeaderLine_frame(1) [OF step(3)]
    by (simp add: parseHeaders_next [OF step(1-3)] append_upd str_find_append
        parseHeaders_next [OF _ step(2) scan_line_append [OF step(1,3)]])
qed (auto simp: parseHeaders_unfold str_find_append split: if_splits)

lemma stageRequestLine_append:
  "stageRequestLine p = (p1, None) \<Longrightarrow> stageRequestLine (append p d) = (append p1 d, None)"
  by (cases "str_find (hp_buffer p) CRLF 0")
    (auto simp: stageRequestLine_def append_upd parseRequestLine_append
      parseRequestLine_def [of p] split: if_splits prod.splits outcome.splits)
lemma stageRequestLine_more: "stageRequestLine p = (p1, Some Incomplete) \<Longrightarrow> p1 = p"
  by (auto simp: stageRequestLine_def parseRequestLine_def scanRequestLine_def Let_def
      split: if_splits prod.splits outcome.splits option.splits)
lemma stageRequestLine_bad:
  "stageRequestLine p = (p1, Some Error) \<Longrightarrow> length (hp_buffer p) \<le> kMaxRequestLineLen \<Longrightarrow>
   stageRequestLine (append p d) = (append p1 d, Some Error)"
  by (cases "str_find (hp_buffer p) CRLF 0")
    (auto simp: stageRequestLine_def append_upd parseRequestLine_append
      parseRequestLine_def [of p] split: if_splits prod.splits outcome.splits)

lemma stageHeaders_append:
  assumes "stageHeaders p = (p1, None)"
  shows "stageHeaders (append p d) = (append p1 d, None)"
proof (cases "hp_state p = Headers")
  case True
  with assms obtain q pos where ph: "parseHeaders p (hp_consumed p) = (q, pos, Ret True)"
    and cf: "checkFraming (q\<lparr>hp_consumed := pos\<rparr>) = (p1, Ret ())"
    by (auto simp: stageHeaders_def split: if_splits prod.splits outcome.splits)
  with True show ?thesis
    by (simp add: stageHeaders_def parseHeaders_append_done [OF ph] checkFraming_append
        append_upd(1) [symmetric])
qed (use assms in \<open>simp add: stageHeaders_def\<close>)

lemma stageHeaders_more:
  assumes "stageHeaders p = (p1, Some Incomplete)"
  shows "hp_state p1 = Headers" and "hp_buffer p1 = hp_buffer p"
    and "stageHeaders (append p1 d) = stageHeaders (append p d)"
proof -
  from assms obtain pos where ph: "parseHeaders p (hp_consumed p) = (p1, pos, Ret False)"
    and st: "hp_state p = Headers"
    by (auto simp: stageHeaders_def split: if_splits prod.splits outcome.splits)
  from parseHeaders_frame [OF ph] st show "hp_state p1 = Headers" "hp_buffer p1 = hp_buffer p"
    by simp_all
  then show "stageHeaders (append p1 d) = stageHeaders (append p d)"
    using st by (simp add: stageHeaders_def parseHeaders_append_more [OF ph])
qed

lemma stageHeaders_bad:
  assumes "stageHeaders p = (p1, Some Error)" and small: "length (hp_buffer p) \<le> kMaxHeaderBytes"
  shows "stageHeaders (append p d) = (append p1 d, Some Error)"
proof -
  from assms(1) have st: "hp_state p = Headers" by (auto simp: stageHeaders_def split: if_splits)
  obtain q pos r where ph: "parseHeaders p (hp_consumed p) = (q, pos, r)" by (metis prod_cases3)
  show ?thesis
  proof (cases r)
    case Throw
    with assms(1) st ph show ?thesis
      by (simp add: stageHeaders_def parseHeaders_append_bad [OF _ small])
  next
    case (Ret b)
    with assms(1) st ph have b: "b" and cf: "checkFraming (q\<lparr>hp_consumed := pos\<rparr>) = (p1, Throw)"
      by (auto simp: stageHeaders_def split: if_splits prod.splits outcome.splits)
    with Ret ph have ph2: "parseHeaders p (hp_consumed p) = (q, pos, Ret True)" by simp
    from st cf show ?thesis
      by (simp add: stageHeaders_def parseHeaders_append_done [OF ph2] checkFraming_append
          append_upd(1) [symmetric])
  qed
qed

section \<open>What the scanners leave alone\<close>

lemma parseTarget_frame [simp]:
  "hp_buffer (parseTarget p t) = hp_buffer p" "hp_state (parseTarget p t) = hp_state p"
  "hp_consumed (parseTarget p t) = hp_consumed p" "hp_headers (parseTarget p t) = hp_headers p"
  "hp_headerCount (parseTarget p t) = hp_headerCount p"
  "hp_contentLength (parseTarget p t) = hp_contentLength p"
  "hp_method (parseTarget p t) = hp_method p" "hp_version (parseTarget p t) = hp_version p"
  by (simp_all add: parseTarget_def Let_def split: option.split)

lemma scanRequestLine_frame:
  assumes "scanRequestLine p line = (p', r)"
  shows "hp_buffer p' = hp_buffer p" "hp_state p' = hp_state p" "hp_consumed p' = hp_consumed p"
    "hp_headers p' = hp_headers p" "hp_headerCount p' = hp_headerCount p"
    "hp_contentLength p' = hp_contentLength p"
  using assms by (auto simp: scanRequestLine_def Let_def split: if_splits option.splits)

lemma parseRequestLine_frame:
  assumes "parseRequestLine p pos = (p', pos', r)"
  shows "hp_buffer p' = hp_buffer p" "hp_state p' = hp_state p" "hp_consumed p' = hp_consumed p"
    "hp_headers p' = hp_headers p" "hp_headerCount p' = hp_headerCount p"
    "hp_contentLength p' = hp_contentLength p"
    "r = Ret True \<Longrightarrow> 0 < pos' \<and> pos' \<le> length (hp_buffer p)"
  using assms str_find_SomeD(2) [of "hp_buffer p" CRLF pos]
  by (auto simp: parseRequestLine_def split: option.splits prod.splits if_splits
      dest: scanRequestLine_frame)

lemma stageRequestLine_frame:
  assumes "stageRequestLine p = (p1, r)"
  shows "hp_buffer p1 = hp_buffer p" and "r = None \<Longrightarrow> hp_state p1 \<noteq> RequestLine"
    and "hp_wf p \<Longrightarrow> hp_wf p1"
proof -
  obtain q pos x where pr: "parseRequestLine p 0 = (q, pos, x)" by (metis prod_cases3)
  note fr = parseRequestLine_frame [OF pr]
  show "hp_buffer p1 = hp_buffer p" "r = None \<Longrightarrow> hp_state p1 \<noteq> RequestLine"
    "hp_wf p \<Longrightarrow> hp_wf p1"
    using assms fr pr
    by (auto simp: stageRequestLine_def hp_wf_def split: if_splits outcome.splits)
qed

lemma readContentLength_frame:
  assumes "readContentLength p = (p', r)"
  shows "hp_buffer p' = hp_buffer p" "hp_state p' = hp_state p" "hp_consumed p' = hp_consumed p"
    "hp_headers p' = hp_headers p" "hp_headerCount p' = hp_headerCount p"
    "hp_method p' = hp_method p" "hp_path p' = hp_path p" "hp_query p' = hp_query p"
    "hp_version p' = hp_version p"
  using assms
  by (auto simp: readContentLength_def split: option.splits from_chars_result.splits if_splits)

lemma checkFraming_frame:
  assumes "checkFraming p = (p', r)"
  shows "hp_buffer p' = hp_buffer p" "hp_consumed p' = hp_consumed p"
    "hp_headers p' = hp_headers p" "hp_headerCount p' = hp_headerCount p"
    "hp_method p' = hp_method p" "hp_path p' = hp_path p" "hp_query p' = hp_query p"
    "hp_version p' = hp_version p"
    "hp_state p' = (case r of Throw \<Rightarrow> hp_state p | Ret _ \<Rightarrow> Body)"
  using assms
  by (auto simp: checkFraming_def Let_def readContentLength_frame
      split: prod.splits outcome.splits if_splits)

lemma parseHeaders_pos:
  "parseHeaders p pos = (p', pos', r) \<Longrightarrow>
   0 < hp_consumed p \<and> hp_consumed p \<le> length (hp_buffer p) \<Longrightarrow>
   0 < hp_consumed p' \<and> hp_consumed p' \<le> length (hp_buffer p) \<and>
   (r = Ret True \<longrightarrow> 0 < pos' \<and> pos' \<le> length (hp_buffer p))"
proof (induction p pos rule: parseHeaders_induct)
  case (last p pos)
  then show ?case using str_find_SomeD(2) [OF last(1)] by (auto simp: parseHeaders_unfold)
next
  case (bad p pos eol p1)
  then show ?case using scanHeaderLine_frame [OF bad(3)] by (auto simp: parseHeaders_unfold)
next
  case (step p pos eol p1 u)
  then show ?case
    using str_find_SomeD(2) [OF step(1)] scanHeaderLine_frame [OF step(3)]
    by (simp add: parseHeaders_next [OF step(1-3)])
qed (auto simp: parseHeaders_unfold split: if_splits)

lemma stageHeaders_frame:
  assumes "stageHeaders p = (p1, r)"
  shows "hp_buffer p1 = hp_buffer p"
    and "r = None \<Longrightarrow> hp_state p \<noteq> RequestLine \<Longrightarrow> hp_state p1 \<noteq> RequestLine \<and> hp_state p1 \<noteq> Headers"
    and "hp_wf p \<Longrightarrow> hp_wf p1"
proof -
  obtain q pos x where ph: "parseHeaders p (hp_consumed p) = (q, pos, x)" by (metis prod_cases3)
  note fr = parseHeaders_frame [OF ph]
  show "hp_buffer p1 = hp_buffer p"
    and "r = None \<Longrightarrow> hp_state p \<noteq> RequestLine \<Longrightarrow> hp_state p1 \<noteq> RequestLine \<and> hp_state p1 \<noteq> Headers"
    using assms fr ph
    by (auto simp: stageHeaders_def checkFraming_frame split: if_splits prod.splits outcome.splits)
  show "hp_wf p \<Longrightarrow> hp_wf p1"
    using assms fr ph parseHeaders_pos [OF ph]
    by (auto simp: stageHeaders_def hp_wf_def checkFraming_frame
        split: if_splits prod.splits outcome.splits)
qed

lemma finishRequest_wf [simp]: "hp_wf (finishRequest p)"
  by (simp add: hp_wf_def finishRequest_def)

lemma parse_wf [invs]: "hp_wf p \<Longrightarrow> parse p out = (st, p', out') \<Longrightarrow> hp_wf p'"
  by (auto simp: parse_def
      dest: stageRequestLine_frame(3) stageHeaders_frame(3)
      split: prod.splits option.splits if_splits)

lemma append_wf [invs]: "hp_wf p \<Longrightarrow> hp_wf (append p d)"
  by (simp add: hp_wf_def)

lemma stages_idle:
  "hp_state p \<noteq> RequestLine \<Longrightarrow> stageRequestLine p = (p, None)"
  "hp_state p \<noteq> Headers \<Longrightarrow> stageHeaders p = (p, None)"
  by (simp_all add: stageRequestLine_def stageHeaders_def)

lemma parse_more:
  assumes "parse p out = (Incomplete, p', out')"
  shows "out' = out" and "hp_buffer p' = hp_buffer p"
    and "parse (append p' d) out = parse (append p d) out"
proof -
  obtain p1 r1 where s1: "stageRequestLine p = (p1, r1)" by fastforce
  obtain p2 r2 where s2: "stageHeaders p1 = (p2, r2)" by fastforce
  have "out' = out \<and> hp_buffer p' = hp_buffer p \<and>
    parse (append p' d) out = parse (append p d) out"
  proof (cases r1)
    case (Some st)
    with assms s1 show ?thesis using stageRequestLine_more [of p p1] by (auto simp: parse_def)
  next
    case None
    note st1 = stageRequestLine_frame [OF s1]
    have a1: "stageRequestLine (append p d) = (append p1 d, None)"
      using s1 None by (simp add: stageRequestLine_append)
    show ?thesis
    proof (cases r2)
      case (Some st)
      with assms s1 s2 None have "p' = p2" "out' = out" "st = Incomplete" by (auto simp: parse_def)
      moreover from this s2 Some have s2': "stageHeaders p1 = (p2, Some Incomplete)" by simp
      ultimately show ?thesis
        using stageHeaders_more [OF s2'] st1(1) a1 by (simp add: parse_def stages_idle)
    next
      case None2: None
      with assms s1 s2 None have eq: "p' = p2" "out' = out" by (auto simp: parse_def split: if_splits)
      have a2: "stageHeaders (append p1 d) = (append p2 d, None)"
        using s2 None2 by (simp add: stageHeaders_append)
      have "hp_state p2 \<noteq> RequestLine \<and> hp_state p2 \<noteq> Headers"
        using stageHeaders_frame(2) [OF s2 None2] st1(2) None by simp
      with eq a1 a2 st1(1) stageHeaders_frame(1) [OF s2] show ?thesis
        by (simp add: parse_def stages_idle)
    qed
  qed
  then show "out' = out" "hp_buffer p' = hp_buffer p"
    "parse (append p' d) out = parse (append p d) out" by simp_all
qed

lemma finish_append:
  assumes "hp_wf p" "\<not> bodyMissing p" "hp_state p = Body"
  shows "\<not> bodyMissing (append p d)" "emitRequest (append p d) out = emitRequest p out"
    "finishRequest (append p d) = append (finishRequest p) d"
proof -
  have le: "hp_consumed p + hp_contentLength p \<le> length (hp_buffer p)"
    using assms by (auto simp: bodyMissing_def hp_wf_def)
  show "\<not> bodyMissing (append p d)" "emitRequest (append p d) out = emitRequest p out"
    using assms le
    by (simp_all add: bodyMissing_def emitRequest_def substr_append cong: option.case_cong)
  show "finishRequest (append p d) = append (finishRequest p) d"
    using assms le by (simp add: finishRequest_def append_def)
qed

lemma parse_complete_stages:
  assumes "hp_wf p" and "parse p out = (Complete, p', out')"
  obtains p1 p2 where "stageRequestLine p = (p1, None)" "stageHeaders p1 = (p2, None)"
    "hp_state p2 = Body" "\<not> bodyMissing p2" "p' = finishRequest p2" "out' = emitRequest p2 out"
    "hp_wf p2" "hp_buffer p2 = hp_buffer p"
proof -
  obtain p1 r1 where s1: "stageRequestLine p = (p1, r1)" by fastforce
  obtain p2 r2 where s2: "stageHeaders p1 = (p2, r2)" by fastforce
  have "r1 \<noteq> Some Complete" "r2 \<noteq> Some Complete" using s1 s2
    by (auto simp: stageRequestLine_def stageHeaders_def split: if_splits prod.splits outcome.splits)
  with assms(2) s1 s2 have n: "r1 = None" "r2 = None" "\<not> bodyMissing p2"
    "p' = finishRequest p2" "out' = emitRequest p2 out"
    by (auto simp: parse_def split: option.splits if_splits)
  note f1 = stageRequestLine_frame [OF s1] and f2 = stageHeaders_frame [OF s2]
  from assms(1) f1(3) f2(3) have wf2: "hp_wf p2" by blast
  moreover from f1(2) f2(2) n wf2 have "hp_state p2 = Body"
    by (cases "hp_state p2") (auto simp: hp_wf_def)
  ultimately show ?thesis using that [of p1 p2] s1 s2 n f1(1) f2(1) by simp
qed

lemma parse_complete:
  assumes wf: "hp_wf p" and "parse p out = (Complete, p', out')"
  shows "parse (append p d) out = (Complete, append p' d, out')"
  by (rule parse_complete_stages [OF assms])
    (simp add: parse_def stageRequestLine_append stageHeaders_append finish_append)

lemma parse_error_small:
  assumes "parse p out = (Error, p', out')" and small: "length (hp_buffer p) \<le> kMaxRequestLineLen"
  shows "parse (append p d) out = (Error, append p' d, out')"
proof -
  obtain p1 r1 where s1: "stageRequestLine p = (p1, r1)" by fastforce
  obtain p2 r2 where s2: "stageHeaders p1 = (p2, r2)" by fastforce
  from small stageRequestLine_frame(1) [OF s1] have small1: "length (hp_buffer p1) \<le> kMaxHeaderBytes"
    by (simp add: kMaxRequestLineLen_def kMaxHeaderBytes_def)
  show ?thesis
  proof (cases r1)
    case (Some st)
    with assms(1) s1 stageRequestLine_bad [OF _ small, of p1] show ?thesis
      by (auto simp: parse_def)
  next
    case None
    with assms(1) s1 s2 have "r2 = Some Error" "p' = p2" "out' = out"
      by (auto simp: parse_def split: option.splits if_splits)
    with None s1 s2 stageHeaders_bad [OF _ small1, of p2] show ?thesis
      by (simp add: parse_def stageRequestLine_append)
  qed
qed


section \<open>The parser meets the contract\<close>

interpretation hp: resumable append parse hp_wf "\<lambda>p. length (hp_buffer p) \<le> kMaxRequestLineLen"
proof unfold_locales
  fix p p' :: HttpParser and out out' d
  assume "hp_wf p" and s: "parse p out = (Incomplete, p', out')"
  then show "hp_wf p' \<and> out' = out \<and> parse (append p' d) out = parse (append p d) out \<and>
    (length (hp_buffer (append p d)) \<le> kMaxRequestLineLen \<longrightarrow>
     length (hp_buffer (append p' d)) \<le> kMaxRequestLineLen)"
    using parse_more [OF s] by (auto intro: parse_wf)
qed (auto intro: append_wf dest: parse_complete parse_error_small)

section \<open>The invariant and what it says of a request\<close>

lemma HttpParser_init_inv [simp]: "hp_inv HttpParser_init"
  by (simp add: hp_inv_def hp_wf_def hdrs_ok_def HttpParser_init_def)

lemma append_inv [invs]: "hp_inv p \<Longrightarrow> hp_inv (append p d)"
  by (simp add: hp_inv_def hp_wf_def hdrs_ok_def split: PState.splits)

lemma finishRequest_inv [simp]: "hp_inv (finishRequest p)"
  by (simp add: hp_inv_def hp_wf_def hdrs_ok_def finishRequest_def)

lemma tolower_colon: "tolower c = CHR '':'' \<Longrightarrow> c = CHR '':''"
proof (rule ccontr)
  assume t: "tolower c = CHR '':''" and "c \<noteq> CHR '':''"
  then have up: "isupper c" and e: "char_of ((of_char c :: nat) + 32) = CHR '':''"
    by (auto simp: tolower_def split: if_splits)
  then have n: "65 \<le> (of_char c :: nat)" "(of_char c :: nat) \<le> 90"
    by (auto simp: isupper_def Let_def)
  from e have "(of_char (char_of ((of_char c :: nat) + 32) :: char) :: nat) = of_char (CHR '':'')"
    by simp
  with n show False by simp
qed

lemma set_substr: "set (substr s pos n) \<subseteq> set s"
  unfolding substr_def by (meson set_drop_subset set_take_subset subset_trans)

lemma set_trim: "set (trim s) \<subseteq> set s"
  unfolding trim_def by (simp only: set_substr empty_subsetI list.set split: option.split) simp

lemma parseTarget_line_ok:
  assumes "target \<noteq> []" "hd target = CHR ''/''" "find_first (\<lambda>c. c \<in> {CR, LF}) target = None"
    and "hp_method p \<noteq> []" "list_all method_char (hp_method p)"
    and "hp_version p = ''HTTP/1.1'' \<or> hp_version p = ''HTTP/1.0''"
  shows "hp_line_ok (parseTarget p target)"
proof -
  have crlf: "CR \<notin> set target" "LF \<notin> set target"
    using assms(3) by (auto simp: find_first_None_iff)
  show ?thesis
proof (cases "find_first ((=) (CHR ''?'')) target")
  case None
  then have "CHR ''?'' \<notin> set target" by (auto simp: find_first_None_iff)
  with None crlf assms show ?thesis
    by (simp add: parseTarget_def line_ok_def list_all_iff) metis
next
  case (Some q)
  note d = find_first_SomeD [OF Some]
  with assms(1,2) have q: "0 < q" by (cases "q = 0") (auto simp: hd_conv_nth)
  with d assms(1,2) have ne: "take q target \<noteq> []" "hd (take q target) = CHR ''/''"
    by (auto simp: hd_take)
  have "CHR ''?'' \<notin> set (take q target)" using d by (auto simp: in_set_conv_nth)
  moreover have "set (take q target) \<subseteq> set target" "set (drop (q + 1) target) \<subseteq> set target"
    by (simp_all add: set_take_subset set_drop_subset)
  ultimately show ?thesis
    using ne Some crlf assms(4-6)
    by (simp add: parseTarget_def line_ok_def list_all_iff substr_def substr_from_def) blast
qed
qed

lemma scanRequestLine_line_ok:
  "scanRequestLine p line = (p', Ret b) \<Longrightarrow> hp_line_ok p'"
  by (auto simp: scanRequestLine_def Let_def intro!: parseTarget_line_ok
      split: if_splits option.splits)

lemma scanHeaderLine_hdrs_ok:
  assumes "scanHeaderLine p line = (p', Ret u)" and "hdrs_ok p"
  shows "hdrs_ok p'"
proof -
  from assms(1) obtain colon where c: "find_first ((=) (CHR '':'')) line = Some colon"
    by (auto simp: scanHeaderLine_def split: option.splits)
  define key where "key = toLower (trim (substr line 0 colon))"
  define val where "val = trim (substr_from line (colon + 1))"
  from assms(1) c have
    k: "key \<noteq> []" "find_first (\<lambda>c. c \<in> {SP, TAB, CR, LF}) key = None"
      "find_first (\<lambda>c. c \<in> {CR, LF}) val = None"
      "hp_headerCount p + 1 \<le> kMaxHeaderCount"
    and p': "hp_headers p' = AList.update key val (hp_headers p)"
      "hp_headerCount p' = hp_headerCount p + 1"
    by (auto simp: scanHeaderLine_def Let_def key_def val_def split: if_splits)
  have "CHR '':'' \<notin> set (substr line 0 colon)"
    using find_first_SomeD [OF c] by (auto simp: substr_def in_set_conv_nth)
  then have colon: "CHR '':'' \<notin> set key"
    using set_trim tolower_colon by (fastforce simp: key_def toLower_def)
  have "\<forall>c \<in> set key. c \<notin> {SP, TAB, CR, LF}" "\<forall>c \<in> set val. c \<notin> {CR, LF}"
    using k(2,3) unfolding find_first_None_iff by blast+
  moreover have "toLower key = key" by (simp add: key_def toLower_def comp_def)
  ultimately have hok: "header_ok (key, val)"
    using k(1) colon unfolding header_ok_def list_all_iff fst_conv snd_conv by blast
  have "set (AList.update key val m) \<subseteq> insert (key, val) (set m)" for m
    by (induction m) auto
  with hok assms(2) have "list_all header_ok (hp_headers p')"
    by (fastforce simp: p' hdrs_ok_def list_all_iff)
  moreover have "length (AList.update key val m) \<le> Suc (length m)" for m
    by (induction m) auto
  ultimately show ?thesis
    using assms(2) k(4) by (auto simp: hdrs_ok_def p' intro: distinct_keys_update le_trans)
qed

lemma parseHeaders_hdrs_ok:
  "parseHeaders p pos = (p', pos', Ret b) \<Longrightarrow> hdrs_ok p \<Longrightarrow> hdrs_ok p'"
proof (induction p pos rule: parseHeaders_induct)
  case (step p pos eol p1 u)
  moreover have "hdrs_ok (p1\<lparr>hp_consumed := eol + 2\<rparr>)"
    using scanHeaderLine_hdrs_ok [OF step(3)] step(6) by (simp add: hdrs_ok_def)
  ultimately show ?case by (simp add: parseHeaders_next [OF step(1-3)])
qed (auto simp: parseHeaders_unfold)

lemma checkFraming_ok:
  assumes "checkFraming p = (p', Ret u)" and "hp_contentLength p = 0"
  shows "framing_ok (hp_headers p') (hp_contentLength p')"
  using assms
  by (auto simp: checkFraming_def readContentLength_def framing_ok_def Let_def
      split: option.splits from_chars_result.splits if_splits prod.splits outcome.splits)

lemma stageRequestLine_inv:
  assumes "stageRequestLine p = (p1, r)" and "hp_inv p" and "r \<noteq> Some Error"
  shows "hp_inv p1"
proof -
  obtain q pos x where pr: "parseRequestLine p 0 = (q, pos, x)" by (metis prod_cases3)
  note fr = parseRequestLine_frame [OF pr]
  have lo: "hp_line_ok q" if "x = Ret True"
    using pr that scanRequestLine_line_ok
    by (auto simp: parseRequestLine_def split: option.splits prod.splits if_splits)
  have "hp_wf p1" using stageRequestLine_frame(3) [OF assms(1)] assms(2) by (simp add: hp_inv_def)
  with assms fr lo show ?thesis
    by (cases "hp_state p")
      (auto simp: stageRequestLine_def hp_inv_def hdrs_ok_def pr split: outcome.splits if_splits)
qed

lemma stageHeaders_inv:
  assumes "stageHeaders p = (p1, r)" and "hp_inv p" and "r \<noteq> Some Error"
  shows "hp_inv p1"
proof (cases "hp_state p = Headers")
  case True
  obtain q pos x where ph: "parseHeaders p (hp_consumed p) = (q, pos, x)" by (metis prod_cases3)
  note fr = parseHeaders_frame [OF ph]
  have wf: "hp_wf p1" using stageHeaders_frame(3) [OF assms(1)] assms(2) by (simp add: hp_inv_def)
  obtain b where x: "x = Ret b"
    using assms(1,3) True ph by (cases x) (auto simp: stageHeaders_def)
  have hq: "hdrs_ok q" using parseHeaders_hdrs_ok ph x assms(2) by (auto simp: hp_inv_def)
  show ?thesis
  proof (cases b)
    case False
    with assms True ph x fr wf hq show ?thesis by (auto simp: stageHeaders_def hp_inv_def)
  next
    case b: True
    with assms(1,3) True ph x obtain u where
      cf: "checkFraming (q\<lparr>hp_consumed := pos\<rparr>) = (p1, Ret u)"
      by (auto simp: stageHeaders_def split: prod.splits outcome.splits)
    note f = checkFraming_frame [OF cf]
    have "framing_ok (hp_headers p1) (hp_contentLength p1)"
      by (rule checkFraming_ok [OF cf]) (use assms(2) fr True in \<open>simp add: hp_inv_def\<close>)
    with f fr hq wf assms(2) True show ?thesis by (auto simp: hp_inv_def hdrs_ok_def)
  qed
qed (use assms in \<open>simp add: stageHeaders_def\<close>)

lemma parse_inv [invs]:
  "hp_inv p \<Longrightarrow> parse p out = (st, p', out') \<Longrightarrow> st \<noteq> Error \<Longrightarrow> hp_inv p'"
  by (auto simp: parse_def split: prod.splits option.splits if_splits
      dest: stageRequestLine_inv stageHeaders_inv)

lemma parse_request_ok:
  assumes "hp_inv p" and "parse p out = (Complete, p', out')"
  shows "request_ok out'"
proof -
  have "hp_wf p" using assms(1) by (simp add: hp_inv_def)
  then obtain p1 p2 where s: "stageRequestLine p = (p1, None)" "stageHeaders p1 = (p2, None)"
    "hp_state p2 = Body" "\<not> bodyMissing p2" "out' = emitRequest p2 out" "hp_wf p2"
    using parse_complete_stages [OF _ assms(2)] by metis
  then have "hp_inv p2" using stageRequestLine_inv stageHeaders_inv assms(1) by blast
  with s show ?thesis
    by (auto simp: request_ok_def emitRequest_def hp_inv_def hdrs_ok_def bodyMissing_def
        substr_def hp_wf_def min_absorb2)
qed

lemma parse_complete_consumes:
  assumes "hp_wf p" and "parse p out = (Complete, p', out')"
  shows "\<exists>k. 0 < k \<and> k \<le> length (hp_buffer p) \<and>
    p' = HttpParser_init\<lparr>hp_buffer := drop k (hp_buffer p)\<rparr>"
proof (rule parse_complete_stages [OF assms])
  fix p1 p2
  assume *: "hp_state p2 = Body" "\<not> bodyMissing p2" "p' = finishRequest p2" "hp_wf p2"
    "hp_buffer p2 = hp_buffer p"
  then show ?thesis
    by (intro exI [where x = "hp_consumed p2 + hp_contentLength p2"])
      (auto simp: finishRequest_def HttpParser_init_def hp_wf_def bodyMissing_def)
qed

section \<open>Properties\<close>

text \<open>
  C6: chunk boundaries are invisible. As long as the buffered bytes stay within the
  request-line limit, delivering a request in any chunks, parsing after each, gives the status and
  the request that parsing all the bytes at once gives.
\<close>

theorem parse_chunking:
  assumes "hp_wf p" and "cs \<noteq> []" and "bufferedBytes p + length (concat cs) \<le> kMaxRequestLineLen"
  shows "fst (deliver append parse p out cs) = fst (parse (append p (concat cs)) out) \<and>
    snd (snd (deliver append parse p out cs)) = snd (snd (parse (append p (concat cs)) out))"
proof -
  obtain st q out' where d: "deliver append parse p out cs = (st, q, out')" by (metis prod_cases3)
  have "length (hp_buffer (append p (concat cs))) \<le> kMaxRequestLineLen"
    using assms(3) by (simp add: bufferedBytes_def)
  from hp.deliver_status [OF assms(1,2) this d] d show ?thesis by auto
qed

theorem parse_chunking_witness:
  "let cs = [''GET /a HT'', ''TP/1.1'' @ [CR], [LF] @ ''Host: x'' @ CRLF @ [CR], [LF]]
   in hp_wf HttpParser_init \<and> cs \<noteq> [] \<and>
      bufferedBytes HttpParser_init + length (concat cs) \<le> kMaxRequestLineLen \<and>
      fst (deliver append parse HttpParser_init HttpRequest_init cs) = Complete \<and>
      fst (parse (append HttpParser_init (concat cs)) HttpRequest_init) = Complete"
proof -
  let ?cs = "[''GET /a HT'', ''TP/1.1'' @ [CR], [LF] @ ''Host: x'' @ CRLF @ [CR], [LF]]"
  have h: "hp_wf HttpParser_init" "?cs \<noteq> []"
    "bufferedBytes HttpParser_init + length (concat ?cs) \<le> kMaxRequestLineLen"
    by (simp_all add: hp_wf_def HttpParser_init_def bufferedBytes_def kMaxRequestLineLen_def)
  have w: "fst (parse (append HttpParser_init (concat ?cs)) HttpRequest_init) = Complete"
    by code_simp
  from parse_chunking [OF h, of HttpRequest_init]
  have "fst (deliver append parse HttpParser_init HttpRequest_init ?cs) = Complete"
    by (rule conjunct1 [THEN trans]) (rule w)
  with h w show ?thesis unfolding Let_def by (intro conjI)
qed

text \<open>
  whatever its size, a request that chunked delivery completes is the request that
  parsing all the bytes at once completes, and the same bytes remain in the buffer.
\<close>

theorem parse_chunking_complete:
  assumes "hp_wf p" and "deliver append parse p out cs = (Complete, p', out')"
  shows "parse (append p (concat cs)) out = (Complete, p', out')"
  using assms by (rule hp.deliver_complete)

theorem parse_chunking_complete_witness:
  "let cs = [''GET / HTTP/1.1'' @ [CR], [LF] @ CRLF @ ''GET'']
   in hp_wf HttpParser_init \<and>
      (\<exists>r. deliver append parse HttpParser_init HttpRequest_init cs =
             (Complete, HttpParser_init\<lparr>hp_buffer := ''GET''\<rparr>, r) \<and>
           parse (append HttpParser_init (concat cs)) HttpRequest_init =
             (Complete, HttpParser_init\<lparr>hp_buffer := ''GET''\<rparr>, r))"
proof -
  let ?cs = "[''GET / HTTP/1.1'' @ [CR], [LF] @ CRLF @ ''GET'']"
  let ?r = "HttpRequest_init\<lparr>rq_method := ''GET'', rq_path := ''/'', rq_version := ''HTTP/1.1''\<rparr>"
  have h: "hp_wf HttpParser_init" by (simp add: hp_wf_def HttpParser_init_def)
  have d: "deliver append parse HttpParser_init HttpRequest_init ?cs =
    (Complete, HttpParser_init\<lparr>hp_buffer := ''GET''\<rparr>, ?r)"
    by code_simp
  show ?thesis unfolding Let_def by (intro conjI exI) (rule h d parse_chunking_complete [OF h d])+
qed

text \<open>
  C7: every request the parser accepts is well formed. Its method is a non-empty token,
  its path starts with a slash, no field of the request line or of a header holds a carriage
  return or a line feed, header names are lower case and distinct and at most a hundred, no request
  is framed by both a length and a transfer coding, and the body has the length the headers say and
  at most ten megabytes.
\<close>

theorem parse_accepts_only_wellformed:
  assumes "hp_inv p" and "parse p out = (Complete, p', out')"
  shows "request_ok out' \<and> hp_inv p'"
  using parse_request_ok [OF assms] parse_inv [OF assms] by simp

theorem parse_accepts_only_wellformed_witness:
  "\<exists>p' r. hp_inv (append HttpParser_init
        (''POST /s HTTP/1.1'' @ CRLF @ ''Content-Length: 2'' @ CRLF @ CRLF @ ''ab'')) \<and>
     parse (append HttpParser_init
        (''POST /s HTTP/1.1'' @ CRLF @ ''Content-Length: 2'' @ CRLF @ CRLF @ ''ab''))
        HttpRequest_init = (Complete, p', r) \<and> request_ok r \<and> hp_inv p'"
proof -
  let ?b = "''POST /s HTTP/1.1'' @ CRLF @ ''Content-Length: 2'' @ CRLF @ CRLF @ ''ab''"
  let ?r = "HttpRequest_init\<lparr>rq_method := ''POST'', rq_path := ''/s'', rq_version := ''HTTP/1.1'',
    rq_headers := [(''content-length'', ''2'')], rq_body := ''ab''\<rparr>"
  have i: "hp_inv (append HttpParser_init ?b)" by (rule append_inv) simp
  have c: "parse (append HttpParser_init ?b) HttpRequest_init = (Complete, HttpParser_init, ?r)"
    by code_simp
  note w = parse_accepts_only_wellformed [OF i c]
  show ?thesis by (intro conjI exI) (rule i c w [THEN conjunct1] w [THEN conjunct2])+
qed

text \<open>
  C30: pipelining. A completed request is cut off the front of the buffer, at least one
  byte of it, the parser is as new on the bytes that follow, and bytes that follow do not change
  the request.
\<close>

theorem parse_pipelining:
  assumes "hp_wf p" and "parse p out = (Complete, p', out')"
  shows "parse (append p d) out = (Complete, append p' d, out') \<and>
    (\<exists>k. 0 < k \<and> k \<le> bufferedBytes p \<and>
       p' = HttpParser_init\<lparr>hp_buffer := drop k (hp_buffer p)\<rparr>)"
  using parse_complete [OF assms] parse_complete_consumes [OF assms]
  by (simp add: bufferedBytes_def)

theorem parse_pipelining_witness:
  "\<exists>r. hp_wf (append HttpParser_init (''GET /a HTTP/1.1'' @ CRLF @ CRLF)) \<and>
     parse (append HttpParser_init (''GET /a HTTP/1.1'' @ CRLF @ CRLF)) HttpRequest_init =
       (Complete, HttpParser_init, r) \<and>
     parse (append (append HttpParser_init (''GET /a HTTP/1.1'' @ CRLF @ CRLF))
       (''GET /b HTTP/1.1'' @ CRLF @ CRLF)) HttpRequest_init =
       (Complete, append HttpParser_init (''GET /b HTTP/1.1'' @ CRLF @ CRLF), r)"
proof -
  let ?p = "append HttpParser_init (''GET /a HTTP/1.1'' @ CRLF @ CRLF)"
  let ?r = "HttpRequest_init\<lparr>rq_method := ''GET'', rq_path := ''/a'', rq_version := ''HTTP/1.1''\<rparr>"
  have w: "hp_wf ?p" by (rule append_wf) (simp add: hp_wf_def HttpParser_init_def)
  have c: "parse ?p HttpRequest_init = (Complete, HttpParser_init, ?r)" by code_simp
  note pp = parse_pipelining [OF w c, of "''GET /b HTTP/1.1'' @ CRLF @ CRLF", THEN conjunct1]
  show ?thesis by (intro conjI exI) (rule w c pp)+
qed

end
