(* ===== verification/Metered.thy ===== *)
theory Metered
  imports Prelude
begin

text \<open>
  A contract shared by the components that admit or refuse requests: the rate limiter and the
  trial slots of the circuit breaker. Every admission is paid from a credit, and an admission never
  overdraws the credit below what its input allows. The one consequence the components need, a
  bound on the number of admissions in any run, is proved once here.
\<close>

primrec admitted :: "('s \<Rightarrow> 'i \<Rightarrow> bool \<times> 's) \<Rightarrow> 's \<Rightarrow> 'i list \<Rightarrow> nat" where
  "admitted step s [] = 0"
| "admitted step s (i # is) =
     (case step s i of (b, s') \<Rightarrow> (if b then 1 else 0) + admitted step s' is)"

locale metered =
  fixes step :: "'s \<Rightarrow> 'i \<Rightarrow> bool \<times> 's"
    and credit :: "'s \<Rightarrow> real"
    and allowance :: "'i \<Rightarrow> real"
    and valid :: "'s \<Rightarrow> bool"
    and good :: "'i \<Rightarrow> bool"
  assumes keeps: "valid s \<Longrightarrow> good i \<Longrightarrow> step s i = (b, s') \<Longrightarrow> valid s'"
    and pays: "valid s \<Longrightarrow> good i \<Longrightarrow> step s i = (b, s') \<Longrightarrow>
      credit s' \<le> credit s - (if b then 1 else 0)"
    and solvent: "valid s \<Longrightarrow> good i \<Longrightarrow> step s i = (True, s') \<Longrightarrow> - allowance i \<le> credit s'"
begin

lemma admitted_le:
  "valid s \<Longrightarrow> (\<forall>i \<in> set is. good i \<and> allowance i \<le> A) \<Longrightarrow>
   real (admitted step s is) \<le> max 0 (credit s + A)"
proof (induction "is" arbitrary: s)
  case (Cons i "is")
  obtain b s' where st: "step s i = (b, s')" by fastforce
  have g: "good i" and a: "allowance i \<le> A" using Cons.prems(2) by simp_all
  have IH: "real (admitted step s' is) \<le> max 0 (credit s' + A)"
    using Cons.IH [of s'] Cons.prems keeps [OF Cons.prems(1) g st] by simp
  have "- A \<le> credit s'" if b
    using solvent [OF Cons.prems(1) g] st that a by force
  with IH pays [OF Cons.prems(1) g st] st show ?case
    by (cases b) (auto simp: max_def split: if_splits)
qed simp

end

end
