(* ===== verification/RateLimiter.thy ===== *)
theory RateLimiter
  imports Metered
begin

text \<open>
  The per-client token bucket of include/resilience/RateLimiter.hpp. The clock reading of
  \<open>allow\<close> is an argument: the source reads the clock before it takes the lock, so with
  several worker threads the readings reach the bucket in any order, and nothing below assumes
  that they increase unless it says so. A \<^verbatim>\<open>double\<close> is a real number.
\<close>

section \<open>State and operations\<close>

record Bucket =
  bk_tokens :: real
  bk_lastRefill :: time_ns

definition Bucket_init :: Bucket where
  "Bucket_init = \<lparr>bk_tokens = 0, bk_lastRefill = 0\<rparr>"

record RateLimiter =
  rl_capacity :: real
  rl_refillPerSecond :: real
  rl_buckets :: "(string, Bucket) umap"

definition TokenBucketRateLimiter :: "real \<Rightarrow> real \<Rightarrow> RateLimiter" where
  "TokenBucketRateLimiter capacity refillPerSecond =
     \<lparr>rl_capacity = capacity, rl_refillPerSecond = refillPerSecond, rl_buckets = []\<rparr>"

definition refill :: "RateLimiter \<Rightarrow> time_ns \<Rightarrow> Bucket \<Rightarrow> Bucket" where
  "refill rl now b =
     (if bk_lastRefill b = 0 then \<lparr>bk_tokens = rl_capacity rl, bk_lastRefill = now\<rparr>
      else
        (let elapsed = real_of_int (now - bk_lastRefill b) / 10 ^ 9
         in \<lparr>bk_tokens = min (rl_capacity rl) (bk_tokens b + elapsed * rl_refillPerSecond rl),
             bk_lastRefill = now\<rparr>))"

definition allow :: "RateLimiter \<Rightarrow> time_ns \<Rightarrow> string \<Rightarrow> real \<Rightarrow> bool \<times> RateLimiter" where
  "allow rl now key cost =
     (let b0 = (case map_of (rl_buckets rl) key of None \<Rightarrow> Bucket_init | Some b \<Rightarrow> b);
          b1 = refill rl now b0;
          ok = (bk_tokens b1 \<ge> cost);
          b2 = (if ok then b1\<lparr>bk_tokens := bk_tokens b1 - cost\<rparr> else b1)
      in (ok, rl\<lparr>rl_buckets := AList.update key b2 (rl_buckets rl)\<rparr>))"

definition trackedKeys :: "RateLimiter \<Rightarrow> nat" where
  "trackedKeys rl = length (rl_buckets rl)"

section \<open>Runs\<close>

text \<open>
  A run is the sequence of calls in the order the mutex admits them, each with its key and its
  clock reading; every call has the default cost of one token. Only the verdicts for one key are
  counted.
\<close>

definition limiter_step :: "string \<Rightarrow> RateLimiter \<Rightarrow> string \<times> time_ns \<Rightarrow> bool \<times> RateLimiter" where
  "limiter_step k rl call =
     (case allow rl (snd call) (fst call) 1 of (ok, rl') \<Rightarrow> (ok \<and> fst call = k, rl'))"

definition limiter_run :: "RateLimiter \<Rightarrow> (string \<times> time_ns) list \<Rightarrow> RateLimiter" where
  "limiter_run rl calls = fold (\<lambda>(key, now) l. snd (allow l now key 1)) calls rl"

section \<open>Lemmas\<close>

lemma allow_params [simp]:
  "rl_capacity (snd (allow rl now key c)) = rl_capacity rl"
  "rl_refillPerSecond (snd (allow rl now key c)) = rl_refillPerSecond rl"
  by (simp_all add: allow_def Let_def)

lemma allow_bucket_other [simp]:
  "key \<noteq> k \<Longrightarrow> map_of (rl_buckets (snd (allow rl now key c))) k = map_of (rl_buckets rl) k"
  by (simp add: allow_def Let_def)

lemma allow_bucket_same:
  "map_of (rl_buckets (snd (allow rl now k c))) k =
     Some (let b = refill rl now (case map_of (rl_buckets rl) k of None \<Rightarrow> Bucket_init | Some b \<Rightarrow> b)
           in if c \<le> bk_tokens b then b\<lparr>bk_tokens := bk_tokens b - c\<rparr> else b)"
  by (simp add: allow_def Let_def)

lemma allow_verdict:
  "fst (allow rl now k c) \<longleftrightarrow>
     c \<le> bk_tokens (refill rl now (case map_of (rl_buckets rl) k of None \<Rightarrow> Bucket_init | Some b \<Rightarrow> b))"
  by (simp add: allow_def Let_def)

lemma allow_verdict_cong:
  "map_of (rl_buckets rl) k = map_of (rl_buckets rl') k \<Longrightarrow> rl_capacity rl = rl_capacity rl' \<Longrightarrow>
   rl_refillPerSecond rl = rl_refillPerSecond rl' \<Longrightarrow>
   fst (allow rl now k c) = fst (allow rl' now k c)"
  by (simp add: allow_verdict refill_def)

text \<open>
  The credit of a bucket is its tokens less what time has already put into it. Refilling only
  lowers it (by what the capacity cuts off) and a call pays one.
\<close>

definition bucket_credit :: "real \<Rightarrow> Bucket \<Rightarrow> real" where
  "bucket_credit rate b = bk_tokens b - rate * bk_lastRefill b / 10 ^ 9"

definition key_credit :: "string \<Rightarrow> RateLimiter \<Rightarrow> real" where
  "key_credit k rl =
     (case map_of (rl_buckets rl) k of
        None \<Rightarrow> 0 | Some b \<Rightarrow> bucket_credit (rl_refillPerSecond rl) b)"

definition warm :: "string \<Rightarrow> real \<Rightarrow> RateLimiter \<Rightarrow> bool" where
  "warm k rate rl \<longleftrightarrow>
     rl_refillPerSecond rl = rate \<and>
     (case map_of (rl_buckets rl) k of None \<Rightarrow> False | Some b \<Rightarrow> bk_lastRefill b \<noteq> 0)"

lemma refill_lastRefill [simp]: "bk_lastRefill (refill rl now b) = now"
  by (simp add: refill_def Let_def)

lemma refill_credit:
  "bk_lastRefill b \<noteq> 0 \<Longrightarrow>
   bucket_credit (rl_refillPerSecond rl) (refill rl now b) \<le> bucket_credit (rl_refillPerSecond rl) b"
  by (auto simp: refill_def bucket_credit_def Let_def field_simps min_def)

lemma limiter_step_warm:
  assumes "warm k rate rl" and "snd call \<noteq> 0" and st: "limiter_step k rl call = (b, rl')"
  shows "warm k rate rl'" and "key_credit k rl' \<le> key_credit k rl - (if b then 1 else 0)"
    and "b \<Longrightarrow> - (rate * snd call / 10 ^ 9) \<le> key_credit k rl'"
proof -
  obtain key now where call: "call = (key, now)" by fastforce
  from st call have rl': "rl' = snd (allow rl now key 1)"
    and b: "b \<longleftrightarrow> fst (allow rl now key 1) \<and> key = k"
    by (auto simp: limiter_step_def split: prod.splits)
  obtain old where old: "map_of (rl_buckets rl) k = Some old" "bk_lastRefill old \<noteq> 0"
    "rl_refillPerSecond rl = rate"
    using assms(1) by (auto simp: warm_def split: option.splits)
  note c = refill_credit [OF old(2), of rl now]
  have "warm k rate rl' \<and> key_credit k rl' \<le> key_credit k rl - (if b then 1 else 0) \<and>
    (b \<longrightarrow> - (rate * now / 10 ^ 9) \<le> key_credit k rl')"
  proof (cases "key = k")
    case False
    with b rl' old show ?thesis by (simp add: warm_def key_credit_def)
  next
    case True
    with b rl' old c assms(2) call show ?thesis
      by (auto simp: warm_def key_credit_def allow_bucket_same allow_verdict Let_def
          bucket_credit_def)
  qed
  with call show "warm k rate rl'" "key_credit k rl' \<le> key_credit k rl - (if b then 1 else 0)"
    "b \<Longrightarrow> - (rate * snd call / 10 ^ 9) \<le> key_credit k rl'"
    by simp_all
qed

interpretation tb: metered "limiter_step k" "key_credit k"
    "\<lambda>call. rate * real_of_int (snd call) / 10 ^ 9"
    "warm k rate" "\<lambda>call. snd call \<noteq> 0" for k rate
  by unfold_locales (use limiter_step_warm in auto)

lemma fresh_step:
  assumes "map_of (rl_buckets rl) k = None" and "now \<noteq> 0"
    and st: "limiter_step k rl (k, now) = (b, rl')"
  shows "warm k (rl_refillPerSecond rl) rl'"
    and "key_credit k rl' =
      rl_capacity rl - rl_refillPerSecond rl * now / 10 ^ 9 - (if b then 1 else 0)"
    and "b \<longleftrightarrow> 1 \<le> rl_capacity rl"
proof -
  from st have rl': "rl' = snd (allow rl now k 1)" and b: "b \<longleftrightarrow> fst (allow rl now k 1)"
    by (auto simp: limiter_step_def split: prod.splits)
  show "warm k (rl_refillPerSecond rl) rl'"
    "key_credit k rl' = rl_capacity rl - rl_refillPerSecond rl * now / 10 ^ 9 - (if b then 1 else 0)"
    "b \<longleftrightarrow> 1 \<le> rl_capacity rl"
    unfolding rl' b using assms(1,2)
    by (auto simp: warm_def key_credit_def allow_bucket_same allow_verdict Let_def
        bucket_credit_def refill_def Bucket_init_def)
qed

lemma limiter_step_other:
  "key \<noteq> k \<Longrightarrow> limiter_step k rl (key, now) = (False, snd (allow rl now key 1))"
  by (simp add: limiter_step_def split: prod.splits)

lemma limiter_step_same:
  "limiter_step k rl (k, now) = (fst (allow rl now k 1), snd (allow rl now k 1))"
  by (simp add: limiter_step_def split: prod.splits)

lemma nat_floor_pred: "1 \<le> (x :: real) \<Longrightarrow> nat \<lfloor>x\<rfloor> = Suc (nat \<lfloor>x - 1\<rfloor>)"
  by linarith

lemma burst_warm:
  assumes "now \<noteq> 0" and "map_of (rl_buckets rl) k = Some b" and "bk_lastRefill b = now"
    and "0 \<le> bk_tokens b" and "bk_tokens b \<le> rl_capacity rl"
  shows "admitted (limiter_step k) rl (replicate n (k, now)) = min n (nat \<lfloor>bk_tokens b\<rfloor>)"
  using assms
proof (induction n arbitrary: rl b)
  case (Suc n)
  let ?rl' = "snd (allow rl now k 1)"
  have r: "refill rl now b = b"
    using Suc.prems by (cases b) (simp add: refill_def)
  have st: "limiter_step k rl (k, now) = (1 \<le> bk_tokens b, ?rl')"
    using r Suc.prems(2) by (simp add: limiter_step_same allow_verdict)
  show ?case
  proof (cases "1 \<le> bk_tokens b")
    case True
    moreover have "admitted (limiter_step k) ?rl' (replicate n (k, now)) = min n (nat \<lfloor>bk_tokens b - 1\<rfloor>)"
      using True Suc.prems r
      by (subst Suc.IH [of ?rl' "b\<lparr>bk_tokens := bk_tokens b - 1\<rparr>"])
        (simp_all add: allow_bucket_same)
    ultimately show ?thesis using True st by (simp add: nat_floor_pred)
  next
    case False
    moreover have "nat \<lfloor>bk_tokens b\<rfloor> = 0" using False by simp
    moreover have "admitted (limiter_step k) ?rl' (replicate n (k, now)) = min n (nat \<lfloor>bk_tokens b\<rfloor>)"
      using False Suc.prems r by (intro Suc.IH) (simp_all add: allow_bucket_same)
    ultimately show ?thesis using st by simp
  qed
qed simp

lemma limiter_run_other:
  "\<forall>call \<in> set calls. fst call \<noteq> k \<Longrightarrow>
   map_of (rl_buckets (limiter_run rl calls)) k = map_of (rl_buckets rl) k \<and>
   rl_capacity (limiter_run rl calls) = rl_capacity rl \<and>
   rl_refillPerSecond (limiter_run rl calls) = rl_refillPerSecond rl"
  by (induction calls arbitrary: rl) (auto simp: limiter_run_def)

section \<open>Properties\<close>

text \<open>
  C11: the rate limit. In any run, over any interleaving of clients and with the clock
  readings in any order, a client not seen before is admitted at most \<open>capacity\<close> times plus
  the refill rate times the span of the readings.
\<close>

theorem rate_limit_bound:
  assumes "map_of (rl_buckets rl) k = None"
    and "0 \<le> rl_capacity rl" and "0 \<le> rl_refillPerSecond rl"
    and "\<forall>call \<in> set calls. snd call \<noteq> 0 \<and> t0 \<le> snd call \<and> snd call \<le> T" and "t0 \<le> T"
  shows "real (admitted (limiter_step k) rl calls) \<le>
    rl_capacity rl + rl_refillPerSecond rl * real_of_int (T - t0) / 10 ^ 9"
  using assms
proof (induction calls arbitrary: rl)
  case (Cons call calls)
  let ?r = "rl_refillPerSecond rl"
  obtain key now where call: "call = (key, now)" by fastforce
  with Cons.prems(4) have t: "now \<noteq> 0" "t0 \<le> now" "now \<le> T" by simp_all
  show ?case
  proof (cases "key = k")
    case False
    with Cons.IH [of "snd (allow rl now key 1)"] Cons.prems call show ?thesis
      by (simp add: limiter_step_other)
  next
    case True
    obtain b rl' where st: "limiter_step k rl (k, now) = (b, rl')" by fastforce
    note f = fresh_step [OF Cons.prems(1) t(1) st]
    have "\<forall>c \<in> set calls. snd c \<noteq> 0 \<and> ?r * real_of_int (snd c) / 10 ^ 9 \<le> ?r * T / 10 ^ 9"
      using Cons.prems(3,4) by (simp add: divide_right_mono mult_left_mono)
    from tb.admitted_le [OF f(1) this]
    have "real (admitted (limiter_step k) rl' calls) \<le> max 0 (key_credit k rl' + ?r * T / 10 ^ 9)" .
    moreover have "?r * t0 \<le> ?r * now" "?r * now \<le> ?r * T"
      using t Cons.prems(3) by (simp_all add: mult_left_mono)
    ultimately show ?thesis
      using f(2,3) st call True Cons.prems(2,3,5)
      by (cases b) (auto simp: field_simps max_def split: if_splits)
  qed
qed (simp add: divide_nonneg_nonneg)

theorem rate_limit_bound_witness:
  "let rl = TokenBucketRateLimiter 2 1;
       calls = [(''a'', 10), (''b'', 12), (''a'', 11), (''a'', 13), (''a'', 1000000013)]
   in map_of (rl_buckets rl) ''a'' = None \<and> 0 \<le> rl_capacity rl \<and> 0 \<le> rl_refillPerSecond rl \<and>
      list_all (\<lambda>call. snd call \<noteq> 0 \<and> 10 \<le> snd call \<and> snd call \<le> 1000000013) calls \<and>
      real (admitted (limiter_step ''a'') rl calls) \<le> 2 + 1 * real_of_int (1000000013 - 10) / 10 ^ 9"
  unfolding Let_def
  using rate_limit_bound [of "TokenBucketRateLimiter 2 1" "''a''"
      "[(''a'', 10), (''b'', 12), (''a'', 11), (''a'', 13), (''a'', 1000000013)]" 10 1000000013]
  by (simp add: TokenBucketRateLimiter_def)

text \<open>
  clients are isolated. Whatever the other clients do, the verdict for a client and
  the state of its bucket are those of a limiter that only this client uses.
\<close>

theorem rate_limit_isolation:
  assumes "\<forall>call \<in> set calls. fst call \<noteq> k"
  shows "fst (allow (limiter_run rl calls) now k c) = fst (allow rl now k c) \<and>
    map_of (rl_buckets (limiter_run rl calls)) k = map_of (rl_buckets rl) k"
  using limiter_run_other [OF assms, of rl] allow_verdict_cong [of "limiter_run rl calls" k rl now c]
  by simp

theorem rate_limit_isolation_witness:
  "list_all (\<lambda>call. fst call \<noteq> ''a'') [(''b'', 5 :: time_ns), (''c'', 7)] \<and>
   fst (allow (limiter_run (TokenBucketRateLimiter 1 0) [(''b'', 5), (''c'', 7)]) 9 ''a'' 1) =
   fst (allow (TokenBucketRateLimiter 1 0) 9 ''a'' 1)"
  using rate_limit_isolation [of "[(''b'', 5), (''c'', 7)]" "''a''" "TokenBucketRateLimiter 1 0" 9 1]
  by simp

text \<open>
  the burst. A client not seen before that sends any number of requests at the same
  instant has exactly the first \<open>\<lfloor>capacity\<rfloor>\<close> of them admitted.
\<close>

theorem rate_limit_burst:
  assumes "map_of (rl_buckets rl) k = None" and "0 \<le> rl_capacity rl" and "now \<noteq> 0"
  shows "admitted (limiter_step k) rl (replicate n (k, now)) = min n (nat \<lfloor>rl_capacity rl\<rfloor>)"
proof (cases n)
  case (Suc m)
  let ?rl' = "snd (allow rl now k 1)"
  let ?b = "if 1 \<le> rl_capacity rl then rl_capacity rl - 1 else rl_capacity rl"
  have v: "limiter_step k rl (k, now) = (1 \<le> rl_capacity rl, ?rl')"
    using assms by (simp add: limiter_step_same allow_verdict refill_def Bucket_init_def)
  have "map_of (rl_buckets ?rl') k = Some \<lparr>bk_tokens = ?b, bk_lastRefill = now\<rparr>"
    using assms by (simp add: allow_bucket_same refill_def Bucket_init_def)
  then have "admitted (limiter_step k) ?rl' (replicate m (k, now)) = min m (nat \<lfloor>?b\<rfloor>)"
    using burst_warm [of now ?rl' k "\<lparr>bk_tokens = ?b, bk_lastRefill = now\<rparr>" m] assms(2,3)
    by (cases "1 \<le> rl_capacity rl") simp_all
  with v Suc show ?thesis
    by (cases "1 \<le> rl_capacity rl") (simp_all add: nat_floor_pred)
qed simp

theorem rate_limit_burst_witness:
  "map_of (rl_buckets (TokenBucketRateLimiter (5 / 2) 1)) ''a'' = None \<and>
   0 \<le> rl_capacity (TokenBucketRateLimiter (5 / 2) 1) \<and>
   admitted (limiter_step ''a'') (TokenBucketRateLimiter (5 / 2) 1) (replicate 5 (''a'', 7)) = 2"
  using rate_limit_burst [of "TokenBucketRateLimiter (5 / 2) 1" "''a''" 7 5]
  by (simp add: TokenBucketRateLimiter_def)

text \<open>
  C35: no client is locked out. Once enough time has passed since a client's last request
  for the refill to produce one token, its next request is admitted, whatever other clients did
  in between.
\<close>

theorem rate_limit_recovery:
  assumes "1 \<le> rl_capacity rl" and "0 \<le> rl_refillPerSecond rl"
    and "case map_of (rl_buckets rl) k of None \<Rightarrow> True
         | Some b \<Rightarrow> 0 \<le> bk_tokens b \<and> bk_lastRefill b \<le> t"
    and "t \<noteq> 0" and "\<forall>call \<in> set others. fst call \<noteq> k"
    and "10 ^ 9 \<le> real_of_int (now - t) * rl_refillPerSecond rl"
  shows "fst (allow (limiter_run (snd (allow rl t k 1)) others) now k 1)"
proof -
  let ?rl' = "snd (allow rl t k 1)"
  obtain b where b: "map_of (rl_buckets ?rl') k = Some b" by (simp add: allow_bucket_same)
  have "0 \<le> bk_tokens b \<and> bk_lastRefill b = t"
    using b assms(1,2,3)
    by (auto simp: allow_bucket_same refill_def Bucket_init_def Let_def min_def
        split: option.splits if_splits)
  moreover have "map_of (rl_buckets (limiter_run ?rl' others)) k = Some b"
    using b limiter_run_other [OF assms(5), of ?rl'] by simp
  moreover have "1 \<le> x + real_of_int (now - t) / 10 ^ 9 * rl_refillPerSecond rl" if "0 \<le> x" for x
    using assms(6) that by (simp add: field_simps)
  ultimately show ?thesis
    using assms(1,4) limiter_run_other [OF assms(5), of ?rl']
    by (simp add: allow_verdict refill_def Let_def)
qed

theorem rate_limit_recovery_witness:
  "fst (allow (limiter_run (snd (allow (TokenBucketRateLimiter 1 2) 5 ''a'' 1)) [(''b'', 6)])
     500000005 ''a'' 1)"
  using rate_limit_recovery [where rl = "TokenBucketRateLimiter 1 2" and k = "''a''" and t = 5
      and others = "[(''b'', 6)]" and now = 500000005]
  by (simp add: TokenBucketRateLimiter_def)

end
