(* ===== verification/CircuitBreaker.thy ===== *)
theory CircuitBreaker
  imports Metered
begin

text \<open>
  The three-state circuit breaker of include/resilience/CircuitBreaker.hpp. Its operations take
  the clock reading they make as an argument. The source reads the clock while it holds the
  breaker's mutex and the clock is steady, so the readings of one breaker never decrease along
  the sequence of its operations; that is what \<open>cb_reach\<close> builds in.
\<close>

section \<open>State and operations\<close>

datatype CircuitState = Closed | Open | HalfOpen

record CircuitBreaker =
  cb_failureThreshold :: int
  cb_resetTimeout :: int
  cb_halfOpenTrialRequests :: int
  cb_state :: CircuitState
  cb_consecutiveFailures :: int
  cb_halfOpenInFlight :: int
  cb_openedAt :: time_ns

definition CircuitBreaker_init :: "int \<Rightarrow> int \<Rightarrow> int \<Rightarrow> CircuitBreaker" where
  "CircuitBreaker_init failureThreshold resetTimeout halfOpenTrialRequests =
     \<lparr>cb_failureThreshold = failureThreshold, cb_resetTimeout = resetTimeout,
      cb_halfOpenTrialRequests = halfOpenTrialRequests, cb_state = Closed,
      cb_consecutiveFailures = 0, cb_halfOpenInFlight = 0, cb_openedAt = 0\<rparr>"

definition trip :: "CircuitBreaker \<Rightarrow> time_ns \<Rightarrow> CircuitBreaker" where
  "trip cb now =
     cb\<lparr>cb_state := Open, cb_openedAt := now, cb_consecutiveFailures := 0,
        cb_halfOpenInFlight := 0\<rparr>"

definition elapsed_reset :: "CircuitBreaker \<Rightarrow> time_ns \<Rightarrow> bool" where
  "elapsed_reset cb now \<longleftrightarrow> now - cb_openedAt cb \<ge> cb_resetTimeout cb * 10 ^ 6"

definition trialRequest :: "CircuitBreaker \<Rightarrow> bool \<times> CircuitBreaker" where
  "trialRequest cb =
     (if cb_state cb = HalfOpen then
        if cb_halfOpenInFlight cb \<ge> cb_halfOpenTrialRequests cb then (False, cb)
        else (True, cb\<lparr>cb_halfOpenInFlight := cb_halfOpenInFlight cb + 1\<rparr>)
      else (True, cb))"

definition allowRequest :: "CircuitBreaker \<Rightarrow> time_ns \<Rightarrow> bool \<times> CircuitBreaker" where
  "allowRequest cb now =
     (if cb_state cb = Open then
        if elapsed_reset cb now
        then trialRequest (cb\<lparr>cb_state := HalfOpen, cb_halfOpenInFlight := 0\<rparr>)
        else (False, cb)
      else trialRequest cb)"

definition onSuccess :: "CircuitBreaker \<Rightarrow> CircuitBreaker" where
  "onSuccess cb =
     (let cb = cb\<lparr>cb_consecutiveFailures := 0\<rparr>
      in if cb_state cb = HalfOpen
         then cb\<lparr>cb_state := Closed, cb_halfOpenInFlight := 0\<rparr> else cb)"

definition onFailure :: "CircuitBreaker \<Rightarrow> time_ns \<Rightarrow> CircuitBreaker" where
  "onFailure cb now =
     (if cb_state cb = HalfOpen then trip cb now
      else
        (let cb = cb\<lparr>cb_consecutiveFailures := cb_consecutiveFailures cb + 1\<rparr>
         in if cb_consecutiveFailures cb \<ge> cb_failureThreshold cb then trip cb now else cb))"

lemmas cb_ops = allowRequest_def trialRequest_def onSuccess_def onFailure_def trip_def Let_def

section \<open>The step relation\<close>

datatype cb_event = Allow time_ns bool | Success | Failure time_ns

inductive cb_step :: "CircuitBreaker \<Rightarrow> cb_event \<Rightarrow> CircuitBreaker \<Rightarrow> bool" where
  allow: "allowRequest cb now = (ok, cb') \<Longrightarrow> cb_step cb (Allow now ok) cb'"
| success: "cb_step cb Success (onSuccess cb)"
| failure: "cb_step cb (Failure now) (onFailure cb now)"

inductive_simps cb_step_simps [simp]:
  "cb_step cb (Allow now ok) cb'" "cb_step cb Success cb'" "cb_step cb (Failure now) cb'"

fun reading :: "cb_event \<Rightarrow> time_ns option" where
  "reading (Allow now ok) = Some now"
| "reading Success = None"
| "reading (Failure now) = Some now"

inductive cb_steps :: "CircuitBreaker \<Rightarrow> cb_event list \<Rightarrow> CircuitBreaker \<Rightarrow> bool" where
  none: "cb_steps cb [] cb"
| more: "cb_step cb e cb' \<Longrightarrow> cb_steps cb' es cb'' \<Longrightarrow> cb_steps cb (e # es) cb''"

inductive_simps cb_steps_simps [simp]: "cb_steps cb [] cb'" "cb_steps cb (e # es) cb'"

inductive cb_reach :: "CircuitBreaker \<Rightarrow> CircuitBreaker \<Rightarrow> time_ns \<Rightarrow> bool" for cb0 where
  start: "cb_reach cb0 cb0 (cb_openedAt cb0)"
| step: "cb_reach cb0 cb t \<Longrightarrow> cb_step cb e cb' \<Longrightarrow>
    (case reading e of None \<Rightarrow> t' = t | Some now \<Rightarrow> t \<le> now \<and> t' = now) \<Longrightarrow> cb_reach cb0 cb' t'"



section \<open>Invariant\<close>

definition cb_params :: "CircuitBreaker \<Rightarrow> int \<times> int \<times> int" where
  "cb_params cb = (cb_failureThreshold cb, cb_resetTimeout cb, cb_halfOpenTrialRequests cb)"

definition cb_inv :: "CircuitBreaker \<Rightarrow> bool" where
  "cb_inv cb \<longleftrightarrow>
     0 \<le> cb_consecutiveFailures cb \<and>
     cb_consecutiveFailures cb < max 1 (cb_failureThreshold cb) \<and>
     0 \<le> cb_halfOpenInFlight cb \<and>
     cb_halfOpenInFlight cb \<le> max 0 (cb_halfOpenTrialRequests cb) \<and>
     (cb_state cb \<noteq> HalfOpen \<longrightarrow> cb_halfOpenInFlight cb = 0)"

lemma cb_step_params: "cb_step cb e cb' \<Longrightarrow> cb_params cb' = cb_params cb"
  by (cases rule: cb_step.cases) (auto simp: cb_ops cb_params_def split: if_splits)

lemma cb_step_inv: "cb_step cb e cb' \<Longrightarrow> cb_inv cb \<Longrightarrow> cb_inv cb'"
  by (cases rule: cb_step.cases) (auto simp: cb_ops cb_inv_def split: if_splits)

lemma cb_init_inv [simp]: "cb_inv (CircuitBreaker_init th rt n)"
  by (simp add: CircuitBreaker_init_def cb_inv_def)

lemma cb_step_openedAt:
  "cb_step cb e cb' \<Longrightarrow>
   cb_openedAt cb' = cb_openedAt cb \<or> reading e = Some (cb_openedAt cb')"
  by (cases rule: cb_step.cases) (auto simp: cb_ops split: if_splits)

text \<open>The diagram of the class comment: which changes of state are possible at all.\<close>

fun cb_diagram :: "CircuitState \<Rightarrow> CircuitState \<Rightarrow> bool" where
  "cb_diagram Closed s \<longleftrightarrow> s = Closed \<or> s = Open"
| "cb_diagram Open s \<longleftrightarrow> s = Open \<or> s = HalfOpen"
| "cb_diagram HalfOpen s \<longleftrightarrow> True"

text \<open>
  Runs of a closed breaker: the number of failures since the last success, started at the
  count the breaker has.
\<close>

fun failures_since :: "int \<Rightarrow> cb_event list \<Rightarrow> int" where
  "failures_since c [] = c"
| "failures_since c (Allow t ok # es) = failures_since c es"
| "failures_since c (Success # es) = failures_since 0 es"
| "failures_since c (Failure t # es) = failures_since (c + 1) es"

fun below_threshold :: "int \<Rightarrow> int \<Rightarrow> cb_event list \<Rightarrow> bool" where
  "below_threshold th c [] \<longleftrightarrow> c < th"
| "below_threshold th c (Allow t ok # es) \<longleftrightarrow> below_threshold th c es"
| "below_threshold th c (Success # es) \<longleftrightarrow> c < th \<and> below_threshold th 0 es"
| "below_threshold th c (Failure t # es) \<longleftrightarrow> c < th \<and> below_threshold th (c + 1) es"

lemma below_threshold_start: "below_threshold th c es \<Longrightarrow> c < th"
  by (induction th c es rule: below_threshold.induct) auto

lemma closed_run:
  "cb_steps cb es cb' \<Longrightarrow> cb_state cb = Closed \<Longrightarrow>
   below_threshold (cb_failureThreshold cb) (cb_consecutiveFailures cb) es \<Longrightarrow>
   cb_state cb' = Closed \<and> cb_failureThreshold cb' = cb_failureThreshold cb \<and>
   cb_consecutiveFailures cb' = failures_since (cb_consecutiveFailures cb) es \<and>
   (\<forall>t. Allow t False \<notin> set es)"
proof (induction rule: cb_steps.induct)
  case (more cb e cb' es cb'')
  from more.hyps(1) show ?case
  proof (cases rule: cb_step.cases)
    case (failure now)
    with more.prems below_threshold_start [of "cb_failureThreshold cb" "cb_consecutiveFailures cb + 1" es]
    show ?thesis using more.IH by (auto simp: cb_ops)
  qed (use more in \<open>auto simp: cb_ops\<close>)
qed simp

lemma open_run:
  "cb_steps cb es cb' \<Longrightarrow> cb_state cb = Open \<Longrightarrow> L \<le> cb_openedAt cb \<Longrightarrow>
   D \<le> L + cb_resetTimeout cb * 10 ^ 6 \<Longrightarrow>
   (\<forall>e \<in> set es. \<forall>t. reading e = Some t \<longrightarrow> L \<le> t \<and> t < D) \<Longrightarrow>
   cb_state cb' = Open \<and> (\<forall>t. Allow t True \<notin> set es)"
proof (induction rule: cb_steps.induct)
  case (more cb e cb' es cb'')
  have "cb_state cb' = Open \<and> cb_resetTimeout cb' = cb_resetTimeout cb \<and> L \<le> cb_openedAt cb' \<and>
    (\<forall>t. e \<noteq> Allow t True)"
    using more.hyps(1)
  proof (cases rule: cb_step.cases)
    case (allow now ok)
    with more.prems have "\<not> elapsed_reset cb now" by (auto simp: elapsed_reset_def)
    with allow more.prems show ?thesis by (auto simp: allowRequest_def)
  qed (use more.prems in \<open>auto simp: cb_ops\<close>)
  with more show ?case by auto
qed simp

text \<open>
  Outside the closed state the trial slots are a credit: an admission takes one, and no call of
  \<open>allowRequest\<close> gives one back.
\<close>

definition trial_credit :: "CircuitBreaker \<Rightarrow> real" where
  "trial_credit cb =
     real_of_int (cb_halfOpenTrialRequests cb -
       (if cb_state cb = HalfOpen then cb_halfOpenInFlight cb else 0))"

definition not_closed :: "CircuitBreaker \<Rightarrow> bool" where
  "not_closed cb \<longleftrightarrow> cb_state cb \<noteq> Closed \<and> cb_inv cb"

lemma allowRequest_not_closed:
  assumes "not_closed cb" and "allowRequest cb now = (ok, cb')"
  shows "not_closed cb'" "trial_credit cb' \<le> trial_credit cb - (if ok then 1 else 0)"
    "ok \<Longrightarrow> 0 \<le> trial_credit cb'"
  using assms
  by (cases "cb_state cb"; auto simp: not_closed_def trial_credit_def cb_inv_def cb_ops split: if_splits)+

interpretation trials: metered allowRequest trial_credit "\<lambda>_. 0" not_closed "\<lambda>_. True"
  by unfold_locales (use allowRequest_not_closed in auto)

lemma cb_reach_inv:
  "cb_reach cb0 cb t \<Longrightarrow> cb_inv cb0 \<Longrightarrow>
   cb_inv cb \<and> cb_params cb = cb_params cb0 \<and> cb_openedAt cb \<le> t"
proof (induction rule: cb_reach.induct)
  case (step cb t e cb' t')
  then show ?case
    using cb_step_inv [OF step.hyps(2)] cb_step_params [OF step.hyps(2)]
      cb_step_openedAt [OF step.hyps(2)]
    by (auto split: option.splits)
qed simp

section \<open>Properties\<close>

text \<open>
  C12: the breaker's invariant. In every reachable state the failure count stays below the
  threshold and the trial count within the number of trials, trials are only counted in the
  half-open state, neither counter can overflow a 32-bit \<^verbatim>\<open>int\<close> at its next
  increment, the opening time is not in the future, and the next operation changes the state only
  along the documented diagram.
\<close>

theorem breaker_invariant:
  assumes "cb_reach (CircuitBreaker_init th rt n) cb t" and "th < 2 ^ 31" and "n < 2 ^ 31"
  shows "0 \<le> cb_consecutiveFailures cb \<and> cb_consecutiveFailures cb < max 1 th \<and>
    0 \<le> cb_halfOpenInFlight cb \<and> cb_halfOpenInFlight cb \<le> max 0 n \<and>
    (cb_state cb \<noteq> HalfOpen \<longrightarrow> cb_halfOpenInFlight cb = 0) \<and>
    cb_consecutiveFailures cb + 1 < 2 ^ 31 \<and>
    (fst (allowRequest cb now) \<longrightarrow> cb_halfOpenInFlight cb + 1 < 2 ^ 31 \<or> cb_state cb \<noteq> HalfOpen) \<and>
    cb_openedAt cb \<le> t \<and>
    (\<forall>e cb'. cb_step cb e cb' \<longrightarrow> cb_diagram (cb_state cb) (cb_state cb'))"
proof -
  have i: "cb_inv cb" "cb_params cb = (th, rt, n)" "cb_openedAt cb \<le> t"
    using cb_reach_inv [OF assms(1) cb_init_inv]
    by (simp_all add: CircuitBreaker_init_def cb_params_def)
  have "cb_diagram (cb_state cb) (cb_state cb')" if "cb_step cb e cb'" for e cb'
    using that by (cases rule: cb_step.cases; cases "cb_state cb") (auto simp: cb_ops split: if_splits)
  with i assms(2,3) show ?thesis
    by (auto simp: cb_inv_def cb_params_def cb_ops split: if_splits)
qed

theorem breaker_invariant_witness:
  "\<exists>cb t. cb_reach (CircuitBreaker_init 1 10 1) cb t \<and> cb_state cb = Open \<and>
     cb_openedAt cb \<le> t \<and> cb_consecutiveFailures cb + 1 < 2 ^ 31"
proof -
  let ?cb = "CircuitBreaker_init 1 10 1"
  have "cb_reach ?cb (onFailure ?cb 5) 5"
    by (rule cb_reach.step [OF cb_reach.start cb_step.failure])
      (simp add: CircuitBreaker_init_def)
  from this breaker_invariant [OF this] show ?thesis
    by (intro exI [of _ "onFailure ?cb 5"] exI [of _ 5])
      (simp add: CircuitBreaker_init_def cb_ops)
qed

text \<open>
  C23: fail fast. From the moment the breaker opened until its reset timeout has passed, no
  sequence of operations, late successes and late failures included, lets a request through or
  leaves the open state.
\<close>

theorem breaker_fail_fast:
  assumes "cb_steps cb es cb'" and "cb_state cb = Open"
    and "\<forall>e \<in> set es. \<forall>t. reading e = Some t \<longrightarrow>
      cb_openedAt cb \<le> t \<and> t < cb_openedAt cb + cb_resetTimeout cb * 10 ^ 6"
  shows "cb_state cb' = Open \<and> (\<forall>t. Allow t True \<notin> set es)"
  using open_run [OF assms(1,2) order_refl order_refl assms(3)] .

theorem breaker_fail_fast_witness:
  "cb_state (snd (allowRequest (onSuccess (onFailure (CircuitBreaker_init 1 10 1) 5)) 6)) = Open"
proof -
  let ?cb = "onFailure (CircuitBreaker_init 1 10 1) 5"
  have "cb_steps ?cb [Success, Allow 6 False] (snd (allowRequest (onSuccess ?cb) 6))"
    by (simp add: CircuitBreaker_init_def cb_ops elapsed_reset_def)
  from breaker_fail_fast [OF this] show ?thesis
    by (simp add: CircuitBreaker_init_def cb_ops)
qed

text \<open>
  C24: the breaker opens at the threshold and not before. As long as no stretch of
  consecutive failures without a success reaches the threshold, a closed breaker stays closed and
  refuses nothing, and the failure that makes the stretch reach the threshold opens it.
\<close>

theorem breaker_threshold:
  assumes "cb_steps cb es cb'" and "cb_state cb = Closed"
    and "below_threshold (cb_failureThreshold cb) (cb_consecutiveFailures cb) es"
  shows "cb_state cb' = Closed \<and> (\<forall>t. Allow t False \<notin> set es) \<and>
    (cb_state (onFailure cb' now) = Open \<longleftrightarrow>
       failures_since (cb_consecutiveFailures cb) (es @ [Failure now]) \<ge> cb_failureThreshold cb)"
proof -
  have "failures_since c (xs @ [Failure now]) = failures_since c xs + 1" for c xs
    by (induction c xs rule: failures_since.induct) auto
  with closed_run [OF assms] show ?thesis by (auto simp: cb_ops)
qed

theorem breaker_threshold_witness:
  "let cb = CircuitBreaker_init 2 10 1; cb' = onFailure (onSuccess (onFailure cb 5)) 7
   in cb_steps cb [Failure 5, Success, Failure 7] cb' \<and> cb_state cb' = Closed \<and>
      cb_state (onFailure cb' 9) = Open"
proof -
  let ?cb = "CircuitBreaker_init 2 10 1"
  have r: "cb_steps ?cb [Failure 5, Success, Failure 7] (onFailure (onSuccess (onFailure ?cb 5)) 7)"
    by simp
  from r breaker_threshold [OF this, of 9] show ?thesis
    by (simp add: CircuitBreaker_init_def)
qed

text \<open>
  the trial limit. However often \<open>allowRequest\<close> is called on an open or half-open
  breaker before a verdict comes back, and whatever the clock shows, at most the configured number
  of trial requests passes.
\<close>

theorem breaker_trials:
  assumes "cb_inv cb" and "cb_state cb \<noteq> Closed"
  shows "int (admitted allowRequest cb nows) \<le> max 0 (cb_halfOpenTrialRequests cb - cb_halfOpenInFlight cb)"
proof -
  have "real (admitted allowRequest cb nows) \<le> max 0 (trial_credit cb + 0)"
    by (rule trials.admitted_le) (use assms in \<open>auto simp: not_closed_def\<close>)
  with assms show ?thesis
    by (cases "cb_state cb") (auto simp: trial_credit_def cb_inv_def max_def split: if_splits)
qed

theorem breaker_trials_witness:
  "let cb = onFailure (CircuitBreaker_init 1 0 2) 5
   in cb_inv cb \<and> cb_state cb = Open \<and> admitted allowRequest cb [6, 7, 8] = 2 \<and>
      int (admitted allowRequest cb [6, 7, 8]) \<le> 2"
  unfolding Let_def using breaker_trials [of "onFailure (CircuitBreaker_init 1 0 2) 5" "[6, 7, 8]"]
  by (simp add: CircuitBreaker_init_def cb_ops cb_inv_def elapsed_reset_def)

end
