(* ===== verification/RetryPolicy.thy ===== *)
theory RetryPolicy
  imports Prelude
begin

text \<open>
  The bounded retry with full jitter of include/resilience/RetryPolicy.hpp. The random engine is
  not part of the repository: a draw from \<^verbatim>\<open>uniform_real_distribution(0, backoff)\<close>
  is \<open>u * backoff\<close> for the uniform deviate \<open>u\<close> in \<open>[0, 1)\<close> that the caller passes.
  Delays are milliseconds.
\<close>

section \<open>Operations\<close>

record RetryPolicy =
  rp_maxRetries :: int
  rp_baseDelay :: int
  rp_maxDelay :: int

definition RetryPolicy_init :: "int \<Rightarrow> int \<Rightarrow> int \<Rightarrow> RetryPolicy" where
  "RetryPolicy_init maxRetries baseDelay maxDelay =
     \<lparr>rp_maxRetries = maxRetries, rp_baseDelay = baseDelay, rp_maxDelay = maxDelay\<rparr>"

definition truncate :: "real \<Rightarrow> int" where
  "truncate x = (if 0 \<le> x then \<lfloor>x\<rfloor> else \<lceil>x\<rceil>)"

definition backoff :: "RetryPolicy \<Rightarrow> nat \<Rightarrow> real" where
  "backoff p attempt = min (real_of_int (rp_maxDelay p)) (real_of_int (rp_baseDelay p) * 2 ^ attempt)"

definition nextDelay :: "RetryPolicy \<Rightarrow> real \<Rightarrow> nat \<Rightarrow> int" where
  "nextDelay p u attempt = truncate (u * backoff p attempt)"

definition isRetryable :: "int \<Rightarrow> bool" where
  "isRetryable httpStatusOrErrno =
     (if httpStatusOrErrno < 0 then True
      else httpStatusOrErrno = 502 \<or> httpStatusOrErrno = 503 \<or> httpStatusOrErrno = 504)"

section \<open>Lemmas\<close>

definition max_backoff :: "RetryPolicy \<Rightarrow> nat \<Rightarrow> int" where
  "max_backoff p attempt = min (rp_maxDelay p) (rp_baseDelay p * 2 ^ attempt)"

lemma backoff_int: "backoff p a = real_of_int (max_backoff p a)"
proof -
  have "real_of_int (max_backoff p a) =
    min (real_of_int (rp_maxDelay p)) (real_of_int (rp_baseDelay p * 2 ^ a))"
    unfolding max_backoff_def by (simp only: of_int_min)
  then show ?thesis by (simp add: backoff_def)
qed

lemma max_backoff_nonneg:
  "0 \<le> rp_baseDelay p \<Longrightarrow> 0 \<le> rp_maxDelay p \<Longrightarrow> 0 \<le> max_backoff p a"
  by (simp add: max_backoff_def)

lemma nextDelay_bounds:
  assumes "0 \<le> u" "u < 1" "0 \<le> rp_baseDelay p" "0 \<le> rp_maxDelay p"
  shows "0 \<le> nextDelay p u a" "nextDelay p u a \<le> max_backoff p a"
proof -
  let ?m = "real_of_int (max_backoff p a)"
  have "0 \<le> ?m" using max_backoff_nonneg [OF assms(3,4)] by simp
  then have "0 \<le> u * ?m" "u * ?m \<le> ?m"
    using assms(1,2) mult_right_mono [of u 1 ?m] by simp_all
  then show "0 \<le> nextDelay p u a" "nextDelay p u a \<le> max_backoff p a"
    by (simp_all add: nextDelay_def truncate_def backoff_int floor_le_iff)
qed

section \<open>Properties\<close>

text \<open>
  C34: full jitter. The delays the policy can choose for an attempt are exactly the whole
  milliseconds from zero up to, and not including, \<open>min cap (base * 2^attempt)\<close>.
\<close>

theorem retry_full_jitter:
  assumes "0 < rp_baseDelay p" and "0 < rp_maxDelay p"
  shows "(\<exists>u. 0 \<le> u \<and> u < 1 \<and> nextDelay p u a = d) \<longleftrightarrow>
    0 \<le> d \<and> d < min (rp_maxDelay p) (rp_baseDelay p * 2 ^ a)"
proof -
  define m where "m = max_backoff p a"
  have pos: "0 < m" using assms by (simp add: m_def max_backoff_def)
  have nd: "nextDelay p u a = \<lfloor>u * real_of_int m\<rfloor>" if "0 \<le> u" for u
    using that pos by (simp add: nextDelay_def truncate_def backoff_int m_def [symmetric])
  have "0 \<le> d \<and> d < m" if "0 \<le> u" "u < 1" "nextDelay p u a = d" for u
  proof -
    have "u * real_of_int m < real_of_int m" "0 \<le> u * real_of_int m"
      using that(1,2) pos by simp_all
    then show ?thesis using nd [OF that(1)] that(3) floor_less_iff [of "u * real_of_int m" m] by simp
  qed
  moreover have "\<exists>u. 0 \<le> u \<and> u < 1 \<and> nextDelay p u a = d" if "0 \<le> d" "d < m"
  proof -
    let ?u = "real_of_int d / real_of_int m"
    have "0 \<le> ?u" "?u < 1" "?u * real_of_int m = real_of_int d"
      using that pos by (simp_all add: divide_less_eq)
    then show ?thesis using nd [of ?u] by (intro exI [of _ ?u]) simp
  qed
  ultimately show ?thesis unfolding m_def max_backoff_def by blast
qed

theorem retry_full_jitter_witness:
  "(\<exists>u. 0 \<le> u \<and> u < 1 \<and> nextDelay (RetryPolicy_init 2 50 2000) u 3 = 399) \<and>
   \<not> (\<exists>u. 0 \<le> u \<and> u < 1 \<and> nextDelay (RetryPolicy_init 2 50 2000) u 3 = 400)"
  using retry_full_jitter [of "RetryPolicy_init 2 50 2000" 3 399]
    retry_full_jitter [of "RetryPolicy_init 2 50 2000" 3 400]
  by (simp add: RetryPolicy_init_def)

end
