(* ===== verification/LRUCache.thy ===== *)
theory LRUCache
  imports Prelude
begin

text \<open>
  The LRU cache with time to live of include/cache/LRUCache.hpp. The doubly linked list is a list
  of nodes with identities; an iterator is the identity of the node it points to, and the hash
  index maps keys to iterators. Dereferencing an iterator whose node is gone would be undefined
  behaviour: \<open>get\<close>, \<open>put\<close> and \<open>invalidate\<close> are \<open>None\<close> there, and the refinement below
  shows that no reachable cache does it. The abstract cache is the list of entries in order of
  recency.
\<close>

section \<open>State and operations\<close>

record 'v Entry =
  en_key :: string
  en_value :: 'v
  en_insertedAt :: time_ns

record 'v LRUCache =
  lc_capacity :: nat
  lc_ttl :: int
  lc_list :: "(nat \<times> 'v Entry) list"
  lc_index :: "(string, nat) umap"
  lc_next :: nat

definition LRUCache_init :: "nat \<Rightarrow> int \<Rightarrow> 'v LRUCache" where
  "LRUCache_init capacity ttl =
     \<lparr>lc_capacity = capacity, lc_ttl = ttl, lc_list = [], lc_index = [], lc_next = 0\<rparr>"

definition expired :: "int \<Rightarrow> time_ns \<Rightarrow> time_ns \<Rightarrow> bool" where
  "expired ttl now insertedAt \<longleftrightarrow> ttl > 0 \<and> now - insertedAt > ttl * 10 ^ 6"

definition get :: "'v LRUCache \<Rightarrow> time_ns \<Rightarrow> string \<Rightarrow> ('v option \<times> 'v LRUCache) option" where
  "get c now key =
     (case map_of (lc_index c) key of
        None \<Rightarrow> Some (None, c)
      | Some it \<Rightarrow>
          (case map_of (lc_list c) it of
             None \<Rightarrow> None
           | Some e \<Rightarrow>
               if expired (lc_ttl c) now (en_insertedAt e)
               then Some (None, c\<lparr>lc_list := AList.delete it (lc_list c),
                                 lc_index := AList.delete key (lc_index c)\<rparr>)
               else Some (Some (en_value e),
                          c\<lparr>lc_list := (it, e) # AList.delete it (lc_list c)\<rparr>)))"

definition put :: "'v LRUCache \<Rightarrow> time_ns \<Rightarrow> string \<Rightarrow> 'v \<Rightarrow> 'v LRUCache option" where
  "put c now key value =
     (case map_of (lc_index c) key of
        Some it \<Rightarrow>
          (case map_of (lc_list c) it of
             None \<Rightarrow> None
           | Some e \<Rightarrow>
               Some (c\<lparr>lc_list := (it, e\<lparr>en_value := value, en_insertedAt := now\<rparr>) #
                                 AList.delete it (lc_list c)\<rparr>))
      | None \<Rightarrow>
          (let it = lc_next c;
               nodes = (it, \<lparr>en_key = key, en_value = value, en_insertedAt = now\<rparr>) # lc_list c;
               index = AList.update key it (lc_index c);
               c = c\<lparr>lc_next := it + 1\<rparr>
           in if length index > lc_capacity c
              then Some (c\<lparr>lc_index := AList.delete (en_key (snd (last nodes))) index,
                           lc_list := butlast nodes\<rparr>)
              else Some (c\<lparr>lc_index := index, lc_list := nodes\<rparr>)))"

definition invalidate :: "'v LRUCache \<Rightarrow> string \<Rightarrow> 'v LRUCache option" where
  "invalidate c key =
     (case map_of (lc_index c) key of
        None \<Rightarrow> Some c
      | Some it \<Rightarrow>
          (case map_of (lc_list c) it of
             None \<Rightarrow> None
           | Some e \<Rightarrow> Some (c\<lparr>lc_list := AList.delete it (lc_list c),
                              lc_index := AList.delete key (lc_index c)\<rparr>)))"

definition clear :: "'v LRUCache \<Rightarrow> 'v LRUCache" where
  "clear c = c\<lparr>lc_list := [], lc_index := []\<rparr>"

definition cache_size :: "'v LRUCache \<Rightarrow> nat" where
  "cache_size c = length (lc_index c)"

section \<open>The abstract cache\<close>

definition others :: "string \<Rightarrow> 'v Entry list \<Rightarrow> 'v Entry list" where
  "others k es = filter (\<lambda>e. en_key e \<noteq> k) es"

definition entry_of :: "string \<Rightarrow> 'v Entry list \<Rightarrow> 'v Entry option" where
  "entry_of k es = find (\<lambda>e. en_key e = k) es"

definition spec_get :: "int \<Rightarrow> time_ns \<Rightarrow> string \<Rightarrow> 'v Entry list \<Rightarrow> 'v option \<times> 'v Entry list" where
  "spec_get ttl now k es =
     (case entry_of k es of
        None \<Rightarrow> (None, es)
      | Some e \<Rightarrow>
          if expired ttl now (en_insertedAt e) then (None, others k es)
          else (Some (en_value e), e # others k es))"

definition spec_put :: "nat \<Rightarrow> time_ns \<Rightarrow> string \<Rightarrow> 'v \<Rightarrow> 'v Entry list \<Rightarrow> 'v Entry list" where
  "spec_put cap now k v es =
     take cap (\<lparr>en_key = k, en_value = v, en_insertedAt = now\<rparr> # others k es)"

definition recency :: "'v LRUCache \<Rightarrow> 'v Entry list" where
  "recency c = map snd (lc_list c)"

section \<open>Invariant\<close>

text \<open>
  The index holds, for every key, exactly the iterator of the node with that key. Nodes have
  distinct identities, all of them handed out before, and distinct keys.
\<close>

definition linked :: "(nat \<times> 'v Entry) list \<Rightarrow> (string, nat) umap \<Rightarrow> bool" where
  "linked xs idx \<longleftrightarrow>
     distinct (map fst xs) \<and> distinct (map (en_key \<circ> snd) xs) \<and> distinct (map fst idx) \<and>
     set idx = (\<lambda>(it, e). (en_key e, it)) ` set xs"

definition lru_inv :: "'v LRUCache \<Rightarrow> bool" where
  "lru_inv c \<longleftrightarrow>
     linked (lc_list c) (lc_index c) \<and> (\<forall>it \<in> fst ` set (lc_list c). it < lc_next c) \<and>
     length (lc_list c) \<le> lc_capacity c"

lemma linked_unique:
  assumes "linked xs idx" and "(it, e) \<in> set xs" and "(it', e') \<in> set xs"
  shows "it = it' \<longleftrightarrow> en_key e = en_key e'"
proof -
  have "inj_on fst (set xs)" "inj_on (en_key \<circ> snd) (set xs)"
    using assms(1) by (simp_all add: linked_def distinct_map)
  with assms(2,3) show ?thesis
    using inj_onD [of fst "set xs" "(it, e)" "(it', e')"]
      inj_onD [of "en_key \<circ> snd" "set xs" "(it, e)" "(it', e')"] by auto
qed

lemma linked_length:
  assumes "linked xs idx" shows "length idx = length xs"
proof -
  have "set (map fst idx) = set (map (en_key \<circ> snd) xs)"
    using assms by (force simp: linked_def image_iff)
  then have "length (map fst idx) = length (map (en_key \<circ> snd) xs)"
    using assms unfolding linked_def by (metis distinct_card)
  then show ?thesis by simp
qed

lemma linked_map_of: "linked xs idx \<Longrightarrow> map_of xs it = Some e \<longleftrightarrow> (it, e) \<in> set xs"
  by (auto simp: linked_def)

lemma linked_index:
  "linked xs idx \<Longrightarrow> map_of idx k = Some it \<longleftrightarrow> (\<exists>e. (it, e) \<in> set xs \<and> en_key e = k)"
  by (auto simp: linked_def)

lemma linked_index_None:
  "linked xs idx \<Longrightarrow> map_of idx k = None \<longleftrightarrow> k \<notin> en_key ` snd ` set xs"
  by (fastforce simp: linked_def map_of_eq_None_iff image_iff)

lemma update_new: "k \<notin> fst ` set al \<Longrightarrow> AList.update k v al = al @ [(k, v)]"
  by (induction al) auto

lemma linked_delete:
  assumes "linked xs idx" and "(it, e) \<in> set xs"
  shows "linked (AList.delete it xs) (AList.delete (en_key e) idx)"
proof -
  have "(k, j) \<in> set (AList.delete (en_key e) idx) \<longleftrightarrow>
    (k, j) \<in> (\<lambda>(it, e). (en_key e, it)) ` set (AList.delete it xs)" for k j
  proof -
    have "(k, j) \<in> set idx \<longleftrightarrow> (\<exists>f. (j, f) \<in> set xs \<and> en_key f = k)"
      using assms(1) by (auto simp: linked_def)
    then show ?thesis using linked_unique [OF assms] by (fastforce simp: AList.delete_eq)
  qed
  then have "set (AList.delete (en_key e) idx) =
    (\<lambda>(it, e). (en_key e, it)) ` set (AList.delete it xs)"
    unfolding set_eq_iff split_paired_All by blast
  with assms(1) show ?thesis by (auto simp: linked_def AList.delete_eq distinct_map_filter)
qed

lemma linked_others:
  assumes "linked xs idx" and "(it, e) \<in> set xs"
  shows "map snd (AList.delete it xs) = others (en_key e) (map snd xs)"
proof -
  have "AList.delete it xs = filter (\<lambda>x. en_key (snd x) \<noteq> en_key e) xs"
    unfolding AList.delete_eq
  proof (intro filter_cong refl)
    fix x assume "x \<in> set xs"
    then show "(case x of (k', _) \<Rightarrow> it \<noteq> k') = (en_key (snd x) \<noteq> en_key e)"
      using linked_unique [OF assms, of "fst x" "snd x"] by (cases x) auto
  qed
  then show ?thesis by (simp add: others_def filter_map o_def)
qed

lemma linked_front:
  assumes "linked xs idx" and "(it, e) \<in> set xs" and "en_key e' = en_key e"
  shows "linked ((it, e') # AList.delete it xs) idx"
proof -
  have "(j, f) \<in> set xs \<longleftrightarrow> (j, f) = (it, e) \<or> (j, f) \<in> set (AList.delete it xs)" for j f
    using linked_map_of [OF assms(1), of it f] linked_map_of [OF assms(1), of it e] assms(2)
    by (auto simp: AList.delete_eq)
  then have sx: "insert (it, e) (set (AList.delete it xs)) = set xs"
    unfolding set_eq_iff split_paired_All insert_iff by blast
  have "(\<lambda>(it, e). (en_key e, it)) ` set ((it, e') # AList.delete it xs) =
    (\<lambda>(it, e). (en_key e, it)) ` insert (it, e) (set (AList.delete it xs))"
    using assms(3) by simp
  then have "set idx = (\<lambda>(it, e). (en_key e, it)) ` set ((it, e') # AList.delete it xs)"
    unfolding sx using assms(1) by (simp only: linked_def)
  moreover have "en_key e \<notin> en_key ` snd ` set (AList.delete it xs)"
    using linked_unique [OF assms(1,2)] by (force simp: AList.delete_eq)
  ultimately show ?thesis
    using assms(1,3) by (auto simp: linked_def AList.delete_eq distinct_map_filter image_comp)
qed

lemma linked_push:
  assumes "linked xs idx" and "it \<notin> fst ` set xs" and "en_key e \<notin> en_key ` snd ` set xs"
  shows "linked ((it, e) # xs) (AList.update (en_key e) it idx)"
proof -
  have "en_key e \<notin> fst ` set idx"
    using linked_index_None [OF assms(1)] assms(3) by (simp add: map_of_eq_None_iff)
  with assms show ?thesis by (auto simp: linked_def update_new image_comp)
qed

lemma linked_pop:
  assumes "linked xs idx" and "xs \<noteq> []"
  shows "linked (butlast xs) (AList.delete (en_key (snd (last xs))) idx)"
proof -
  obtain ys it e where xs: "xs = ys @ [(it, e)]"
    using assms(2) by (metis append_butlast_last_id prod.collapse)
  then have "it \<notin> fst ` set ys" using assms(1) by (simp add: linked_def)
  then have "AList.delete it xs = ys"
    using AList.delete_id [of it ys] by (simp add: xs AList.delete_eq)
  with linked_delete [OF assms(1), of it e] xs show ?thesis by simp
qed

lemma linked_entry_of:
  assumes "linked xs idx" and "(it, e) \<in> set xs"
  shows "entry_of (en_key e) (map snd xs) = Some e"
proof -
  have "distinct (map en_key es) \<Longrightarrow> e \<in> set es \<Longrightarrow> find (\<lambda>f. en_key f = en_key e) es = Some e" for es
    by (induction es) auto
  moreover have "e \<in> set (map snd xs)" using assms(2) by force
  ultimately show ?thesis using assms(1) by (simp add: linked_def entry_of_def)
qed

lemma linked_entry_of_None:
  assumes "linked xs idx" and "map_of idx k = None"
  shows "entry_of k (map snd xs) = None" "others k (map snd xs) = map snd xs"
  using assms linked_index_None [OF assms(1), of k]
  by (auto simp: entry_of_def others_def find_None_iff filter_id_conv)


section \<open>Refinement of the abstract cache\<close>

definition same_limits :: "'v LRUCache \<Rightarrow> 'v LRUCache \<Rightarrow> bool" where
  "same_limits c c' \<longleftrightarrow> lc_capacity c' = lc_capacity c \<and> lc_ttl c' = lc_ttl c"

lemma length_delete: "length (AList.delete it xs) \<le> length xs"
  by (simp add: AList.delete_eq)

lemma length_delete_less: "(it, e) \<in> set xs \<Longrightarrow> length (AList.delete it xs) < length xs"
  by (auto simp: AList.delete_eq intro: length_filter_less)



lemma indexed_node:
  assumes "lru_inv c" and "map_of (lc_index c) key = Some it"
  obtains e where "(it, e) \<in> set (lc_list c)" "map_of (lc_list c) it = Some e" "en_key e = key"
  using assms linked_index linked_map_of unfolding lru_inv_def by metis

lemma get_refines:
  assumes "lru_inv c"
  shows "\<exists>r c'. get c now k = Some (r, c') \<and> lru_inv c' \<and> same_limits c c' \<and>
    spec_get (lc_ttl c) now k (recency c) = (r, recency c')"
proof (cases "map_of (lc_index c) k")
  case None
  with assms show ?thesis
    using linked_entry_of_None(1) [of "lc_list c" "lc_index c" k]
    by (simp add: get_def spec_get_def recency_def same_limits_def lru_inv_def)
next
  case (Some it)
  obtain e where e: "(it, e) \<in> set (lc_list c)" "map_of (lc_list c) it = Some e" "en_key e = k"
    using indexed_node [OF assms Some] .
  have l: "linked (lc_list c) (lc_index c)" using assms by (simp add: lru_inv_def)
  have "linked (AList.delete it (lc_list c)) (AList.delete k (lc_index c))"
    "linked ((it, e) # AList.delete it (lc_list c)) (lc_index c)"
    using linked_delete [OF l e(1)] linked_front [OF l e(1)] e(3) by simp_all
  moreover have "\<forall>x \<in> set (AList.delete it (lc_list c)). fst x < lc_next c" "it < lc_next c"
    using assms e(1) by (auto simp: lru_inv_def AList.delete_eq)
  moreover note linked_others [OF l e(1)] linked_entry_of [OF l e(1)]
  ultimately show ?thesis
    using assms Some e length_delete_less [OF e(1)]
    by (cases "expired (lc_ttl c) now (en_insertedAt e)")
      (simp_all add: get_def spec_get_def recency_def same_limits_def lru_inv_def)
qed

lemma put_refines:
  assumes "lru_inv c"
  shows "\<exists>c'. put c now k v = Some c' \<and> lru_inv c' \<and> same_limits c c' \<and>
    recency c' = spec_put (lc_capacity c) now k v (recency c)"
proof (cases "map_of (lc_index c) k")
  case (Some it)
  obtain e where e: "(it, e) \<in> set (lc_list c)" "map_of (lc_list c) it = Some e" "en_key e = k"
    using indexed_node [OF assms Some] .
  have l: "linked (lc_list c) (lc_index c)" using assms by (simp add: lru_inv_def)
  let ?e = "e\<lparr>en_value := v, en_insertedAt := now\<rparr>"
  have "linked ((it, ?e) # AList.delete it (lc_list c)) (lc_index c)"
    using linked_front [OF l e(1), of ?e] by simp
  moreover have "length (map snd (AList.delete it (lc_list c))) < length (lc_list c)"
    using length_delete_less [OF e(1)] by simp
  then have "Suc (length (others k (map snd (lc_list c)))) \<le> lc_capacity c"
    using assms unfolding linked_others [OF l e(1)] e(3) lru_inv_def by linarith
  moreover have "\<forall>x \<in> set (AList.delete it (lc_list c)). fst x < lc_next c" "it < lc_next c"
    using assms e(1) by (auto simp: lru_inv_def AList.delete_eq)
  ultimately show ?thesis
    using assms Some e linked_others [OF l e(1)] length_delete_less [OF e(1)]
    by (simp add: put_def spec_put_def recency_def same_limits_def lru_inv_def Entry.equality)
next
  case None
  let ?e = "\<lparr>en_key = k, en_value = v, en_insertedAt = now\<rparr>"
  let ?nodes = "(lc_next c, ?e) # lc_list c"
  let ?index = "AList.update k (lc_next c) (lc_index c)"
  have l: "linked (lc_list c) (lc_index c)" using assms by (simp add: lru_inv_def)
  have "lc_next c \<notin> fst ` set (lc_list c)" using assms by (auto simp: lru_inv_def)
  then have p: "linked ?nodes ?index"
    using linked_push [OF l, of "lc_next c" ?e] linked_index_None [OF l, of k] None by simp
  have o: "others k (recency c) = recency c"
    using linked_entry_of_None(2) [OF l None] by (simp add: recency_def)
  show ?thesis
  proof (cases "length ?index > lc_capacity c")
    case True
    then have len: "length (lc_list c) = lc_capacity c"
      using linked_length [OF p] assms by (simp add: lru_inv_def)
    then have t: "butlast ?nodes = take (lc_capacity c) ?nodes" by (simp add: butlast_conv_take)
    have "map snd (butlast ?nodes) = spec_put (lc_capacity c) now k v (recency c)"
      unfolding t spec_put_def o take_map [symmetric] by (simp add: recency_def)
    moreover have "\<forall>x \<in> set (butlast ?nodes). fst x < Suc (lc_next c)"
      using assms by (auto simp: lru_inv_def less_Suc_eq dest!: in_set_butlastD)
    ultimately show ?thesis
      using True len None linked_pop [OF p]
      by (simp add: put_def Let_def same_limits_def lru_inv_def recency_def
          del: butlast.simps last.simps)
  next
    case False
    then have "Suc (length (lc_list c)) \<le> lc_capacity c" using linked_length [OF p] by simp
    with False None p o assms show ?thesis
      by (simp add: put_def Let_def same_limits_def lru_inv_def recency_def spec_put_def
          less_Suc_eq)
  qed
qed

lemma invalidate_refines:
  assumes "lru_inv c"
  shows "\<exists>c'. invalidate c k = Some c' \<and> lru_inv c' \<and> same_limits c c' \<and>
    recency c' = others k (recency c)"
proof (cases "map_of (lc_index c) k")
  case None
  with assms show ?thesis
    using linked_entry_of_None(2) [of "lc_list c" "lc_index c" k]
    by (simp add: invalidate_def recency_def same_limits_def lru_inv_def)
next
  case (Some it)
  obtain e where e: "(it, e) \<in> set (lc_list c)" "map_of (lc_list c) it = Some e" "en_key e = k"
    using indexed_node [OF assms Some] .
  have l: "linked (lc_list c) (lc_index c)" using assms by (simp add: lru_inv_def)
  have "\<forall>x \<in> set (AList.delete it (lc_list c)). fst x < lc_next c"
    using assms by (auto simp: lru_inv_def AList.delete_eq)
  then show ?thesis
    using assms Some e linked_others [OF l e(1)] linked_delete [OF l e(1)] length_delete_less [OF e(1)]
    by (simp add: invalidate_def recency_def same_limits_def lru_inv_def)
qed

lemma clear_refines: "lru_inv c \<Longrightarrow> lru_inv (clear c) \<and> same_limits c (clear c) \<and> recency (clear c) = []"
  by (simp add: clear_def lru_inv_def linked_def same_limits_def recency_def)

lemma lru_init_inv [simp]: "lru_inv (LRUCache_init cap ttl)"
  by (simp add: LRUCache_init_def lru_inv_def linked_def)

lemma lru_size: "lru_inv c \<Longrightarrow> cache_size c = length (recency c)"
  by (simp add: lru_inv_def cache_size_def recency_def linked_length)

section \<open>Runs\<close>

datatype 'v cache_op = Get time_ns string | Put time_ns string 'v | Invalidate string | Clear

fun cache_run :: "'v LRUCache \<Rightarrow> 'v cache_op list \<Rightarrow> ('v option list \<times> 'v LRUCache) option" where
  "cache_run c [] = Some ([], c)"
| "cache_run c (Get now k # ops) =
     (case get c now k of None \<Rightarrow> None
      | Some (r, c') \<Rightarrow> map_option (\<lambda>(rs, c''). (r # rs, c'')) (cache_run c' ops))"
| "cache_run c (Put now k v # ops) =
     (case put c now k v of None \<Rightarrow> None | Some c' \<Rightarrow> cache_run c' ops)"
| "cache_run c (Invalidate k # ops) =
     (case invalidate c k of None \<Rightarrow> None | Some c' \<Rightarrow> cache_run c' ops)"
| "cache_run c (Clear # ops) = cache_run (clear c) ops"

fun spec_run :: "nat \<Rightarrow> int \<Rightarrow> 'v Entry list \<Rightarrow> 'v cache_op list \<Rightarrow> 'v option list \<times> 'v Entry list" where
  "spec_run cap ttl es [] = ([], es)"
| "spec_run cap ttl es (Get now k # ops) =
     (case spec_get ttl now k es of
        (r, es') \<Rightarrow> (case spec_run cap ttl es' ops of (rs, es'') \<Rightarrow> (r # rs, es'')))"
| "spec_run cap ttl es (Put now k v # ops) = spec_run cap ttl (spec_put cap now k v es) ops"
| "spec_run cap ttl es (Invalidate k # ops) = spec_run cap ttl (others k es) ops"
| "spec_run cap ttl es (Clear # ops) = spec_run cap ttl [] ops"

lemma cache_run_refines:
  "lru_inv c \<Longrightarrow> \<exists>rs c'. cache_run c ops = Some (rs, c') \<and> lru_inv c' \<and> same_limits c c' \<and>
   spec_run (lc_capacity c) (lc_ttl c) (recency c) ops = (rs, recency c')"
proof (induction c ops rule: cache_run.induct)
  case (1 c)
  then show ?case by (simp add: same_limits_def)
next
  case (2 c now k ops)
  obtain r c1 where g: "get c now k = Some (r, c1)" "lru_inv c1" "same_limits c c1"
    "spec_get (lc_ttl c) now k (recency c) = (r, recency c1)"
    using get_refines [OF 2(2)] by blast
  with 2(1) [OF g(1) refl g(2)] show ?case by (auto simp: same_limits_def)
next
  case (3 c now k v ops)
  obtain c1 where p: "put c now k v = Some c1" "lru_inv c1" "same_limits c c1"
    "recency c1 = spec_put (lc_capacity c) now k v (recency c)"
    using put_refines [OF 3(2)] by blast
  with 3(1) [OF p(1) p(2)] show ?case by (auto simp: same_limits_def)
next
  case (4 c k ops)
  obtain c1 where p: "invalidate c k = Some c1" "lru_inv c1" "same_limits c c1"
    "recency c1 = others k (recency c)"
    using invalidate_refines [OF 4(2)] by blast
  with 4(1) [OF p(1) p(2)] show ?case by (auto simp: same_limits_def)
next
  case (5 c ops)
  then show ?case using clear_refines [of c] by (auto simp: same_limits_def)
qed

section \<open>The contract the gateway relies on\<close>

text \<open>
  A cache with a time to live, as its clients see it: what it holds for a key is at most what was
  last stored for that key, a lookup returns what it holds and only if that is still fresh, and
  neither operation fails.
\<close>

fun last_stored :: "string \<Rightarrow> 'v cache_op list \<Rightarrow> ('v \<times> time_ns) option" where
  "last_stored k [] = None"
| "last_stored k (Put now k' v # ops) =
     (case last_stored k ops of Some x \<Rightarrow> Some x | None \<Rightarrow> if k' = k then Some (v, now) else None)"
| "last_stored k (op # ops) = last_stored k ops"

fun client_op :: "'v cache_op \<Rightarrow> bool" where
  "client_op (Get now k) = True"
| "client_op (Put now k v) = True"
| "client_op op = False"

lemma last_stored_snoc:
  "last_stored k (ops @ [op]) =
     (case op of Put now k' v \<Rightarrow> if k' = k then Some (v, now) else last_stored k ops
      | _ \<Rightarrow> last_stored k ops)"
  by (induction k ops rule: last_stored.induct) (auto split: cache_op.split option.split)

fun client_run ::
  "('s \<Rightarrow> time_ns \<Rightarrow> string \<Rightarrow> ('v option \<times> 's) option) \<Rightarrow>
   ('s \<Rightarrow> time_ns \<Rightarrow> string \<Rightarrow> 'v \<Rightarrow> 's option) \<Rightarrow> 's \<Rightarrow> 'v cache_op list \<Rightarrow> 's option" where
  "client_run lookup store s [] = Some s"
| "client_run lookup store s (Get now k # ops) =
     (case lookup s now k of None \<Rightarrow> None | Some (r, s') \<Rightarrow> client_run lookup store s' ops)"
| "client_run lookup store s (Put now k v # ops) =
     (case store s now k v of None \<Rightarrow> None | Some s' \<Rightarrow> client_run lookup store s' ops)"
| "client_run lookup store s (op # ops) = None"

locale ttl_cache =
  fixes lookup :: "'s \<Rightarrow> time_ns \<Rightarrow> string \<Rightarrow> ('v option \<times> 's) option"
    and store :: "'s \<Rightarrow> time_ns \<Rightarrow> string \<Rightarrow> 'v \<Rightarrow> 's option"
    and holds :: "'s \<Rightarrow> string \<Rightarrow> ('v \<times> time_ns) option"
    and valid :: "'s \<Rightarrow> bool"
    and stale :: "time_ns \<Rightarrow> time_ns \<Rightarrow> bool"
  assumes lookup_valid: "valid s \<Longrightarrow> \<exists>r s'. lookup s now k = Some (r, s') \<and> valid s'"
    and lookup_holds: "valid s \<Longrightarrow> lookup s now k = Some (r, s') \<Longrightarrow> holds s' \<subseteq>\<^sub>m holds s"
    and lookup_hit: "valid s \<Longrightarrow> lookup s now k = Some (Some v, s') \<Longrightarrow>
      \<exists>t. holds s k = Some (v, t) \<and> \<not> stale now t"
    and store_valid: "valid s \<Longrightarrow> \<exists>s'. store s now k v = Some s' \<and> valid s'"
    and store_holds: "valid s \<Longrightarrow> store s now k v = Some s' \<Longrightarrow>
      holds s' \<subseteq>\<^sub>m (holds s)(k \<mapsto> (v, now))"
begin

lemma client_run_holds:
  "valid s \<Longrightarrow> list_all client_op ops \<Longrightarrow>
   \<exists>s'. client_run lookup store s ops = Some s' \<and> valid s' \<and>
     (\<forall>k x. holds s' k = Some x \<longrightarrow>
        last_stored k ops = Some x \<or> (last_stored k ops = None \<and> holds s k = Some x))"
proof (induction ops arbitrary: s)
  case (Cons op ops)
  show ?case
  proof (cases op)
    case (Get now k)
    obtain r s1 where l: "lookup s now k = Some (r, s1)" "valid s1"
      using lookup_valid [OF Cons.prems(1)] by blast
    have h: "holds s k' = Some x" if "holds s1 k' = Some x" for k' x
      using lookup_holds [OF Cons.prems(1) l(1)] that by (metis domI map_le_def)
    obtain s' where s': "client_run lookup store s1 ops = Some s'" "valid s'"
      "\<And>k x. holds s' k = Some x \<Longrightarrow>
        last_stored k ops = Some x \<or> (last_stored k ops = None \<and> holds s1 k = Some x)"
      using Cons.IH [OF l(2)] Cons.prems(2) by auto
    have "last_stored k' ops = Some x \<or> (last_stored k' ops = None \<and> holds s k' = Some x)"
      if "holds s' k' = Some x" for k' x
      using s'(3) [OF that] h by blast
    with s'(1,2) Get l(1) show ?thesis by simp
  next
    case (Put now k v)
    obtain s1 where l: "store s now k v = Some s1" "valid s1"
      using store_valid [OF Cons.prems(1)] by blast
    have "((holds s)(k \<mapsto> (v, now))) k' = Some x" if "holds s1 k' = Some x" for k' x
      using store_holds [OF Cons.prems(1) l(1)] that by (metis domI map_le_def)
    then have h: "holds s1 k' = Some x \<Longrightarrow> if k' = k then x = (v, now) else holds s k' = Some x" for k' x
      by (metis (no_types, lifting) fun_upd_apply option.inject)
    obtain s' where s': "client_run lookup store s1 ops = Some s'" "valid s'"
      "\<And>k x. holds s' k = Some x \<Longrightarrow>
        last_stored k ops = Some x \<or> (last_stored k ops = None \<and> holds s1 k = Some x)"
      using Cons.IH [OF l(2)] Cons.prems(2) by auto
    have "last_stored k' (op # ops) = Some x \<or> (last_stored k' (op # ops) = None \<and> holds s k' = Some x)"
      if "holds s' k' = Some x" for k' x
      using s'(3) [OF that] h [of k' x] Put by (auto split: if_splits)
    with l s' Put show ?thesis by auto
  qed (use Cons.prems in auto)
qed simp

text \<open>A hit after any run of a client returns the last value stored for the key, and a fresh one.\<close>

lemma hit_sound:
  assumes "valid s" and "holds s = Map.empty" and "list_all client_op ops"
    and "client_run lookup store s ops = Some s'" and "lookup s' now k = Some (Some v, s'')"
  shows "\<exists>t. last_stored k ops = Some (v, t) \<and> \<not> stale now t"
  using client_run_holds [OF assms(1,3)] lookup_hit [OF _ assms(5)] assms(2,4) by fastforce

end

definition lru_holds :: "'v LRUCache \<Rightarrow> string \<Rightarrow> ('v \<times> time_ns) option" where
  "lru_holds c k = map_option (\<lambda>e. (en_value e, en_insertedAt e)) (entry_of k (recency c))"

lemma entry_of_Cons [simp]: "entry_of k (e # es) = (if en_key e = k then Some e else entry_of k es)"
  by (simp add: entry_of_def)

lemma entry_of_Nil [simp]: "entry_of k [] = None"
  by (simp add: entry_of_def)

lemma entry_of_key: "entry_of k es = Some e \<Longrightarrow> en_key e = k"
  by (auto simp: entry_of_def find_Some_iff)

lemma entry_of_others [simp]: "entry_of k' (others k es) = (if k' = k then None else entry_of k' es)"
  by (induction es) (auto simp: others_def)

lemma entry_of_take: "entry_of k (take n es) = Some e \<Longrightarrow> entry_of k es = Some e"
proof (induction es arbitrary: n)
  case (Cons x es)
  then show ?case by (cases n) (auto split: if_splits)
qed simp

lemma spec_get_entry:
  "spec_get ttl now k es = (r, es') \<Longrightarrow> entry_of k' es' = Some e \<Longrightarrow> entry_of k' es = Some e"
  using entry_of_key [of k es] by (auto simp: spec_get_def split: option.splits if_splits)

lemma spec_put_entry:
  "entry_of k' (spec_put cap now k v es) = Some e \<Longrightarrow>
   if k' = k then en_value e = v \<and> en_insertedAt e = now else entry_of k' es = Some e"
  unfolding spec_put_def by (drule entry_of_take) (auto split: if_splits)

definition lru_valid :: "int \<Rightarrow> 'v LRUCache \<Rightarrow> bool" where
  "lru_valid ttl c \<longleftrightarrow> lru_inv c \<and> lc_ttl c = ttl"

lemma lru_lookup:
  assumes "lru_valid ttl c" and "get c now k = Some (r, c')"
  shows "lru_holds c' \<subseteq>\<^sub>m lru_holds c"
    and "r = Some v \<Longrightarrow> \<exists>t. lru_holds c k = Some (v, t) \<and> \<not> expired ttl now t"
proof -
  have g: "spec_get ttl now k (recency c) = (r, recency c')"
    using assms get_refines [of c now k] by (auto simp: lru_valid_def)
  show "lru_holds c' \<subseteq>\<^sub>m lru_holds c"
    using spec_get_entry [OF g] by (auto simp: map_le_def lru_holds_def)
  show "r = Some v \<Longrightarrow> \<exists>t. lru_holds c k = Some (v, t) \<and> \<not> expired ttl now t"
    using g by (auto simp: spec_get_def lru_holds_def split: option.splits if_splits)
qed

lemma lru_store:
  assumes "lru_valid ttl c" and "put c now k v = Some c'"
  shows "lru_holds c' \<subseteq>\<^sub>m (lru_holds c)(k \<mapsto> (v, now))"
proof -
  have p: "recency c' = spec_put (lc_capacity c) now k v (recency c)"
    using assms put_refines [of c now k v] by (auto simp: lru_valid_def)
  show ?thesis
    using spec_put_entry [of _ "lc_capacity c" now k v "recency c"]
    by (fastforce simp: map_le_def lru_holds_def p split: if_splits)
qed

interpretation lru: ttl_cache get put lru_holds "lru_valid ttl" "expired ttl" for ttl
proof
  fix s :: "'a LRUCache" and now k assume "lru_valid ttl s"
  then show "\<exists>r s'. get s now k = Some (r, s') \<and> lru_valid ttl s'"
    using get_refines [of s now k] by (auto simp: lru_valid_def same_limits_def)
next
  fix s :: "'a LRUCache" and now k v assume "lru_valid ttl s"
  then show "\<exists>s'. put s now k v = Some s' \<and> lru_valid ttl s'"
    using put_refines [of s now k v] by (auto simp: lru_valid_def same_limits_def)
qed (erule (1) lru_lookup(1), erule (1) lru_lookup(2) [OF _ _ refl], erule (1) lru_store)

section \<open>Retention\<close>

text \<open>
  Where an entry stands in the recency order: everything in front of it was used after it.
\<close>

definition ahead :: "string set \<Rightarrow> 'v Entry \<Rightarrow> 'v Entry list \<Rightarrow> bool" where
  "ahead K e es \<longleftrightarrow>
     (\<exists>xs ys. es = xs @ e # ys \<and> distinct (map en_key xs) \<and> en_key ` set xs \<subseteq> K)"

fun op_key :: "'v cache_op \<Rightarrow> string set" where
  "op_key (Get now k) = {k}"
| "op_key (Put now k v) = {k}"
| "op_key (Invalidate k) = {k}"
| "op_key Clear = UNIV"

lemma ahead_others: "ahead K e es \<Longrightarrow> k \<noteq> en_key e \<Longrightarrow> ahead K e (others k es)"
  unfolding ahead_def others_def
  by (elim exE conjE, rule_tac x = "filter (\<lambda>e. en_key e \<noteq> k) xs" in exI,
      rule_tac x = "filter (\<lambda>e. en_key e \<noteq> k) ys" in exI) (auto simp: distinct_map_filter)

lemma ahead_front:
  assumes "ahead K e (others k es)" and "en_key f = k"
  shows "ahead (insert k K) e (f # others k es)"
proof -
  obtain xs ys where x: "others k es = xs @ e # ys" "distinct (map en_key xs)" "en_key ` set xs \<subseteq> K"
    using assms(1) by (auto simp: ahead_def)
  have "k \<notin> en_key ` set (others k es)" by (auto simp: others_def)
  then have "k \<notin> en_key ` set xs" by (auto simp: x(1))
  with x assms(2) show ?thesis
    unfolding ahead_def by (intro exI [of _ "f # xs"] exI [of _ ys]) auto
qed

lemma ahead_take:
  assumes "ahead K e es" and "finite K" and "card K < cap"
  shows "ahead K e (take cap es)"
proof -
  obtain xs ys where x: "es = xs @ e # ys" "distinct (map en_key xs)" "en_key ` set xs \<subseteq> K"
    using assms(1) by (auto simp: ahead_def)
  have "length xs = card (en_key ` set xs)" using distinct_card [OF x(2)] by simp
  also have "\<dots> \<le> card K" using x(3) assms(2) by (rule card_mono [rotated])
  finally have "length xs < cap" using assms(3) by simp
  then obtain n where "cap - length xs = Suc n" by (metis Suc_diff_Suc)
  with x show ?thesis unfolding ahead_def by (intro exI [of _ xs] exI [of _ "take n ys"]) simp
qed

lemma ahead_mono: "ahead K e es \<Longrightarrow> K \<subseteq> K' \<Longrightarrow> ahead K' e es"
  unfolding ahead_def by blast

lemma ahead_get:
  assumes "ahead K e es" and "k \<noteq> en_key e"
  shows "ahead (insert k K) e (snd (spec_get ttl now k es))"
proof -
  have "ahead K e (others k es)" using ahead_others [OF assms] .
  then have "ahead (insert k K) e (others k es)" "ahead (insert k K) e (f # others k es)"
    if "en_key f = k" for f
    using ahead_mono [of K e _ "insert k K"] ahead_front that by blast+
  with ahead_mono [OF assms(1), of "insert k K"] entry_of_key [of k es] show ?thesis
    by (auto simp: spec_get_def split: option.split)
qed

lemma ahead_put:
  assumes "ahead K e es" and "k \<noteq> en_key e" and "finite K" and "card (insert k K) < cap"
  shows "ahead (insert k K) e (spec_put cap now k v es)"
  unfolding spec_put_def
  using assms(3,4) by (intro ahead_take ahead_front ahead_others assms(1,2)) simp_all

lemma ahead_run:
  "ahead K e es \<Longrightarrow> finite K \<Longrightarrow> list_all client_op ops \<Longrightarrow>
   card (K \<union> \<Union> (op_key ` set ops)) < cap \<Longrightarrow> en_key e \<notin> \<Union> (op_key ` set ops) \<Longrightarrow>
   \<exists>K'. ahead K' e (snd (spec_run cap ttl es ops))"
proof (induction ops arbitrary: K es)
  case (Cons op ops)
  have fin: "finite (\<Union> (op_key ` set ops))"
    using Cons.prems(3) by (induction ops) (auto elim: client_op.elims)
  obtain k es' where op: "op_key op = {k}" "k \<noteq> en_key e" "ahead (insert k K) e es'"
    "snd (spec_run cap ttl es (op # ops)) = snd (spec_run cap ttl es' ops)"
  proof (cases op)
    case (Get now k)
    with Cons.prems(5) ahead_get [OF Cons.prems(1), of k ttl now] show ?thesis
      by (intro that [of k "snd (spec_get ttl now k es)"]) (auto split: prod.splits)
  next
    case (Put now k v)
    have "card (insert k K) \<le> card (K \<union> \<Union> (op_key ` set (op # ops)))"
      using Put fin Cons.prems(2) by (intro card_mono) auto
    with Put Cons.prems ahead_put [OF Cons.prems(1), of k cap now v] show ?thesis
      by (intro that [of k "spec_put cap now k v es"]) auto
  qed (use Cons.prems(3) in simp_all)
  with Cons.IH [of "insert k K" es'] Cons.prems show ?case by simp
qed auto

lemma ahead_found: "ahead K e es \<Longrightarrow> distinct (map en_key es) \<Longrightarrow> entry_of (en_key e) es = Some e"
proof -
  assume a: "ahead K e es" and d: "distinct (map en_key es)"
  obtain xs ys where es: "es = xs @ e # ys" using a by (auto simp: ahead_def)
  have "en_key e \<notin> en_key ` set xs" using d es by auto
  then show ?thesis unfolding es by (induction xs) auto
qed

section \<open>Properties\<close>

text \<open>
  C10: the cache implements the abstract LRU cache. Every sequence of operations on a new
  cache runs without dereferencing a dangling iterator, returns what the list of entries in
  recency order returns, and never holds more than \<open>capacity\<close> entries.
\<close>

theorem lru_refines_recency_list:
  "\<exists>rs c. cache_run (LRUCache_init cap ttl) ops = Some (rs, c) \<and>
     spec_run cap ttl [] ops = (rs, recency c) \<and> cache_size c = length (recency c) \<and>
     cache_size c \<le> cap"
proof -
  obtain rs c where "cache_run (LRUCache_init cap ttl) ops = Some (rs, c)" "lru_inv c"
    "same_limits (LRUCache_init cap ttl) c" "spec_run cap ttl [] ops = (rs, recency c)"
    using cache_run_refines [OF lru_init_inv, of cap ttl ops]
    by (auto simp: LRUCache_init_def recency_def)
  moreover from this have "length (recency c) \<le> cap"
    by (simp add: lru_inv_def recency_def same_limits_def LRUCache_init_def)
  ultimately show ?thesis by (auto simp: lru_size)
qed

text \<open>
  hits are sound. After any run of lookups and insertions on a new cache, a lookup that
  hits returns the value that was last inserted for exactly this key, and that insertion is not
  older than the time to live.
\<close>

theorem cache_hit_sound:
  assumes "list_all client_op ops"
    and "client_run get put (LRUCache_init cap ttl) ops = Some c"
    and "get c now k = Some (Some v, c')"
  shows "\<exists>t. last_stored k ops = Some (v, t) \<and> (ttl > 0 \<longrightarrow> now - t \<le> ttl * 10 ^ 6)"
proof -
  have "lru_valid ttl (LRUCache_init cap ttl)" "lru_holds (LRUCache_init cap ttl) = Map.empty"
    by (simp_all add: lru_valid_def lru_holds_def LRUCache_init_def recency_def entry_of_def
        fun_eq_iff lru_init_inv [unfolded LRUCache_init_def])
  from lru.hit_sound [OF this assms] show ?thesis by (auto simp: expired_def)
qed

theorem cache_hit_sound_witness:
  "\<exists>c c'. client_run get put (LRUCache_init 2 5) [Put 1 ''a'' (7 :: nat), Put 2 ''b'' 8, Get 3 ''a''] = Some c \<and>
     get c 4 ''a'' = Some (Some 7, c') \<and>
     last_stored ''a'' [Put 1 ''a'' (7 :: nat), Put 2 ''b'' 8, Get 3 ''a''] = Some (7, 1)"
proof -
  let ?ops = "[Put 1 ''a'' (7 :: nat), Put 2 ''b'' 8, Get 3 ''a'']"
  let ?c = "the (client_run get put (LRUCache_init 2 5) ?ops)"
  let ?c' = "snd (the (get ?c 4 ''a''))"
  have 1: "client_run get put (LRUCache_init 2 5) ?ops = Some ?c" by code_simp
  have 2: "get ?c 4 ''a'' = Some (Some 7, ?c')" by code_simp
  have 3: "last_stored ''a'' ?ops = Some (7, 1)" by code_simp
  have "\<exists>t. last_stored ''a'' ?ops = Some (7, t) \<and> (5 > (0 :: int) \<longrightarrow> 4 - t \<le> 5 * 10 ^ 6)"
    by (rule cache_hit_sound [OF _ 1 2]) simp
  with 1 2 3 show ?thesis by blast
qed

text \<open>
  least recently used entries go first. An entry inserted into a cache survives any run
  of lookups and insertions that touches fewer than \<open>capacity\<close> other keys: the next lookup
  within the time to live returns it.
\<close>

theorem lru_retention:
  assumes "lru_inv c" and "put c t0 k v = Some c1"
    and "list_all client_op ops" and "k \<notin> \<Union> (op_key ` set ops)"
    and "card (\<Union> (op_key ` set ops)) < lc_capacity c"
    and "cache_run c1 ops = Some (rs, c2)"
    and "\<not> expired (lc_ttl c) now t0"
  shows "\<exists>c3. get c2 now k = Some (Some v, c3)"
proof -
  let ?e = "\<lparr>en_key = k, en_value = v, en_insertedAt = t0\<rparr>"
  have c1: "lru_inv c1" "same_limits c c1" "recency c1 = spec_put (lc_capacity c) t0 k v (recency c)"
    using put_refines [OF assms(1), of t0 k v] assms(2) by auto
  obtain n where "lc_capacity c = Suc n" using assms(5) by (cases "lc_capacity c") auto
  then have "ahead {} ?e (recency c1)"
    unfolding ahead_def c1(3) spec_put_def
    by (intro exI [of _ "[]"] exI [of _ "take n (others k (recency c))"]) simp
  moreover have c2: "lru_inv c2" "same_limits c1 c2"
    "recency c2 = snd (spec_run (lc_capacity c) (lc_ttl c) (recency c1) ops)"
    using cache_run_refines [OF c1(1), of ops] assms(6) c1(2) by (auto simp: same_limits_def)
  ultimately obtain K where a: "ahead K ?e (recency c2)"
    using ahead_run [of "{}" ?e "recency c1" ops "lc_capacity c" "lc_ttl c"] assms(3,4,5) by auto
  have "distinct (map en_key (recency c2))"
    using c2(1) by (simp add: lru_inv_def linked_def recency_def)
  from ahead_found [OF a this] have "entry_of k (recency c2) = Some ?e" by simp
  with get_refines [OF c2(1), of now k] assms(7) c1(2) c2(2) show ?thesis
    by (auto simp: spec_get_def same_limits_def)
qed

theorem lru_retention_witness:
  "\<exists>c1 c2 c3. put (LRUCache_init 2 0) 1 ''a'' (7 :: nat) = Some c1 \<and>
     cache_run c1 [Put 2 ''b'' 8, Get 3 ''b''] = Some ([Some 8], c2) \<and>
     get c2 9 ''a'' = Some (Some 7, c3)"
proof -
  let ?ops = "[Put 2 ''b'' 8, Get 3 ''b'']"
  let ?c1 = "the (put (LRUCache_init 2 0) 1 ''a'' (7 :: nat))"
  let ?c2 = "snd (the (cache_run ?c1 ?ops))"
  have 1: "put (LRUCache_init 2 0) 1 ''a'' (7 :: nat) = Some ?c1" by code_simp
  have 2: "cache_run ?c1 ?ops = Some ([Some 8], ?c2)" by code_simp
  have "\<exists>c3. get ?c2 9 ''a'' = Some (Some 7, c3)"
    by (rule lru_retention [OF lru_init_inv 1 _ _ _ 2])
      (simp_all add: LRUCache_init_def expired_def)
  with 1 2 show ?thesis by blast
qed

end
