(* ===== verification/LoadBalancer.thy ===== *)
theory LoadBalancer
  imports CircuitBreaker
begin

text \<open>
  Backends and the two balancing strategies of include/routing/LoadBalancer.hpp. Backends are
  shared objects (\<^verbatim>\<open>shared_ptr\<close>): a balancer, the health checker and the gateway
  refer to the same ones. They live in a store, a list indexed by reference, and a balancer holds
  references. The round-robin counter is an atomic \<^verbatim>\<open>size_t\<close>, a 64-bit word that
  wraps around.
\<close>

section \<open>State and operations\<close>

record Backend =
  be_host :: string
  be_port :: int
  be_healthy :: bool
  be_activeConnections :: int
  be_circuitBreaker :: CircuitBreaker

type_synonym backends = "Backend list"

definition Backend_init :: "string \<Rightarrow> int \<Rightarrow> CircuitBreaker \<Rightarrow> Backend" where
  "Backend_init host port cb =
     \<lparr>be_host = host, be_port = port, be_healthy = True, be_activeConnections = 0,
      be_circuitBreaker = cb\<rparr>"

definition address :: "Backend \<Rightarrow> string" where
  "address b = be_host b @ '':'' @ int_to_string (be_port b)"

datatype LbStrategy = RoundRobin | LeastConnections

record LoadBalancer =
  lb_backends :: "nat list"
  lb_strategy :: LbStrategy
  lb_rrCounter :: "64 word"

definition LoadBalancer_init :: "nat list \<Rightarrow> LbStrategy \<Rightarrow> LoadBalancer" where
  "LoadBalancer_init bs strategy =
     \<lparr>lb_backends = bs, lb_strategy = strategy, lb_rrCounter = 0\<rparr>"

text \<open>
  The loop of \<open>pickRoundRobin\<close> runs at most once per backend. \<open>rr_scan\<close> takes the values the
  successive \<^verbatim>\<open>fetch_add\<close> calls return; \<open>rr_loop\<close> is the loop of a thread that
  nobody interferes with, where they are consecutive.
\<close>

fun rr_scan :: "backends \<Rightarrow> nat list \<Rightarrow> 64 word list \<Rightarrow> nat option" where
  "rr_scan st bs [] = None"
| "rr_scan st bs (c # cs) =
     (let b = bs ! (unat c mod length bs)
      in if be_healthy (st ! b) then Some b else rr_scan st bs cs)"

fun rr_loop :: "backends \<Rightarrow> nat list \<Rightarrow> nat \<Rightarrow> 64 word \<Rightarrow> nat option \<times> 64 word" where
  "rr_loop st bs 0 c = (None, c)"
| "rr_loop st bs (Suc m) c =
     (let b = bs ! (unat c mod length bs)
      in if be_healthy (st ! b) then (Some b, c + 1) else rr_loop st bs m (c + 1))"

definition pickRoundRobin :: "backends \<Rightarrow> LoadBalancer \<Rightarrow> nat option \<times> LoadBalancer" where
  "pickRoundRobin st lb =
     (case rr_loop st (lb_backends lb) (length (lb_backends lb)) (lb_rrCounter lb) of
        (r, c) \<Rightarrow> (r, lb\<lparr>lb_rrCounter := c\<rparr>))"

fun least_loop :: "backends \<Rightarrow> nat list \<Rightarrow> (nat \<times> int) option \<Rightarrow> nat option" where
  "least_loop st [] best = map_option fst best"
| "least_loop st (b # bs) best =
     (if \<not> be_healthy (st ! b) then least_loop st bs best
      else
        (let conns = be_activeConnections (st ! b)
         in case best of
              None \<Rightarrow> least_loop st bs (Some (b, conns))
            | Some (b', bestConns) \<Rightarrow>
                if conns < bestConns then least_loop st bs (Some (b, conns))
                else least_loop st bs best))"

definition pickLeastConnections :: "backends \<Rightarrow> LoadBalancer \<Rightarrow> nat option" where
  "pickLeastConnections st lb = least_loop st (lb_backends lb) None"

definition pick :: "backends \<Rightarrow> LoadBalancer \<Rightarrow> nat option \<times> LoadBalancer" where
  "pick st lb =
     (if lb_backends lb = [] then (None, lb)
      else case lb_strategy lb of
             RoundRobin \<Rightarrow> pickRoundRobin st lb
           | LeastConnections \<Rightarrow> (pickLeastConnections st lb, lb))"

section \<open>Round robin\<close>

definition tickets :: "64 word \<Rightarrow> nat \<Rightarrow> 64 word list" where
  "tickets c m = map (\<lambda>i. c + of_nat i) [0..<m]"

lemma tickets_Suc: "tickets c (Suc m) = c # tickets (c + 1) m"
  by (simp add: tickets_def upt_conv_Cons map_Suc_upt [symmetric] add.assoc del: upt_Suc)

lemma rr_loop_scan: "fst (rr_loop st bs m c) = rr_scan st bs (tickets c m)"
  by (induction st bs m c rule: rr_loop.induct) (simp add: tickets_def, simp add: tickets_Suc Let_def)

lemma rr_scan_SomeD:
  "rr_scan st bs cs = Some b \<Longrightarrow> bs \<noteq> [] \<Longrightarrow> b \<in> set bs \<and> be_healthy (st ! b)"
  by (induction cs) (auto simp: Let_def split: if_splits)

lemma rr_scan_None:
  "rr_scan st bs cs = None \<longleftrightarrow> (\<forall>c \<in> set cs. \<not> be_healthy (st ! (bs ! (unat c mod length bs))))"
  by (induction cs) (auto simp: Let_def)

text \<open>
  A scan without interference visits every backend, provided the counter does not wrap within it
  or the wrap does not disturb the residues.
\<close>

definition no_skip :: "64 word \<Rightarrow> nat \<Rightarrow> nat \<Rightarrow> bool" where
  "no_skip c n k \<longleftrightarrow> unat c + k * n \<le> 2 ^ 64 \<or> n dvd 2 ^ 64"

lemma unat_ticket:
  assumes "no_skip c n 1" and "i < n"
  shows "unat (c + of_nat i) mod n = (unat c + i) mod n"
proof -
  have u: "unat (c + of_nat i) = (unat c + i) mod 2 ^ 64"
    by (simp add: unat_word_ariths unat_of_nat mod_simps)
  from assms(1) consider "unat c + n \<le> 2 ^ 64" | "n dvd 2 ^ 64" by (auto simp: no_skip_def)
  then show ?thesis
  proof cases
    case 1
    then have "unat c + i < 2 ^ 64" using assms(2) by linarith
    then show ?thesis unfolding u by (simp only: mod_less)
  next
    case 2
    then show ?thesis unfolding u by (rule mod_mod_cancel)
  qed
qed

lemma residues_cover:
  assumes "j < (n :: nat)" shows "\<exists>i < n. (c + i) mod n = j"
proof -
  let ?i = "(j + (n - c mod n)) mod n"
  have "(c + ?i) mod n = (c mod n + (j + (n - c mod n))) mod n" by (simp add: mod_simps)
  also have "c mod n + (j + (n - c mod n)) = j + n"
    using mod_less_divisor [of n c] assms by linarith
  finally show ?thesis using assms by (intro exI [of _ ?i]) simp
qed

lemma rr_scan_complete:
  assumes "no_skip c (length bs) 1" and "b \<in> set bs" and "be_healthy (st ! b)"
  shows "rr_scan st bs (tickets c (length bs)) \<noteq> None"
proof -
  obtain j where j: "j < length bs" "bs ! j = b" using assms(2) by (auto simp: in_set_conv_nth)
  obtain i where i: "i < length bs" "(unat c + i) mod length bs = j"
    using residues_cover [OF j(1)] by blast
  then have "unat (c + of_nat i) mod length bs = j" using unat_ticket [OF assms(1)] by simp
  then show ?thesis
    using i(1) j(2) assms(3) by (auto simp: rr_scan_None tickets_def)
qed

lemma rr_loop_counter: "\<exists>i \<le> m. snd (rr_loop st bs m c) = c + of_nat i"
proof (induction st bs m c rule: rr_loop.induct)
  case (2 st bs m c)
  let ?b = "bs ! (unat c mod length bs)"
  show ?case
  proof (cases "be_healthy (st ! ?b)")
    case True
    then show ?thesis by (intro exI [of _ 1]) (simp add: Let_def)
  next
    case False
    from 2 [OF refl False] obtain i where "i \<le> m" "snd (rr_loop st bs m (c + 1)) = c + 1 + of_nat i"
      by blast
    with False show ?thesis by (intro exI [of _ "Suc i"]) (simp add: Let_def)
  qed
qed simp

lemma no_skip_weaken: "no_skip c n (Suc k) \<Longrightarrow> no_skip c n 1"
  by (auto simp: no_skip_def)

lemma no_skip_advance:
  assumes "no_skip c n (Suc k)" and "i \<le> n" shows "no_skip (c + of_nat i) n k"
proof -
  have "unat (c + of_nat i) \<le> unat c + i"
    by (simp add: unat_word_ariths unat_of_nat mod_simps)
  with assms show ?thesis by (auto simp: no_skip_def)
qed

section \<open>Least connections\<close>

definition healthy_in :: "backends \<Rightarrow> nat list \<Rightarrow> nat list" where
  "healthy_in st bs = filter (\<lambda>b. be_healthy (st ! b)) bs"

lemma healthy_in_Cons [simp]:
  "healthy_in st (b # bs) = (if be_healthy (st ! b) then b # healthy_in st bs else healthy_in st bs)"
  by (simp add: healthy_in_def)

lemma least_loop_spec:
  "(case best of None \<Rightarrow> True | Some (b, c) \<Rightarrow> c = be_activeConnections (st ! b) \<and> be_healthy (st ! b)) \<Longrightarrow>
   (case least_loop st bs best of
      None \<Rightarrow> best = None \<and> healthy_in st bs = []
    | Some b \<Rightarrow>
        b \<in> set (healthy_in st bs) \<union> fst ` set_option best \<and>
        (\<forall>b' \<in> set (healthy_in st bs) \<union> fst ` set_option best.
           be_activeConnections (st ! b) \<le> be_activeConnections (st ! b')))"
proof (induction st bs best rule: least_loop.induct)
  case (1 st best)
  then show ?case by (cases best) (auto simp: healthy_in_def)
next
  case (2 st b bs best)
  show ?case
  proof (cases "be_healthy (st ! b)")
    case False
    then show ?thesis using 2(1) [OF _ 2(5)] by (simp split: option.splits)
  next
    case h: True
    show ?thesis
    proof (cases best)
      case None
      then show ?thesis using 2(2) [OF _ refl None] h
        by (auto simp: Let_def split: option.splits)
    next
      case (Some p)
      obtain b' c' where p: "p = (b', c')" by fastforce
      show ?thesis
      proof (cases "be_activeConnections (st ! b) < c'")
        case True
        then show ?thesis using 2(3) [OF _ refl Some p [symmetric]] 2(5) h Some p
          by (auto simp: Let_def split: option.splits)
      next
        case False
        then show ?thesis using 2(4) [OF _ refl Some p [symmetric]] 2(5) h Some p
          by (auto simp: Let_def split: option.splits)
      qed
    qed
  qed
qed

lemmas least_spec = least_loop_spec [where best = None, simplified]

section \<open>The contract of a balancer\<close>

primrec picks :: "('st \<Rightarrow> 's \<Rightarrow> 'b option \<times> 's) \<Rightarrow> 's \<Rightarrow> 'st list \<Rightarrow> 'b option list" where
  "picks p s [] = []"
| "picks p s (st # sts) = (case p st s of (r, s') \<Rightarrow> r # picks p s' sts)"

text \<open>
  What the gateway needs of a balancer: it picks a member that is healthy now, it gives up only
  when no member is healthy, and it keeps its members. \<open>budget k s\<close> says that the next \<open>k\<close>
  picks are covered.
\<close>

locale balancer =
  fixes select :: "'st \<Rightarrow> 's \<Rightarrow> 'b option \<times> 's"
    and members :: "'s \<Rightarrow> 'b set"
    and healthy :: "'st \<Rightarrow> 'b \<Rightarrow> bool"
    and budget :: "nat \<Rightarrow> 's \<Rightarrow> bool"
  assumes sound: "select st s = (Some b, s') \<Longrightarrow> b \<in> members s \<and> healthy st b"
    and complete: "budget (Suc k) s \<Longrightarrow> select st s = (None, s') \<Longrightarrow> b \<in> members s \<Longrightarrow> \<not> healthy st b"
    and keeps: "select st s = (r, s') \<Longrightarrow> members s' = members s"
    and spends: "budget (Suc k) s \<Longrightarrow> select st s = (r, s') \<Longrightarrow> budget k s'"
begin

lemma picks_correct:
  "budget (length sts) s \<Longrightarrow>
   list_all2 (\<lambda>st r. case r of None \<Rightarrow> (\<forall>b \<in> members s. \<not> healthy st b)
                    | Some b \<Rightarrow> b \<in> members s \<and> healthy st b) sts (picks select s sts)"
proof (induction sts arbitrary: s)
  case (Cons st sts)
  obtain r s' where c: "select st s = (r, s')" by fastforce
  have b: "budget (length sts) s'" using Cons.prems spends [OF _ c] by simp
  have "list_all2 (\<lambda>st r. case r of None \<Rightarrow> (\<forall>b \<in> members s. \<not> healthy st b)
      | Some b \<Rightarrow> b \<in> members s \<and> healthy st b) sts (picks select s' sts)"
    using Cons.IH [OF b] unfolding keeps [OF c] .
  then show ?case
    using c sound [of st s _ s'] complete [of "length sts" s st s'] Cons.prems
    by (auto split: option.split)
qed simp

end

definition lb_budget :: "nat \<Rightarrow> LoadBalancer \<Rightarrow> bool" where
  "lb_budget k lb \<longleftrightarrow>
     lb_strategy lb = LeastConnections \<or> no_skip (lb_rrCounter lb) (length (lb_backends lb)) k"

lemma pick_sound:
  assumes "pick st lb = (Some b, lb')" shows "b \<in> set (lb_backends lb) \<and> be_healthy (st ! b)"
proof (cases "lb_strategy lb")
  case RoundRobin
  with assms have ne: "lb_backends lb \<noteq> []"
    and "fst (rr_loop st (lb_backends lb) (length (lb_backends lb)) (lb_rrCounter lb)) = Some b"
    by (auto simp: pick_def pickRoundRobin_def split: if_splits prod.splits)
  then show ?thesis using rr_scan_SomeD [OF _ ne] by (simp add: rr_loop_scan)
next
  case LeastConnections
  with assms show ?thesis using least_spec [of st "lb_backends lb"]
    by (auto simp: pick_def pickLeastConnections_def healthy_in_def split: if_splits)
qed

lemma pick_complete:
  assumes "lb_budget (Suc k) lb" and "pick st lb = (None, lb')" and "b \<in> set (lb_backends lb)"
  shows "\<not> be_healthy (st ! b)"
proof (cases "lb_strategy lb")
  case RoundRobin
  with assms have "fst (rr_loop st (lb_backends lb) (length (lb_backends lb)) (lb_rrCounter lb)) = None"
    by (auto simp: pick_def pickRoundRobin_def split: if_splits prod.splits)
  moreover have n: "no_skip (lb_rrCounter lb) (length (lb_backends lb)) 1"
    using assms(1) RoundRobin unfolding lb_budget_def
    by (metis LbStrategy.distinct(1) no_skip_weaken)
  ultimately show ?thesis using rr_scan_complete [OF n assms(3), of st] by (auto simp: rr_loop_scan)
next
  case LeastConnections
  with assms show ?thesis using least_spec [of st "lb_backends lb"]
    by (auto simp: pick_def pickLeastConnections_def healthy_in_def filter_empty_conv split: if_splits)
qed

lemma pick_keeps:
  "pick st lb = (r, lb') \<Longrightarrow> lb_backends lb' = lb_backends lb \<and> lb_strategy lb' = lb_strategy lb"
  by (auto simp: pick_def pickRoundRobin_def split: if_splits prod.splits LbStrategy.splits)

lemma pick_spends:
  assumes "lb_budget (Suc k) lb" and "pick st lb = (r, lb')" shows "lb_budget k lb'"
proof (cases "lb_strategy lb = RoundRobin \<and> lb_backends lb \<noteq> []")
  case True
  let ?bs = "lb_backends lb"
  obtain i where i: "i \<le> length ?bs"
    "snd (rr_loop st ?bs (length ?bs) (lb_rrCounter lb)) = lb_rrCounter lb + of_nat i"
    using rr_loop_counter by blast
  with True assms(2) have "lb_rrCounter lb' = lb_rrCounter lb + of_nat i"
    by (auto simp: pick_def pickRoundRobin_def split: prod.splits)
  with pick_keeps [OF assms(2)] assms(1) True i(1) show ?thesis
    by (simp add: lb_budget_def no_skip_advance)
next
  case False
  then have "lb' = lb"
    using assms(2) by (cases "lb_strategy lb") (auto simp: pick_def split: if_splits)
  with assms(1) show ?thesis by (auto simp: lb_budget_def no_skip_def)
qed

interpretation lb: balancer pick "\<lambda>lb. set (lb_backends lb)" "\<lambda>st b. be_healthy (st ! b)" lb_budget
  by unfold_locales (auto dest: pick_sound pick_complete pick_keeps pick_spends)

lemma lb_init_backends [simp]:
  "lb_backends (LoadBalancer_init bs strategy) = bs"
  "lb_strategy (LoadBalancer_init bs strategy) = strategy"
  "lb_rrCounter (LoadBalancer_init bs strategy) = 0"
  by (simp_all add: LoadBalancer_init_def)

lemma pick_all_healthy:
  assumes "lb_strategy lb = RoundRobin" and "lb_backends lb \<noteq> []"
    and "\<forall>b \<in> set (lb_backends lb). be_healthy (st ! b)"
  shows "pick st lb = (Some (lb_backends lb ! (unat (lb_rrCounter lb) mod length (lb_backends lb))),
    lb\<lparr>lb_rrCounter := lb_rrCounter lb + 1\<rparr>)"
proof -
  obtain m where "length (lb_backends lb) = Suc m" using assms(2) by (cases "lb_backends lb") auto
  with assms show ?thesis by (simp add: pick_def pickRoundRobin_def Let_def)
qed

lemma picks_all_healthy:
  "lb_strategy lb = RoundRobin \<Longrightarrow> lb_backends lb \<noteq> [] \<Longrightarrow> lb_rrCounter lb = of_nat i \<Longrightarrow>
   i + length sts \<le> 2 ^ 64 \<Longrightarrow> (\<forall>st \<in> set sts. \<forall>b \<in> set (lb_backends lb). be_healthy (st ! b)) \<Longrightarrow>
   picks pick lb sts =
     map (\<lambda>k. Some (lb_backends lb ! (k mod length (lb_backends lb)))) [i..<i + length sts]"
proof (induction sts arbitrary: lb i)
  case (Cons st sts)
  have "unat (of_nat i :: 64 word) = i"
    using Cons.prems(4) by (simp add: unat_of_nat)
  with Cons.IH [of "lb\<lparr>lb_rrCounter := lb_rrCounter lb + 1\<rparr>" "Suc i"] Cons.prems
  show ?case by (simp add: pick_all_healthy upt_conv_Cons del: upt_Suc)
qed simp

lemma map_mod_cycles:
  "bs \<noteq> [] \<Longrightarrow> map (\<lambda>k. f (bs ! (k mod length bs))) [0..<m * length bs] = concat (replicate m (map f bs))"
proof (induction m)
  case (Suc m)
  let ?n = "length bs"
  have "[0..<Suc m * ?n] = [0..<m * ?n] @ map (\<lambda>k. k + m * ?n) [0..<?n]"
    using upt_add_eq_append [of 0 "m * ?n" ?n] by (simp add: map_add_upt add.commute [of ?n])
  moreover have "map (\<lambda>k. f (bs ! ((k + m * ?n) mod ?n))) [0..<?n] = map f bs"
    by (rule nth_equalityI) auto
  moreover have "concat (replicate (Suc m) (map f bs)) = concat (replicate m (map f bs)) @ map f bs"
    by (induction m) auto
  ultimately show ?case using Suc by (simp add: o_def del: upt_Suc replicate.simps)
qed simp

section \<open>Properties\<close>

text \<open>
  C25: picks. Whatever happens to the health of the backends between two picks, each pick
  of a balancer, with either strategy, returns a member that is healthy at that moment, and gives
  up only when no member is. The premise bounds the number of picks by the range of the 64-bit
  counter (any number when the group size is a power of two).
\<close>

theorem lb_picks_healthy:
  assumes "length sts * length bs \<le> 2 ^ 64"
  shows "list_all2 (\<lambda>st r. case r of None \<Rightarrow> (\<forall>b \<in> set bs. \<not> be_healthy (st ! b))
                            | Some b \<Rightarrow> b \<in> set bs \<and> be_healthy (st ! b))
    sts (picks pick (LoadBalancer_init bs strategy) sts)"
proof -
  have "lb_budget (length sts) (LoadBalancer_init bs strategy)"
    using assms by (simp add: lb_budget_def no_skip_def LoadBalancer_init_def)
  from lb.picks_correct [OF this] show ?thesis by (simp only: lb_init_backends)
qed

theorem lb_picks_healthy_witness:
  "let up = Backend_init ''h'' 1 (CircuitBreaker_init 5 10 1); down = up\<lparr>be_healthy := False\<rparr>
   in picks pick (LoadBalancer_init [0, 1] RoundRobin) [[down, up], [up, down], [down, down]]
        = [Some 1, Some 0, None] \<and>
      list_all (\<lambda>b. \<not> be_healthy ([down, down] ! b)) [0, 1]"
proof -
  let ?up = "Backend_init ''h'' 1 (CircuitBreaker_init 5 10 1)"
  let ?down = "?up\<lparr>be_healthy := False\<rparr>"
  have "picks pick (LoadBalancer_init [0, 1] RoundRobin)
      [[?down, ?up], [?up, ?down], [?down, ?down]] = [Some 1, Some 0, None]" by code_simp
  with lb_picks_healthy [of "[[?down, ?up], [?up, ?down], [?down, ?down]]" "[0, 1]" RoundRobin]
  show ?thesis by (simp add: Let_def)
qed

text \<open>
  round robin is exactly fair. While every backend is healthy, a new round-robin
  balancer hands out its backends in order, over and over, for as long as the counter does not
  wrap.
\<close>

theorem lb_round_robin_fair:
  assumes "bs \<noteq> []" and "length sts = m * length bs" and "m * length bs \<le> 2 ^ 64"
    and "\<forall>st \<in> set sts. \<forall>b \<in> set bs. be_healthy (st ! b)"
  shows "picks pick (LoadBalancer_init bs RoundRobin) sts = concat (replicate m (map Some bs))"
  using picks_all_healthy [of "LoadBalancer_init bs RoundRobin" 0 sts] map_mod_cycles [of bs Some m] assms
  by simp

theorem lb_round_robin_fair_witness:
  "let up = Backend_init ''h'' 1 (CircuitBreaker_init 5 10 1)
   in picks pick (LoadBalancer_init [1, 0] RoundRobin) [[up, up], [up, up], [up, up], [up, up]]
        = [Some 1, Some 0, Some 1, Some 0]"
proof -
  let ?up = "Backend_init ''h'' 1 (CircuitBreaker_init 5 10 1)"
  have "picks pick (LoadBalancer_init [1, 0] RoundRobin) [[?up, ?up], [?up, ?up], [?up, ?up], [?up, ?up]]
    = concat (replicate 2 (map Some [1, 0]))"
    by (rule lb_round_robin_fair) (simp_all add: Backend_init_def)
  also have "\<dots> = [Some 1, Some 0, Some 1, Some 0]" by code_simp
  finally show ?thesis by (simp add: Let_def)
qed

text \<open>
  least connections picks, among the healthy backends of the group, one with the
  fewest requests in flight, and picks one whenever there is one.
\<close>

theorem lb_least_connections:
  "case fst (pick st (LoadBalancer_init bs LeastConnections)) of
     None \<Rightarrow> healthy_in st bs = []
   | Some b \<Rightarrow> b \<in> set (healthy_in st bs) \<and>
       be_activeConnections (st ! b) = Min ((\<lambda>b. be_activeConnections (st ! b)) ` set (healthy_in st bs))"
proof (cases "bs = []")
  case False
  with least_spec [of st bs] show ?thesis
    by (auto simp: pick_def pickLeastConnections_def intro!: Min_eqI [symmetric] split: option.splits)
qed (simp add: pick_def healthy_in_def)


end
