(* ===== verification/Router.thy ===== *)
theory Router
  imports Prelude "HOL-Library.Multiset"
begin

text \<open>
  The longest-prefix router of include/routing/Router.hpp. A route refers to its load balancer
  (a \<^verbatim>\<open>shared_ptr\<close>) by a reference into the gateway's store of balancers.
\<close>

section \<open>State and operations\<close>

record Route =
  rt_pathPrefix :: string
  rt_lb :: nat
  rt_cacheable :: bool

type_synonym Router = "Route list"

text \<open>
  \<^verbatim>\<open>std::sort\<close> may order routes with prefixes of the same length in any way; the model
  keeps them in the order they were added, and \<open>router_sort_irrelevant\<close> shows that the order
  among them does not matter.
\<close>

definition addRoute :: "Router \<Rightarrow> Route \<Rightarrow> Router" where
  "addRoute rs r = sort_key (\<lambda>r. - int (length (rt_pathPrefix r))) (rs @ [r])"

definition route_matches :: "string \<Rightarrow> Route \<Rightarrow> bool" where
  "route_matches path r =
     (let p = rt_pathPrefix r;
          exact = (path = p);
          nested = (p = ''/'' \<or>
                    (length path > length p \<and> take (length p) path = p \<and>
                     path ! length p = CHR ''/''))
      in exact \<or> nested)"

definition match :: "Router \<Rightarrow> string \<Rightarrow> Route option" where
  "match rs path = find (route_matches path) rs"

definition build :: "Route list \<Rightarrow> Router" where
  "build rs = fold (\<lambda>r rs. addRoute rs r) rs []"

section \<open>Segments\<close>

text \<open>
  The reference: a path is the list of its segments, and a route covers the paths that begin with
  its segments. The route \<^verbatim>\<open>/\<close> is the root, with no segment of its own.
\<close>

fun segments :: "string \<Rightarrow> string list" where
  "segments [] = [[]]"
| "segments (c # cs) =
     (if c = CHR ''/'' then [] # segments cs
      else (case segments cs of [] \<Rightarrow> [[c]] | s # ss \<Rightarrow> (c # s) # ss))"

fun join :: "string list \<Rightarrow> string" where
  "join [] = []"
| "join [s] = s"
| "join (s # ss) = s @ CHR ''/'' # join ss"

definition route_segments :: "string \<Rightarrow> string list" where
  "route_segments p = (if p = ''/'' then [[]] else segments p)"

lemma segments_ne [simp]: "segments s \<noteq> []"
  by (induction s) (auto split: list.splits)

lemma segments_slash: "segments (p @ CHR ''/'' # q) = segments p @ segments q"
proof (induction p)
  case (Cons c p)
  obtain s ss where "segments p = s # ss" by (metis segments_ne neq_Nil_conv)
  with Cons show ?case by simp
qed simp

lemma join_Cons: "ss \<noteq> [] \<Longrightarrow> join (s # ss) = s @ CHR ''/'' # join ss"
  by (cases ss) simp_all

lemma join_head: "join ((c # s) # ss) = c # join (s # ss)"
  by (cases ss) simp_all

lemma join_segments: "join (segments s) = s"
proof (induction s)
  case (Cons c cs)
  obtain s ss where s: "segments cs = s # ss" by (metis segments_ne neq_Nil_conv)
  with Cons show ?case by (auto simp: join_head join_Cons)
qed simp

lemma join_append: "xs \<noteq> [] \<Longrightarrow> ys \<noteq> [] \<Longrightarrow> join (xs @ ys) = join xs @ CHR ''/'' # join ys"
proof (induction xs)
  case (Cons s xs)
  then show ?case by (cases "xs = []") (simp_all add: join_Cons)
qed simp

lemma covers_iff: "prefix (segments p) (segments path) \<longleftrightarrow> path = p \<or> (\<exists>q. path = p @ CHR ''/'' # q)"
proof
  assume "prefix (segments p) (segments path)"
  then obtain zs where z: "segments path = segments p @ zs" by (auto simp: prefix_def)
  show "path = p \<or> (\<exists>q. path = p @ CHR ''/'' # q)"
  proof (cases "zs = []")
    case True
    with z have "join (segments path) = join (segments p)" by simp
    then show ?thesis unfolding join_segments by blast
  next
    case False
    with z have "join (segments path) = join (segments p) @ CHR ''/'' # join zs"
      by (simp add: join_append)
    then show ?thesis unfolding join_segments by blast
  qed
qed (auto simp: segments_slash)

lemma nested_iff:
  "length path > length p \<and> take (length p) path = p \<and> path ! length p = CHR ''/'' \<longleftrightarrow>
   (\<exists>q. path = p @ CHR ''/'' # q)"
proof
  assume a: "length path > length p \<and> take (length p) path = p \<and> path ! length p = CHR ''/''"
  then have "path = take (length p) path @ path ! length p # drop (Suc (length p)) path"
    by (metis id_take_nth_drop)
  with a show "\<exists>q. path = p @ CHR ''/'' # q" by metis
qed auto

lemma route_matches_segments:
  assumes "prefix ''/'' path"
  shows "route_matches path r \<longleftrightarrow> prefix (route_segments (rt_pathPrefix r)) (segments path)"
proof (cases "rt_pathPrefix r = ''/''")
  case True
  with assms show ?thesis by (auto simp: route_matches_def route_segments_def prefix_def)
next
  case False
  then have "route_matches path r \<longleftrightarrow> path = rt_pathPrefix r \<or> (\<exists>q. path = rt_pathPrefix r @ CHR ''/'' # q)"
    unfolding route_matches_def Let_def nested_iff by simp
  with False show ?thesis by (simp add: covers_iff route_segments_def)
qed

section \<open>Order\<close>

abbreviation prefix_length :: "Route \<Rightarrow> nat" where
  "prefix_length r \<equiv> length (rt_pathPrefix r)"

definition longest_first :: "Router \<Rightarrow> bool" where
  "longest_first rs \<longleftrightarrow> sorted_wrt (\<lambda>a b. prefix_length b \<le> prefix_length a) rs"

lemma addRoute_longest_first: "longest_first (addRoute rs r)"
  using sorted_sort_key [of "\<lambda>r. - int (prefix_length r)" "rs @ [r]"]
  by (simp add: longest_first_def addRoute_def sorted_map)

lemma addRoute_mset: "mset (addRoute rs r) = add_mset r (mset rs)"
  by (simp add: addRoute_def)

lemma build_mset: "mset (build rs) = mset rs"
proof -
  have "mset (fold (\<lambda>r rs. addRoute rs r) rs acc) = mset acc + mset rs" for acc
    by (induction rs arbitrary: acc) (simp_all add: addRoute_mset)
  then show ?thesis by (simp add: build_def)
qed

lemma build_set [simp]: "set (build rs) = set rs"
  using build_mset by (metis set_mset_mset)

lemma build_longest_first: "longest_first (build rs)"
proof (cases rs rule: rev_cases)
  case (snoc rs' r)
  then show ?thesis using addRoute_longest_first by (simp add: build_def)
qed (simp add: build_def longest_first_def)

lemma find_longest:
  "longest_first rs \<Longrightarrow> find P rs = Some r \<Longrightarrow>
   r \<in> set rs \<and> P r \<and> (\<forall>r' \<in> set rs. P r' \<longrightarrow> prefix_length r' \<le> prefix_length r)"
  by (induction rs) (auto simp: longest_first_def split: if_splits)

text \<open>Two rooted prefixes of the same length that match the same path are the same prefix.\<close>

lemma same_length_same_prefix:
  assumes "route_matches path r" and "route_matches path r'"
    and "prefix_length r = prefix_length r'"
    and "prefix ''/'' (rt_pathPrefix r)" and "prefix ''/'' (rt_pathPrefix r')"
  shows "rt_pathPrefix r = rt_pathPrefix r'"
proof -
  have t: "rt_pathPrefix x = ''/'' \<or> rt_pathPrefix x = take (prefix_length x) path"
    if "route_matches path x" for x
    using that by (auto simp: route_matches_def Let_def)
  have "rt_pathPrefix x = ''/''" if "prefix ''/'' (rt_pathPrefix x)" "prefix_length x = 1" for x
    using that by (auto simp: prefix_def)
  with t [OF assms(1)] t [OF assms(2)] assms(3-5) show ?thesis by fastforce
qed

section \<open>Properties\<close>

text \<open>
  C13: longest-prefix match on segments. For a router built from any list of routes and a
  path that starts with a slash, \<open>match\<close> returns a registered route whose segments begin the
  path's segments, no other registered route that does so has a longer prefix, and it returns
  nothing only when no route covers the path.
\<close>

theorem router_longest_prefix:
  assumes "prefix ''/'' path"
  shows "case match (build rs) path of
      None \<Rightarrow> \<forall>r \<in> set rs. \<not> prefix (route_segments (rt_pathPrefix r)) (segments path)
    | Some r \<Rightarrow> r \<in> set rs \<and> prefix (route_segments (rt_pathPrefix r)) (segments path) \<and>
        (\<forall>r' \<in> set rs. prefix (route_segments (rt_pathPrefix r')) (segments path) \<longrightarrow>
           prefix_length r' \<le> prefix_length r)"
  using find_longest [OF build_longest_first, of "route_matches path" rs]
  by (auto simp: match_def find_None_iff route_matches_segments [OF assms] split: option.split)

theorem router_longest_prefix_witness:
  "let users = \<lparr>rt_pathPrefix = ''/api/users'', rt_lb = 0, rt_cacheable = True\<rparr>;
       admin = \<lparr>rt_pathPrefix = ''/api/users/admin'', rt_lb = 1, rt_cacheable = False\<rparr>
   in prefix ''/'' ''/api/users/admin/7'' \<and> match (build [users, admin]) ''/api/users/admin/7'' = Some admin \<and>
      match (build [users, admin]) ''/api/usersX'' = None \<and>
      prefix (route_segments (rt_pathPrefix admin)) (segments ''/api/users/admin/7'')"
proof -
  let ?u = "\<lparr>rt_pathPrefix = ''/api/users'', rt_lb = 0, rt_cacheable = True\<rparr>"
  let ?a = "\<lparr>rt_pathPrefix = ''/api/users/admin'', rt_lb = 1, rt_cacheable = False\<rparr>"
  have p: "prefix ''/'' ''/api/users/admin/7''" by code_simp
  have m: "match (build [?u, ?a]) ''/api/users/admin/7'' = Some ?a" by code_simp
  have n: "match (build [?u, ?a]) ''/api/usersX'' = None" by code_simp
  from router_longest_prefix [OF p, of "[?u, ?a]"]
  have "prefix (route_segments (rt_pathPrefix ?a)) (segments ''/api/users/admin/7'')"
    unfolding m option.case by blast
  with p m n show ?thesis unfolding Let_def by blast
qed

text \<open>
  the unspecified part of \<^verbatim>\<open>std::sort\<close> does not matter. When the registered
  prefixes are distinct and rooted, every arrangement of the routes that is sorted by length
  matches every path to the same route.
\<close>

theorem router_sort_irrelevant:
  assumes "mset rs' = mset rs" and "longest_first rs'"
    and "distinct (map rt_pathPrefix rs)" and "\<forall>r \<in> set rs. prefix ''/'' (rt_pathPrefix r)"
  shows "match rs' path = match (build rs) path"
proof -
  have s: "set rs' = set rs" using assms(1) by (metis set_mset_mset)
  have "r = r'" if "match rs' path = Some r" "match (build rs) path = Some r'" for r r'
  proof -
    have a: "r \<in> set rs" "route_matches path r"
        "\<forall>x \<in> set rs. route_matches path x \<longrightarrow> prefix_length x \<le> prefix_length r"
      using find_longest [OF assms(2)] that(1) s by (auto simp: match_def)
    have b: "r' \<in> set rs" "route_matches path r'"
        "\<forall>x \<in> set rs. route_matches path x \<longrightarrow> prefix_length x \<le> prefix_length r'"
      using find_longest [OF build_longest_first] that(2) by (auto simp: match_def)
    from a b have "prefix_length r = prefix_length r'" by (simp add: le_antisym)
    with same_length_same_prefix [OF a(2) b(2)] a(1) b(1) assms(4)
    have "rt_pathPrefix r = rt_pathPrefix r'" by blast
    with a(1) b(1) assms(3) show ?thesis by (auto simp: distinct_map dest: inj_onD)
  qed
  moreover have "match rs' path = None \<longleftrightarrow> match (build rs) path = None"
    using s by (simp add: match_def find_None_iff)
  ultimately show ?thesis by (cases "match rs' path"; cases "match (build rs) path") auto
qed

theorem router_sort_irrelevant_witness:
  "let a = \<lparr>rt_pathPrefix = ''/a'', rt_lb = 0, rt_cacheable = True\<rparr>;
       b = \<lparr>rt_pathPrefix = ''/b'', rt_lb = 1, rt_cacheable = False\<rparr>
   in longest_first [b, a] \<and> match [b, a] ''/a/x'' = match (build [a, b]) ''/a/x''"
proof -
  let ?a = "\<lparr>rt_pathPrefix = ''/a'', rt_lb = 0, rt_cacheable = True\<rparr>"
  let ?b = "\<lparr>rt_pathPrefix = ''/b'', rt_lb = 1, rt_cacheable = False\<rparr>"
  have l: "longest_first [?b, ?a]" by (simp add: longest_first_def)
  have "match [?b, ?a] ''/a/x'' = match (build [?a, ?b]) ''/a/x''"
    by (rule router_sort_irrelevant [OF _ l]) simp_all
  with l show ?thesis by (simp add: Let_def)
qed

end
