(* ===== verification/Descriptors.thy ===== *)
theory Descriptors
  imports Prelude
begin

text \<open>
  The descriptors a process has open, and the connect sequence that the connection pool and the
  health checker share line by line (ConnectionPool.cpp and HealthChecker.cpp). What the kernel
  answers to each system call is an argument; opening and closing is recorded in the list of open
  descriptors, so that a leak or a double close is visible.
\<close>

type_synonym descs = "fd list"

definition open_fd :: "fd \<Rightarrow> descs \<Rightarrow> descs" where
  "open_fd fd os = fd # os"

definition close_fd :: "fd \<Rightarrow> descs \<Rightarrow> descs" where
  "close_fd fd os = filter (\<lambda>x. x \<noteq> fd) os"

lemma set_open_fd [simp]: "set (open_fd fd os) = insert fd (set os)"
  by (simp add: open_fd_def)

lemma set_close_fd [simp]: "set (close_fd fd os) = set os - {fd}"
  by (auto simp: close_fd_def)

lemma close_open_fd [simp]: "fd \<notin> set os \<Longrightarrow> close_fd fd (open_fd fd os) = os"
  by (auto simp: close_fd_def open_fd_def filter_id_conv)

text \<open>The kernel's answers to one attempt to connect.\<close>

datatype connect_result = Connected | InProgress | ConnectError

record dial_io =
  dl_resolved :: bool
  dl_socket :: fd
  dl_connect :: connect_result
  dl_ready :: int
  dl_soError :: int

text \<open>A descriptor that \<^verbatim>\<open>socket\<close> returns is not open before.\<close>

definition fresh_socket :: "dial_io \<Rightarrow> descs \<Rightarrow> bool" where
  "fresh_socket io os \<longleftrightarrow> dl_socket io < 0 \<or> dl_socket io \<notin> set os"

definition dial :: "dial_io \<Rightarrow> descs \<Rightarrow> fd \<times> descs" where
  "dial io os =
     (if \<not> dl_resolved io then (-1, os)
      else
        (let fd = dl_socket io
         in if fd < 0 then (-1, os)
            else
              (let os = open_fd fd os
               in case dl_connect io of
                    ConnectError \<Rightarrow> (-1, close_fd fd os)
                  | InProgress \<Rightarrow>
                      if dl_ready io \<le> 0 then (-1, close_fd fd os)
                      else if dl_soError io \<noteq> 0 then (-1, close_fd fd os)
                      else (fd, os)
                  | Connected \<Rightarrow> (fd, os))))"

lemma dial_cases:
  assumes "fresh_socket io os"
  shows "dial io os = (-1, os) \<or>
    (0 \<le> dl_socket io \<and> dl_socket io \<notin> set os \<and> dial io os = (dl_socket io, open_fd (dl_socket io) os))"
  using assms by (auto simp: dial_def Let_def fresh_socket_def split: connect_result.splits)

end
