(* ===== verification/ConnectionPool.thy ===== *)
theory ConnectionPool
  imports Descriptors "HOL-Library.Multiset"
begin

text \<open>
  The pool of idle backend connections of include/network/ConnectionPool.hpp and
  src/network/ConnectionPool.cpp: a map from \<^verbatim>\<open>host:port\<close> to a deque of idle
  descriptors.
\<close>

section \<open>State and operations\<close>

record ConnectionPool =
  cp_maxIdlePerBackend :: nat
  cp_connectTimeout :: int
  cp_idle :: "(string, fd list) umap"

definition ConnectionPool_init :: "nat \<Rightarrow> int \<Rightarrow> ConnectionPool" where
  "ConnectionPool_init maxIdlePerBackend connectTimeout =
     \<lparr>cp_maxIdlePerBackend = maxIdlePerBackend, cp_connectTimeout = connectTimeout, cp_idle = []\<rparr>"

definition key :: "string \<Rightarrow> int \<Rightarrow> string" where
  "key host port = host @ '':'' @ int_to_string port"

definition dialNew :: "dial_io \<Rightarrow> descs \<Rightarrow> fd \<times> descs" where
  "dialNew io os = dial io os"

definition acquire ::
  "dial_io \<Rightarrow> string \<Rightarrow> int \<Rightarrow> ConnectionPool \<Rightarrow> descs \<Rightarrow> fd \<times> ConnectionPool \<times> descs" where
  "acquire io host port p os =
     (let k = key host port
      in case map_of (cp_idle p) k of
           Some (fd # dq) \<Rightarrow> (fd, p\<lparr>cp_idle := AList.update k dq (cp_idle p)\<rparr>, os)
         | _ \<Rightarrow> (case dialNew io os of (fd, os') \<Rightarrow> (fd, p, os')))"

definition release ::
  "string \<Rightarrow> int \<Rightarrow> fd \<Rightarrow> ConnectionPool \<Rightarrow> descs \<Rightarrow> ConnectionPool \<times> descs" where
  "release host port fd p os =
     (let k = key host port;
          dq = (case map_of (cp_idle p) k of None \<Rightarrow> [] | Some dq \<Rightarrow> dq)
      in if length dq \<ge> cp_maxIdlePerBackend p
         then (p\<lparr>cp_idle := AList.update k dq (cp_idle p)\<rparr>, close_fd fd os)
         else (p\<lparr>cp_idle := AList.update k (dq @ [fd]) (cp_idle p)\<rparr>, os))"

definition discard :: "fd \<Rightarrow> descs \<Rightarrow> descs" where
  "discard fd os = (if fd \<ge> 0 then close_fd fd os else os)"

definition idleCount :: "string \<Rightarrow> int \<Rightarrow> ConnectionPool \<Rightarrow> nat" where
  "idleCount host port p =
     (case map_of (cp_idle p) (key host port) of None \<Rightarrow> 0 | Some dq \<Rightarrow> length dq)"

definition closeAll :: "ConnectionPool \<Rightarrow> descs \<Rightarrow> ConnectionPool \<times> descs" where
  "closeAll p os =
     (p\<lparr>cp_idle := map (\<lambda>(k, dq). (k, [])) (cp_idle p)\<rparr>,
      fold (\<lambda>(k, dq) os. fold close_fd dq os) (cp_idle p) os)"

section \<open>Ownership\<close>

text \<open>
  The pool owns its idle descriptors; the descriptors outside are everybody else's. A pool is
  sound when it owns only open descriptors, owns none twice, and keeps no more per backend than
  configured.
\<close>

definition owned :: "ConnectionPool \<Rightarrow> fd list" where
  "owned p = concat (map snd (cp_idle p))"

definition outside :: "ConnectionPool \<Rightarrow> descs \<Rightarrow> fd set" where
  "outside p os = set os - set (owned p)"

definition pool_ok :: "ConnectionPool \<Rightarrow> descs \<Rightarrow> bool" where
  "pool_ok p os \<longleftrightarrow>
     distinct (map fst (cp_idle p)) \<and> distinct (owned p) \<and> set (owned p) \<subseteq> set os \<and>
     (\<forall>fd \<in> set (owned p). 0 \<le> fd) \<and>
     (\<forall>(k, dq) \<in> set (cp_idle p). length dq \<le> cp_maxIdlePerBackend p)"

lemma pool_ok_init: "pool_ok (ConnectionPool_init n t) os"
  by (simp add: pool_ok_def ConnectionPool_init_def owned_def)

lemma mset_owned_update:
  "distinct (map fst al) \<Longrightarrow>
   mset (concat (map snd (AList.update k dq al))) + mset (case map_of al k of None \<Rightarrow> [] | Some d \<Rightarrow> d) =
   mset (concat (map snd al)) + mset dq"
  by (induction al) (auto simp: ac_simps split: option.splits)

lemma set_update_subset: "x \<in> set (AList.update k v al) \<Longrightarrow> x = (k, v) \<or> x \<in> set al"
  by (induction al) (auto split: if_splits)

lemma pool_ok_update:
  assumes "pool_ok p os"
    and "mset (concat (map snd (AList.update k dq (cp_idle p)))) = mset xs"
    and "distinct xs" and "set xs \<subseteq> set os'" and "\<forall>fd \<in> set xs. 0 \<le> fd"
    and "length dq \<le> cp_maxIdlePerBackend p"
  shows "pool_ok (p\<lparr>cp_idle := AList.update k dq (cp_idle p)\<rparr>) os' \<and>
    set (owned (p\<lparr>cp_idle := AList.update k dq (cp_idle p)\<rparr>)) = set xs"
proof -
  have "set (concat (map snd (AList.update k dq (cp_idle p)))) = set xs"
    using assms(2) by (metis set_mset_mset)
  moreover have "distinct (concat (map snd (AList.update k dq (cp_idle p))))"
    using assms(2,3) mset_eq_imp_distinct_iff by blast
  ultimately show ?thesis
    using assms by (auto simp: pool_ok_def owned_def distinct_keys_update dest!: set_update_subset)
qed

lemma acquire_owner:
  assumes "pool_ok p os" and "fresh_socket io os" and "acquire io host port p os = (fd, p', os')"
  shows "pool_ok p' os'" and "cp_maxIdlePerBackend p' = cp_maxIdlePerBackend p"
    and "0 \<le> fd \<Longrightarrow> fd \<notin> outside p os \<and> outside p' os' = insert fd (outside p os)"
    and "fd < 0 \<Longrightarrow> outside p' os' = outside p os"
proof -
  let ?k = "key host port"
  have "pool_ok p' os' \<and> cp_maxIdlePerBackend p' = cp_maxIdlePerBackend p \<and>
    (if 0 \<le> fd then fd \<notin> outside p os \<and> outside p' os' = insert fd (outside p os)
     else outside p' os' = outside p os)"
  proof (cases "\<exists>dq. map_of (cp_idle p) ?k = Some (fd # dq) \<and> os' = os \<and>
      p' = p\<lparr>cp_idle := AList.update ?k dq (cp_idle p)\<rparr>")
    case True
    then obtain dq where dq: "map_of (cp_idle p) ?k = Some (fd # dq)" "os' = os"
      "p' = p\<lparr>cp_idle := AList.update ?k dq (cp_idle p)\<rparr>" by blast
    let ?c = "concat (map snd (AList.update ?k dq (cp_idle p)))"
    have m: "mset (owned p) = add_mset fd (mset ?c)"
      using mset_owned_update [of "cp_idle p" ?k dq] dq(1) assms(1)
      by (simp add: pool_ok_def owned_def)
    then have "set (owned p) = insert fd (set ?c)" by (metis set_mset_mset set_mset_add_mset_insert)
    moreover have "distinct (fd # ?c)"
      using m assms(1) mset_eq_imp_distinct_iff [of "owned p" "fd # ?c"] by (simp add: pool_ok_def)
    moreover have "length dq \<le> cp_maxIdlePerBackend p"
      using dq(1) assms(1) by (auto simp: pool_ok_def dest!: map_of_SomeD)
    moreover have "set (owned p') = set ?c" by (simp add: dq(3) owned_def)
    ultimately show ?thesis
      using assms(1) pool_ok_update [OF assms(1), of ?k dq ?c os] dq
      by (auto simp: pool_ok_def outside_def)
  next
    case False
    with assms(3) have "p' = p" "dialNew io os = (fd, os')"
      by (auto simp: acquire_def Let_def split: option.splits list.splits prod.splits)
    with dial_cases [OF assms(2)] assms(1) show ?thesis
      by (auto simp: dialNew_def pool_ok_def outside_def)
  qed
  then show "pool_ok p' os'" "cp_maxIdlePerBackend p' = cp_maxIdlePerBackend p"
    "0 \<le> fd \<Longrightarrow> fd \<notin> outside p os \<and> outside p' os' = insert fd (outside p os)"
    "fd < 0 \<Longrightarrow> outside p' os' = outside p os"
    by simp_all
qed

lemma release_owner:
  assumes "pool_ok p os" and "0 \<le> fd" and "fd \<in> outside p os"
    and "release host port fd p os = (p', os')"
  shows "pool_ok p' os'" and "cp_maxIdlePerBackend p' = cp_maxIdlePerBackend p"
    and "outside p' os' = outside p os - {fd}"
proof -
  let ?k = "key host port"
  define dq where "dq = (case map_of (cp_idle p) ?k of None \<Rightarrow> [] | Some dq \<Rightarrow> dq)"
  note m = mset_owned_update [of "cp_idle p" ?k, folded dq_def]
  have d: "distinct (map fst (cp_idle p))" "distinct (owned p)" using assms(1) by (simp_all add: pool_ok_def)
  have fd: "fd \<notin> set (owned p)" "fd \<in> set os" using assms(3) by (simp_all add: outside_def)
  have same: "mset (concat (map snd (AList.update ?k dq (cp_idle p)))) = mset (owned p)"
    using m [OF d(1), of dq] by (simp add: owned_def)
  have push: "mset (concat (map snd (AList.update ?k (dq @ [fd]) (cp_idle p)))) = mset (fd # owned p)"
    using m [OF d(1), of "dq @ [fd]"] by (simp add: owned_def)
  have len: "length dq \<le> cp_maxIdlePerBackend p"
    using assms(1) by (auto simp: pool_ok_def dq_def split: option.split dest!: map_of_SomeD)
  have "pool_ok p' os' \<and> cp_maxIdlePerBackend p' = cp_maxIdlePerBackend p \<and>
    outside p' os' = outside p os - {fd}"
  proof (cases "length dq \<ge> cp_maxIdlePerBackend p")
    case True
    with assms(4) have "p' = p\<lparr>cp_idle := AList.update ?k dq (cp_idle p)\<rparr>" "os' = close_fd fd os"
      unfolding release_def Let_def dq_def [symmetric] by simp_all
    with pool_ok_update [OF assms(1) same d(2), of "close_fd fd os"] assms(1) fd len show ?thesis
      by (auto simp: pool_ok_def outside_def)
  next
    case False
    with assms(4) have "p' = p\<lparr>cp_idle := AList.update ?k (dq @ [fd]) (cp_idle p)\<rparr>" "os' = os"
      unfolding release_def Let_def dq_def [symmetric] by simp_all
    with pool_ok_update [OF assms(1) push, of os] assms(1,2) fd d(2) False show ?thesis
      by (auto simp: pool_ok_def outside_def)
  qed
  then show "pool_ok p' os'" "cp_maxIdlePerBackend p' = cp_maxIdlePerBackend p"
    "outside p' os' = outside p os - {fd}" by simp_all
qed

lemma discard_owner:
  assumes "pool_ok p os" and "0 \<le> fd" and "fd \<in> outside p os"
  shows "pool_ok p (discard fd os)" and "outside p (discard fd os) = outside p os - {fd}"
  using assms by (auto simp: pool_ok_def outside_def discard_def)

section \<open>The contract of the pool\<close>

text \<open>
  What the forwarding code relies on: an acquired descriptor is open, is nobody else's, and is the
  only change outside the pool; releasing or discarding a descriptor gives it up. A lease is one
  use of a connection: acquire it, then, if there is one, release it (\<open>True\<close>) or discard it.
\<close>

fun lease_all ::
  "('io \<Rightarrow> string \<Rightarrow> int \<Rightarrow> 'p \<Rightarrow> descs \<Rightarrow> fd \<times> 'p \<times> descs) \<Rightarrow>
   (string \<Rightarrow> int \<Rightarrow> fd \<Rightarrow> 'p \<Rightarrow> descs \<Rightarrow> 'p \<times> descs) \<Rightarrow> (fd \<Rightarrow> descs \<Rightarrow> descs) \<Rightarrow>
   ('io \<times> string \<times> int \<times> bool) list \<Rightarrow> 'p \<Rightarrow> descs \<Rightarrow> fd list \<times> 'p \<times> descs" where
  "lease_all acq rel disc [] p os = ([], p, os)"
| "lease_all acq rel disc ((io, host, port, keep) # ls) p os =
     (case acq io host port p os of
        (fd, p1, os1) \<Rightarrow>
          (case (if fd < 0 then (p1, os1) else if keep then rel host port fd p1 os1
                 else (p1, disc fd os1)) of
             (p2, os2) \<Rightarrow> (case lease_all acq rel disc ls p2 os2 of (fds, r) \<Rightarrow> (fd # fds, r))))"

fun all_fresh ::
  "('io \<Rightarrow> descs \<Rightarrow> bool) \<Rightarrow> ('io \<Rightarrow> string \<Rightarrow> int \<Rightarrow> 'p \<Rightarrow> descs \<Rightarrow> fd \<times> 'p \<times> descs) \<Rightarrow>
   (string \<Rightarrow> int \<Rightarrow> fd \<Rightarrow> 'p \<Rightarrow> descs \<Rightarrow> 'p \<times> descs) \<Rightarrow> (fd \<Rightarrow> descs \<Rightarrow> descs) \<Rightarrow>
   ('io \<times> string \<times> int \<times> bool) list \<Rightarrow> 'p \<Rightarrow> descs \<Rightarrow> bool" where
  "all_fresh fresh acq rel disc [] p os \<longleftrightarrow> True"
| "all_fresh fresh acq rel disc ((io, host, port, keep) # ls) p os \<longleftrightarrow>
     fresh io os \<and>
     (case acq io host port p os of
        (fd, p1, os1) \<Rightarrow>
          (case (if fd < 0 then (p1, os1) else if keep then rel host port fd p1 os1
                 else (p1, disc fd os1)) of
             (p2, os2) \<Rightarrow> all_fresh fresh acq rel disc ls p2 os2))"

locale descriptor_pool =
  fixes acq :: "'io \<Rightarrow> string \<Rightarrow> int \<Rightarrow> 'p \<Rightarrow> descs \<Rightarrow> fd \<times> 'p \<times> descs"
    and rel :: "string \<Rightarrow> int \<Rightarrow> fd \<Rightarrow> 'p \<Rightarrow> descs \<Rightarrow> 'p \<times> descs"
    and disc :: "fd \<Rightarrow> descs \<Rightarrow> descs"
    and ok :: "'p \<Rightarrow> descs \<Rightarrow> bool"
    and others :: "'p \<Rightarrow> descs \<Rightarrow> fd set"
    and fresh :: "'io \<Rightarrow> descs \<Rightarrow> bool"
  assumes acq_ok: "ok p os \<Longrightarrow> fresh io os \<Longrightarrow> acq io h n p os = (fd, p', os') \<Longrightarrow> ok p' os'"
    and acq_new: "ok p os \<Longrightarrow> fresh io os \<Longrightarrow> acq io h n p os = (fd, p', os') \<Longrightarrow> 0 \<le> fd \<Longrightarrow>
      fd \<notin> others p os \<and> others p' os' = insert fd (others p os)"
    and acq_fail: "ok p os \<Longrightarrow> fresh io os \<Longrightarrow> acq io h n p os = (fd, p', os') \<Longrightarrow> fd < 0 \<Longrightarrow>
      others p' os' = others p os"
    and rel_ok: "ok p os \<Longrightarrow> 0 \<le> fd \<Longrightarrow> fd \<in> others p os \<Longrightarrow> rel h n fd p os = (p', os') \<Longrightarrow>
      ok p' os' \<and> others p' os' = others p os - {fd}"
    and disc_ok: "ok p os \<Longrightarrow> 0 \<le> fd \<Longrightarrow> fd \<in> others p os \<Longrightarrow>
      ok p (disc fd os) \<and> others p (disc fd os) = others p os - {fd}"
begin

lemma lease_balanced:
  assumes "ok p os" and "fresh io os" and "acq io h n p os = (fd, p1, os1)"
    and "(if fd < 0 then (p1, os1) else if keep then rel h n fd p1 os1 else (p1, disc fd os1)) = (p2, os2)"
  shows "ok p2 os2 \<and> others p2 os2 = others p os"
proof (cases "fd < 0")
  case True
  then show ?thesis using assms acq_ok [OF assms(1-3)] acq_fail [OF assms(1-3)] by simp
next
  case False
  then have "ok p1 os1" "fd \<notin> others p os" "others p1 os1 = insert fd (others p os)"
    using acq_ok [OF assms(1-3)] acq_new [OF assms(1-3)] by simp_all
  then show ?thesis
    using False assms(4) rel_ok [of p1 os1 fd h n p2 os2] disc_ok [of p1 os1 fd]
    by (auto split: if_splits)
qed

lemma leases_balanced:
  "ok p os \<Longrightarrow> all_fresh fresh acq rel disc ls p os \<Longrightarrow> lease_all acq rel disc ls p os = (fds, p', os') \<Longrightarrow>
   ok p' os' \<and> others p' os' = others p os"
proof (induction ls arbitrary: p os fds)
  case (Cons l ls)
  obtain io h n keep where l: "l = (io, h, n, keep)" by (metis prod_cases4)
  obtain fd p1 os1 where a: "acq io h n p os = (fd, p1, os1)" by (metis prod_cases3)
  obtain p2 os2 where r: "(if fd < 0 then (p1, os1) else if keep then rel h n fd p1 os1
      else (p1, disc fd os1)) = (p2, os2)" by fastforce
  obtain fds' where "lease_all acq rel disc ls p2 os2 = (fds', p', os')"
    using Cons.prems(3) l a r by (auto split: prod.splits)
  moreover have "fresh io os" "all_fresh fresh acq rel disc ls p2 os2"
    using Cons.prems(2) l a r by (auto split: prod.splits)
  ultimately show ?case using lease_balanced [OF Cons.prems(1) _ a r] Cons.IH [of p2 os2] by simp
qed simp

end

interpretation pool: descriptor_pool acquire release discard pool_ok outside fresh_socket
proof (unfold_locales, goal_cases)
  case (1 p os io h n fd p' os')
  then show ?case by (rule acquire_owner(1))
next
  case (2 p os io h n fd p' os')
  then show ?case using acquire_owner(3) by blast
next
  case (3 p os io h n fd p' os')
  then show ?case by (rule acquire_owner(4))
next
  case (4 p os fd h n p' os')
  then show ?case using release_owner(1,3) by blast
next
  case (5 p os fd)
  then show ?case using discard_owner by blast
qed

section \<open>Queue discipline\<close>

definition idle_of :: "ConnectionPool \<Rightarrow> string \<Rightarrow> int \<Rightarrow> fd list" where
  "idle_of p host port = (case map_of (cp_idle p) (key host port) of None \<Rightarrow> [] | Some dq \<Rightarrow> dq)"

lemma release_idle:
  assumes "length (idle_of p host port) < cp_maxIdlePerBackend p"
  shows "idle_of (fst (release host port fd p os)) host port = idle_of p host port @ [fd]"
    and "snd (release host port fd p os) = os"
    and "cp_maxIdlePerBackend (fst (release host port fd p os)) = cp_maxIdlePerBackend p"
  using assms by (simp_all add: release_def idle_of_def Let_def)

lemma acquire_idle:
  assumes "idle_of p host port = fd # dq"
  shows "\<exists>p'. acquire io host port p os = (fd, p', os) \<and> idle_of p' host port = dq"
  using assms by (auto simp: acquire_def idle_of_def Let_def split: option.splits)

definition release_all :: "string \<Rightarrow> int \<Rightarrow> fd list \<Rightarrow> ConnectionPool \<Rightarrow> descs \<Rightarrow> ConnectionPool \<times> descs" where
  "release_all host port fds p os = fold (\<lambda>fd (p, os). release host port fd p os) fds (p, os)"

fun acquire_all :: "string \<Rightarrow> int \<Rightarrow> dial_io list \<Rightarrow> ConnectionPool \<Rightarrow> descs \<Rightarrow> fd list" where
  "acquire_all host port [] p os = []"
| "acquire_all host port (io # ios) p os =
     (case acquire io host port p os of (fd, p', os') \<Rightarrow> fd # acquire_all host port ios p' os')"

lemma release_all_idle:
  "length (idle_of p host port) + length fds \<le> cp_maxIdlePerBackend p \<Longrightarrow>
   idle_of (fst (release_all host port fds p os)) host port = idle_of p host port @ fds"
proof (induction fds arbitrary: p os)
  case (Cons fd fds)
  obtain p1 os1 where r: "release host port fd p os = (p1, os1)" by fastforce
  have "length (idle_of p host port) < cp_maxIdlePerBackend p" using Cons.prems by simp
  from release_idle [OF this, of fd os] r
  have "idle_of p1 host port = idle_of p host port @ [fd]" "cp_maxIdlePerBackend p1 = cp_maxIdlePerBackend p"
    by simp_all
  with Cons.IH [of p1 os1] Cons.prems r show ?case by (simp add: release_all_def)
qed (simp add: release_all_def)

lemma acquire_all_idle:
  "length ios \<le> length (idle_of p host port) \<Longrightarrow>
   acquire_all host port ios p os = take (length ios) (idle_of p host port)"
proof (induction ios arbitrary: p os)
  case (Cons io ios)
  obtain fd dq where i: "idle_of p host port = fd # dq"
    using Cons.prems by (cases "idle_of p host port") auto
  from acquire_idle [OF i, of io os] Cons.IH Cons.prems i show ?case by fastforce
qed simp

lemma fold_close: "set (fold close_fd dq os) = set os - set dq"
  by (induction dq arbitrary: os) auto

section \<open>Properties\<close>

text \<open>
  C22: the pool leaks no descriptor and gives none to two users. After any sequence of
  leases, failed ones included, the descriptors outside the pool are those from before, and the
  pool owns only open descriptors, each once, and at most the configured number per backend.
\<close>

theorem pool_no_leak:
  assumes "pool_ok p os" and "all_fresh fresh_socket acquire release discard ls p os"
    and "lease_all acquire release discard ls p os = (fds, p', os')"
  shows "outside p' os' = outside p os \<and> distinct (owned p') \<and> set (owned p') \<subseteq> set os' \<and>
    (\<forall>(k, dq) \<in> set (cp_idle p'). length dq \<le> cp_maxIdlePerBackend p')"
  using pool.leases_balanced [OF assms] by (simp add: pool_ok_def)

theorem pool_no_leak_witness:
  "let up = \<lparr>dl_resolved = True, dl_socket = 7, dl_connect = InProgress, dl_ready = 1, dl_soError = 0\<rparr>;
       down = up\<lparr>dl_socket := 8, dl_soError := 111\<rparr>;
       r = lease_all acquire release discard
             [(up, ''h'', 80, True), (down, ''h'', 80, False), (down, ''h'', 81, True)]
             (ConnectionPool_init 1 100) [3]
   in fst r = [7, 7, -1] \<and> outside (fst (snd r)) (snd (snd r)) = {3}"
proof -
  let ?up = "\<lparr>dl_resolved = True, dl_socket = 7, dl_connect = InProgress, dl_ready = 1, dl_soError = 0\<rparr>"
  let ?down = "?up\<lparr>dl_socket := 8, dl_soError := 111\<rparr>"
  let ?ls = "[(?up, ''h'', 80, True), (?down, ''h'', 80, False), (?down, ''h'', 81, True)]"
  let ?p = "ConnectionPool_init 1 100"
  let ?r = "lease_all acquire release discard ?ls ?p [3]"
  have f: "all_fresh fresh_socket acquire release discard ?ls ?p [3]" by code_simp
  have r: "fst ?r = [7, 7, -1]" by code_simp
  have "outside (fst (snd ?r)) (snd (snd ?r)) = outside ?p [3]"
    using pool_no_leak [OF pool_ok_init f, of "fst ?r" "fst (snd ?r)" "snd (snd ?r)"] by simp
  then show ?thesis using r by (simp add: Let_def outside_def owned_def ConnectionPool_init_def)
qed

text \<open>
  idle connections are reused first in, first out. Connections released to a backend,
  no more than the configured number, are handed out again in the order of their release and
  before any new connection is dialled.
\<close>

theorem pool_reuse_fifo:
  assumes "length (idle_of p host port) + length fds \<le> cp_maxIdlePerBackend p"
    and "length ios = length (idle_of p host port) + length fds"
  shows "acquire_all host port ios (fst (release_all host port fds p os)) os' =
    idle_of p host port @ fds"
  using release_all_idle [OF assms(1), of os] assms(2) by (simp add: acquire_all_idle)

theorem pool_reuse_fifo_witness:
  "let io = \<lparr>dl_resolved = False, dl_socket = 0, dl_connect = ConnectError, dl_ready = 0, dl_soError = 0\<rparr>
   in acquire_all ''h'' 80 [io, io] (fst (release_all ''h'' 80 [7, 5] (ConnectionPool_init 2 100) [5, 7])) [5, 7]
      = [7, 5]"
  using pool_reuse_fifo [of "ConnectionPool_init 2 100" "''h''" 80 "[7, 5]"
      "[\<lparr>dl_resolved = False, dl_socket = 0, dl_connect = ConnectError, dl_ready = 0, dl_soError = 0\<rparr>,
        \<lparr>dl_resolved = False, dl_socket = 0, dl_connect = ConnectError, dl_ready = 0, dl_soError = 0\<rparr>]"
      "[5, 7]" "[5, 7]"]
  by (simp add: Let_def idle_of_def ConnectionPool_init_def)

text \<open>
  \<open>closeAll\<close> closes every idle connection and nothing else, and leaves no idle
  connection for any backend.
\<close>

theorem pool_close_all:
  "set (snd (closeAll p os)) = outside p os \<and> idleCount host port (fst (closeAll p os)) = 0"
proof -
  have "set (fold (\<lambda>(k, dq) os. fold close_fd dq os) al os) = set os - set (concat (map snd al))" for al os
    by (induction al arbitrary: os) (auto simp: fold_close)
  moreover have "map_of (map (\<lambda>(k, dq). (k, [] :: fd list)) al) k \<in> {None, Some []}" for al :: "(string, fd list) umap" and k
    by (induction al) auto
  from this [of "cp_idle p" "key host port"] have "idleCount host port (fst (closeAll p os)) = 0"
    by (auto simp: closeAll_def idleCount_def)
  ultimately show ?thesis by (simp add: closeAll_def outside_def owned_def)
qed

end
