(* ===== verification/Logger.thy ===== *)
theory Logger
  imports Prelude
begin

text \<open>
  The structured logger of include/observability/Logger.hpp. The broken-down time that
  \<^verbatim>\<open>gmtime_r\<close> returns is an argument; a call yields the line it prints, or nothing when
  its level is below the configured one.
\<close>

section \<open>Levels\<close>

datatype Level = DEBUG | INFO | WARN | ERROR

fun level_rank :: "Level \<Rightarrow> nat" where
  "level_rank DEBUG = 0"
| "level_rank INFO = 1"
| "level_rank WARN = 2"
| "level_rank ERROR = 3"

lemma level_rank_inj: "level_rank a = level_rank b \<Longrightarrow> a = b"
  by (cases a; cases b) auto

instantiation Level :: linorder
begin

definition less_eq_Level :: "Level \<Rightarrow> Level \<Rightarrow> bool" where
  "less_eq_Level a b \<longleftrightarrow> level_rank a \<le> level_rank b"

definition less_Level :: "Level \<Rightarrow> Level \<Rightarrow> bool" where
  "less_Level a b \<longleftrightarrow> level_rank a < level_rank b"

instance
  by standard (auto simp: less_eq_Level_def less_Level_def level_rank_inj)

end

fun levelName :: "Level \<Rightarrow> string" where
  "levelName DEBUG = ''DEBUG''"
| "levelName INFO = ''INFO''"
| "levelName WARN = ''WARN''"
| "levelName ERROR = ''ERROR''"

section \<open>Lines\<close>

fun escape :: "string \<Rightarrow> string" where
  "escape [] = []"
| "escape (c # cs) =
     (if c = DQUOTE \<or> c = CHR 92 then CHR 92 # c # escape cs else c # escape cs)"

definition pad :: "nat \<Rightarrow> int \<Rightarrow> string" where
  "pad w n =
     (if n < 0 then ''-'' @ replicate (w - 1 - length (nat_to_string (nat (- n)))) CHR ''0'' @ nat_to_string (nat (- n))
      else replicate (w - length (nat_to_string (nat n))) CHR ''0'' @ nat_to_string (nat n))"

record tm =
  tm_year :: int
  tm_mon :: int
  tm_mday :: int
  tm_hour :: int
  tm_min :: int
  tm_sec :: int

definition isoTime :: "tm \<Rightarrow> int \<Rightarrow> string" where
  "isoTime t ms =
     take 63
       (pad 4 (tm_year t + 1900) @ ''-'' @ pad 2 (tm_mon t + 1) @ ''-'' @ pad 2 (tm_mday t) @ ''T'' @
        pad 2 (tm_hour t) @ '':'' @ pad 2 (tm_min t) @ '':'' @ pad 2 (tm_sec t) @ ''.'' @ pad 3 ms @ ''Z'')"

record Logger =
  lg_minLevel :: Level

definition Logger_init :: Logger where
  "Logger_init = \<lparr>lg_minLevel = INFO\<rparr>"

definition setLevel :: "Level \<Rightarrow> Logger \<Rightarrow> Logger" where
  "setLevel lvl l = l\<lparr>lg_minLevel := lvl\<rparr>"

definition log_head :: "tm \<Rightarrow> int \<Rightarrow> Level \<Rightarrow> string" where
  "log_head t ms lvl =
     ''{'' @ [DQUOTE] @ ''ts'' @ [DQUOTE] @ '':'' @ [DQUOTE] @ isoTime t ms @ [DQUOTE] @ '','' @
     [DQUOTE] @ ''level'' @ [DQUOTE] @ '':'' @ [DQUOTE] @ levelName lvl @ [DQUOTE] @ '','' @
     [DQUOTE] @ ''msg'' @ [DQUOTE] @ '':'' @ [DQUOTE]"

definition log_line :: "Logger \<Rightarrow> tm \<Rightarrow> int \<Rightarrow> Level \<Rightarrow> string \<Rightarrow> string \<Rightarrow> string option" where
  "log_line l t ms lvl msg flds =
     (if lvl < lg_minLevel l then None
      else Some (log_head t ms lvl @ escape msg @ [DQUOTE] @
                 (if flds = [] then [] else '','' @ flds) @ ''}''))"

text \<open>A log event as the components emit it: level, message, preformatted fields.\<close>

type_synonym log_event = "Level \<times> string \<times> string"

definition emitted :: "Logger \<Rightarrow> log_event list \<Rightarrow> log_event list" where
  "emitted l es = filter (\<lambda>(lvl, _). \<not> lvl < lg_minLevel l) es"

section \<open>Reading a line back\<close>

fun read_string :: "string \<Rightarrow> (string \<times> string) option" where
  "read_string [] = None"
| "read_string (c # cs) =
     (if c = DQUOTE then Some ([], cs)
      else if c = CHR 92 then
        (case cs of [] \<Rightarrow> None
         | d # ds \<Rightarrow> map_option (\<lambda>(s, rest). (d # s, rest)) (read_string ds))
      else map_option (\<lambda>(s, rest). (c # s, rest)) (read_string cs))"

lemma read_escape: "read_string (escape s @ DQUOTE # rest) = Some (s, rest)"
  by (induction s) auto

lemma length_nat_to_string: "n < 10 ^ Suc w \<Longrightarrow> length (nat_to_string n) \<le> Suc w"
proof (induction w arbitrary: n)
  case 0
  then show ?case by (simp add: nat_to_string.simps)
next
  case (Suc w)
  show ?case
  proof (cases "n < 10")
    case False
    have "n div 10 < 10 ^ Suc w" using Suc.prems by (simp add: less_mult_imp_div_less mult.commute)
    from Suc.IH [OF this] False show ?thesis by (simp add: nat_to_string.simps [of n])
  qed (simp add: nat_to_string.simps)
qed

lemma length_pad: "0 \<le> n \<Longrightarrow> n < 10 ^ Suc w \<Longrightarrow> length (pad (Suc w) n) = Suc w"
  using length_nat_to_string [of "nat n" w] by (simp add: pad_def nat_less_iff)

definition tm_ok :: "tm \<Rightarrow> bool" where
  "tm_ok t \<longleftrightarrow>
     0 \<le> tm_year t + 1900 \<and> tm_year t + 1900 < 10000 \<and> 0 \<le> tm_mon t \<and> tm_mon t < 12 \<and>
     0 \<le> tm_mday t \<and> tm_mday t < 32 \<and> 0 \<le> tm_hour t \<and> tm_hour t < 24 \<and>
     0 \<le> tm_min t \<and> tm_min t < 60 \<and> 0 \<le> tm_sec t \<and> tm_sec t < 62"

lemma length_isoTime:
  assumes "tm_ok t" and "0 \<le> ms" and "ms < 1000" shows "length (isoTime t ms) = 24"
proof -
  have 4: "length (pad 4 n) = 4" if "0 \<le> n" "n < 10000" for n
    using length_pad [of n 3] that by (simp add: numeral_eq_Suc)
  have 3: "length (pad 3 n) = 3" if "0 \<le> n" "n < 1000" for n
    using length_pad [of n 2] that by (simp add: numeral_eq_Suc)
  have 2: "length (pad 2 n) = 2" if "0 \<le> n" "n < 100" for n
    using length_pad [of n 1] that by (simp add: numeral_eq_Suc)
  from assms show ?thesis by (simp add: isoTime_def tm_ok_def 2 3 4)
qed

section \<open>Properties\<close>

text \<open>
  log lines. An event at or above the configured level is printed as one line that
  starts with a timestamp of the fixed width of 24 characters, and whatever the message contains,
  a reader of JSON strings gets the message back from the line, followed by the fields.
\<close>

theorem log_line_readable:
  assumes "lg_minLevel l \<le> lvl" and "tm_ok t" and "0 \<le> ms" and "ms < 1000"
  shows "length (isoTime t ms) = 24 \<and>
    (\<exists>body. log_line l t ms lvl msg flds = Some (log_head t ms lvl @ body) \<and>
       read_string body = Some (msg, (if flds = [] then [] else CHR '','' # flds) @ ''}''))"
  using assms by (auto simp: log_line_def length_isoTime read_escape)

theorem log_line_readable_witness:
  "let t = \<lparr>tm_year = 125, tm_mon = 0, tm_mday = 9, tm_hour = 1, tm_min = 2, tm_sec = 3\<rparr>
   in isoTime t 4 = ''2025-01-09T01:02:03.004Z'' \<and> length (isoTime t 4) = 24"
proof -
  let ?t = "\<lparr>tm_year = 125, tm_mon = 0, tm_mday = 9, tm_hour = 1, tm_min = 2, tm_sec = 3\<rparr>"
  have "isoTime ?t 4 = ''2025-01-09T01:02:03.004Z''" by code_simp
  moreover have "length (isoTime ?t 4) = 24"
    using log_line_readable [of Logger_init WARN ?t 4]
    by (simp add: Logger_init_def less_eq_Level_def tm_ok_def)
  ultimately show ?thesis by (simp add: Let_def)
qed

end
