(* ===== verification/Metrics.thy ===== *)
theory Metrics
  imports Prelude
begin

text \<open>
  The metrics registry of include/observability/Metrics.hpp: the latency histogram, the counters
  and the Prometheus text. Counters are atomic 64-bit words and wrap around; a
  \<^verbatim>\<open>double\<close> is a real number, and how an output stream prints one is the argument
  \<open>fmt\<close> of \<open>toPrometheusText\<close>.
\<close>

section \<open>The latency histogram\<close>

definition bounds :: "64 word list" where
  "bounds = [100, 250, 500, 1000, 2500, 5000, 10000, 25000, 50000, 100000, 250000, 500000, 1000000, - 1]"

record LatencyHistogram =
  lh_counts :: "64 word list"
  lh_total :: "64 word"

definition LatencyHistogram_init :: LatencyHistogram where
  "LatencyHistogram_init = \<lparr>lh_counts = replicate (length bounds) 0, lh_total = 0\<rparr>"

definition bucket_index :: "64 word \<Rightarrow> nat" where
  "bucket_index micros = length (takeWhile (\<lambda>b. b < micros) bounds)"

definition record_latency :: "64 word \<Rightarrow> LatencyHistogram \<Rightarrow> LatencyHistogram" where
  "record_latency micros h =
     (let idx = bucket_index micros;
          idx = (if idx \<ge> length (lh_counts h) then length (lh_counts h) - 1 else idx)
      in h\<lparr>lh_counts := (lh_counts h)[idx := lh_counts h ! idx + 1], lh_total := lh_total h + 1\<rparr>)"

definition reported_bound :: "nat \<Rightarrow> 64 word" where
  "reported_bound i = (if bounds ! i = - 1 then bounds ! (i - 1) else bounds ! i)"

fun percentile_loop :: "64 word \<Rightarrow> 64 word list \<Rightarrow> nat \<Rightarrow> 64 word \<Rightarrow> 64 word" where
  "percentile_loop target [] i cumulative = last bounds"
| "percentile_loop target (c # cs) i cumulative =
     (let cumulative = cumulative + c
      in if cumulative \<ge> target then reported_bound i
         else percentile_loop target cs (i + 1) cumulative)"

definition percentile :: "real \<Rightarrow> LatencyHistogram \<Rightarrow> 64 word" where
  "percentile p h =
     (if lh_total h = 0 then 0
      else percentile_loop (of_int \<lfloor>p * real (unat (lh_total h))\<rfloor>) (lh_counts h) 0 0)"

definition p50 :: "LatencyHistogram \<Rightarrow> 64 word" where "p50 h = percentile (50 / 100) h"
definition p95 :: "LatencyHistogram \<Rightarrow> 64 word" where "p95 h = percentile (95 / 100) h"
definition p99 :: "LatencyHistogram \<Rightarrow> 64 word" where "p99 h = percentile (99 / 100) h"

section \<open>The registry\<close>

record Metrics =
  mt_requests :: "64 word"
  mt_errors :: "64 word"
  mt_cacheHits :: "64 word"
  mt_cacheMisses :: "64 word"
  mt_rateLimited :: "64 word"
  mt_retries :: "64 word"
  mt_circuitOpenRejections :: "64 word"
  mt_activeConnections :: int
  mt_responsesByClass :: "64 word list"
  mt_latency :: LatencyHistogram

definition Metrics_init :: Metrics where
  "Metrics_init =
     \<lparr>mt_requests = 0, mt_errors = 0, mt_cacheHits = 0, mt_cacheMisses = 0, mt_rateLimited = 0,
      mt_retries = 0, mt_circuitOpenRejections = 0, mt_activeConnections = 0,
      mt_responsesByClass = replicate 6 0, mt_latency = LatencyHistogram_init\<rparr>"

definition incRequests :: "Metrics \<Rightarrow> Metrics" where
  "incRequests m = m\<lparr>mt_requests := mt_requests m + 1\<rparr>"
definition incErrors :: "Metrics \<Rightarrow> Metrics" where
  "incErrors m = m\<lparr>mt_errors := mt_errors m + 1\<rparr>"
definition incCacheHit :: "Metrics \<Rightarrow> Metrics" where
  "incCacheHit m = m\<lparr>mt_cacheHits := mt_cacheHits m + 1\<rparr>"
definition incCacheMiss :: "Metrics \<Rightarrow> Metrics" where
  "incCacheMiss m = m\<lparr>mt_cacheMisses := mt_cacheMisses m + 1\<rparr>"
definition incRateLimited :: "Metrics \<Rightarrow> Metrics" where
  "incRateLimited m = m\<lparr>mt_rateLimited := mt_rateLimited m + 1\<rparr>"
definition incRetries :: "Metrics \<Rightarrow> Metrics" where
  "incRetries m = m\<lparr>mt_retries := mt_retries m + 1\<rparr>"
definition incCircuitOpen :: "Metrics \<Rightarrow> Metrics" where
  "incCircuitOpen m = m\<lparr>mt_circuitOpenRejections := mt_circuitOpenRejections m + 1\<rparr>"

definition recordResponse :: "int \<Rightarrow> Metrics \<Rightarrow> Metrics" where
  "recordResponse statusCode m =
     (if statusCode \<ge> 100 \<and> statusCode < 600 then
        (let k = nat (statusCode div 100)
         in m\<lparr>mt_responsesByClass := (mt_responsesByClass m)[k := mt_responsesByClass m ! k + 1]\<rparr>)
      else m)"

definition connectionOpened :: "Metrics \<Rightarrow> Metrics" where
  "connectionOpened m = m\<lparr>mt_activeConnections := mt_activeConnections m + 1\<rparr>"
definition connectionClosed :: "Metrics \<Rightarrow> Metrics" where
  "connectionClosed m = m\<lparr>mt_activeConnections := mt_activeConnections m - 1\<rparr>"

definition recordLatencyMicros :: "64 word \<Rightarrow> Metrics \<Rightarrow> Metrics" where
  "recordLatencyMicros micros m = m\<lparr>mt_latency := record_latency micros (mt_latency m)\<rparr>"

definition requestsPerSecond :: "real \<Rightarrow> Metrics \<Rightarrow> real" where
  "requestsPerSecond elapsedSeconds m =
     (if elapsedSeconds \<le> 0 then 0 else real (unat (mt_requests m)) / elapsedSeconds)"

definition counter_line :: "string \<Rightarrow> 64 word \<Rightarrow> string" where
  "counter_line name w = name @ '' '' @ nat_to_string (unat w) @ [LF]"

definition toPrometheusText :: "(real \<Rightarrow> string) \<Rightarrow> real \<Rightarrow> Metrics \<Rightarrow> string" where
  "toPrometheusText fmt uptimeSeconds m =
     ''# HELP gateway_requests_total Total requests handled'' @ [LF] @
     ''# TYPE gateway_requests_total counter'' @ [LF] @
     counter_line ''gateway_requests_total'' (mt_requests m) @
     ''# TYPE gateway_errors_total counter'' @ [LF] @
     counter_line ''gateway_errors_total'' (mt_errors m) @
     ''# TYPE gateway_responses_total counter'' @ [LF] @
     concat (map (\<lambda>klass. ''gateway_responses_total{status_class='' @ [DQUOTE] @ nat_to_string klass @
                   ''xx'' @ [DQUOTE] @ ''} '' @ nat_to_string (unat (mt_responsesByClass m ! klass)) @ [LF])
              [1, 2, 3, 4, 5]) @
     counter_line ''gateway_cache_hits_total'' (mt_cacheHits m) @
     counter_line ''gateway_cache_misses_total'' (mt_cacheMisses m) @
     counter_line ''gateway_rate_limited_total'' (mt_rateLimited m) @
     counter_line ''gateway_retries_total'' (mt_retries m) @
     counter_line ''gateway_circuit_open_rejections_total'' (mt_circuitOpenRejections m) @
     ''gateway_active_connections '' @ int_to_string (mt_activeConnections m) @ [LF] @
     ''gateway_requests_per_second '' @ fmt (requestsPerSecond uptimeSeconds m) @ [LF] @
     counter_line ''gateway_latency_p50_micros'' (p50 (mt_latency m)) @
     counter_line ''gateway_latency_p95_micros'' (p95 (mt_latency m)) @
     counter_line ''gateway_latency_p99_micros'' (p99 (mt_latency m))"

lemmas metric_ops = incRequests_def incErrors_def incCacheHit_def incCacheMiss_def
  incRateLimited_def incRetries_def incCircuitOpen_def recordResponse_def connectionOpened_def
  connectionClosed_def recordLatencyMicros_def

section \<open>Histogram lemmas\<close>

lemma length_bounds: "length bounds = 14"
  by (simp add: bounds_def)

lemma sorted_bounds: "sorted bounds"
  by (simp add: bounds_def)

lemma length_takeWhile_ex: "x \<in> set xs \<Longrightarrow> \<not> P x \<Longrightarrow> length (takeWhile P xs) < length xs"
  by (induction xs) auto

lemma bucket_index_less: "bucket_index m < length bounds"
proof -
  have "\<not> (- 1 :: 64 word) < m" using word_order.extremum_strict [of m] by simp
  moreover have "- 1 \<in> set bounds" by (simp add: bounds_def)
  ultimately show ?thesis unfolding bucket_index_def by (rule length_takeWhile_ex [rotated])
qed

lemma bucket_index_le: "i < length bounds \<Longrightarrow> bucket_index m \<le> i \<longleftrightarrow> m \<le> bounds ! i"
proof
  assume i: "i < length bounds" and le: "bucket_index m \<le> i"
  have "\<not> bounds ! bucket_index m < m"
    using bucket_index_less [of m] nth_length_takeWhile [of "\<lambda>b. b < m" bounds]
    by (simp add: bucket_index_def)
  moreover have "bounds ! bucket_index m \<le> bounds ! i"
    using sorted_nth_mono [OF sorted_bounds le i] .
  ultimately show "m \<le> bounds ! i" by simp
next
  assume i: "i < length bounds" and le: "m \<le> bounds ! i"
  show "bucket_index m \<le> i"
  proof (rule ccontr)
    assume "\<not> bucket_index m \<le> i"
    then have "i < length (takeWhile (\<lambda>b. b < m) bounds)" by (simp add: bucket_index_def)
    then have "bounds ! i < m" by (metis nth_mem set_takeWhileD takeWhile_nth)
    with le show False by simp
  qed
qed

definition recorded :: "64 word list \<Rightarrow> LatencyHistogram" where
  "recorded xs = fold record_latency xs LatencyHistogram_init"

definition in_bucket :: "64 word list \<Rightarrow> nat \<Rightarrow> nat" where
  "in_bucket xs i = length (filter (\<lambda>x. bucket_index x = i) xs)"

definition at_most :: "64 word list \<Rightarrow> 64 word \<Rightarrow> nat" where
  "at_most xs b = length (filter (\<lambda>x. x \<le> b) xs)"

lemma recorded_snoc: "recorded (xs @ [x]) = record_latency x (recorded xs)"
  by (simp add: recorded_def)

lemma recorded_counts:
  "length (lh_counts (recorded xs)) = 14 \<and> lh_total (recorded xs) = of_nat (length xs) \<and>
   (\<forall>i < 14. lh_counts (recorded xs) ! i = of_nat (in_bucket xs i))"
proof (induction xs rule: rev_induct)
  case Nil
  then show ?case by (simp add: recorded_def LatencyHistogram_init_def in_bucket_def length_bounds)
next
  case (snoc x xs)
  then show ?case
    using bucket_index_less [of x]
    by (auto simp: recorded_snoc record_latency_def Let_def in_bucket_def length_bounds nth_list_update)
qed

lemma in_bucket_sum:
  "i < 14 \<Longrightarrow> (\<Sum>j \<le> i. in_bucket xs j) = at_most xs (bounds ! i)"
proof -
  assume i: "i < 14"
  have "(\<Sum>j \<le> i. in_bucket xs j) = length (filter (\<lambda>x. bucket_index x \<le> i) xs)"
  proof (induction xs)
    case (Cons x xs)
    have "(\<Sum>j \<le> i. in_bucket (x # xs) j) =
      (\<Sum>j \<le> i. (if bucket_index x = j then 1 else 0) + in_bucket xs j)"
      by (intro sum.cong) (auto simp: in_bucket_def)
    also have "\<dots> = (if bucket_index x \<le> i then 1 else 0) + (\<Sum>j \<le> i. in_bucket xs j)"
      by (simp add: sum.distrib)
    finally show ?case using Cons by simp
  qed (simp add: in_bucket_def)
  with i show ?thesis by (simp add: at_most_def bucket_index_le length_bounds)
qed

lemma percentile_loop_spec:
  assumes "a + sum_list ns < 2 ^ 64" and "n \<le> a + sum_list ns" and "a < n \<or> ns \<noteq> []"
  shows "\<exists>i < length ns. percentile_loop (of_nat n) (map of_nat ns) k (of_nat a) = reported_bound (k + i) \<and>
    n \<le> a + sum_list (take (Suc i) ns) \<and> (\<forall>j < i. a + sum_list (take (Suc j) ns) < n)"
  using assms
proof (induction ns arbitrary: k a)
  case (Cons c ns)
  have "n < 2 ^ 64" "a + c < 2 ^ 64" using Cons.prems(1,2) by simp_all
  then have u: "unat (of_nat n :: 64 word) = n" "unat (of_nat (a + c) :: 64 word) = a + c"
    unfolding unat_of_nat by simp_all
  show ?case
  proof (cases "n \<le> a + c")
    case True
    then have "(of_nat n :: 64 word) \<le> of_nat (a + c)" using u by (simp add: word_le_nat_alt)
    with True show ?thesis by (intro exI [of _ 0]) simp
  next
    case False
    then have l: "\<not> (of_nat n :: 64 word) \<le> of_nat (a + c)" using u by (simp add: word_le_nat_alt)
    obtain i where i: "i < length ns" "n \<le> a + c + sum_list (take (Suc i) ns)"
      "percentile_loop (of_nat n) (map of_nat ns) (k + 1) (of_nat (a + c)) = reported_bound (k + 1 + i)"
      "\<forall>j < i. a + c + sum_list (take (Suc j) ns) < n"
      using Cons.IH [of "a + c" "k + 1"] Cons.prems False by auto
    have "a + sum_list (take (Suc j) (c # ns)) < n" if "j < Suc i" for j
      using that i(4) False by (cases j) (auto simp: add.assoc)
    with i l show ?thesis by (intro exI [of _ "Suc i"]) (simp add: Let_def add.assoc)
  qed
qed simp

definition bucket_counts :: "64 word list \<Rightarrow> nat list" where
  "bucket_counts xs = map (in_bucket xs) [0..<14]"

lemma recorded_map: "lh_counts (recorded xs) = map of_nat (bucket_counts xs)"
  using recorded_counts [of xs] by (intro nth_equalityI) (auto simp: bucket_counts_def)

lemma bucket_counts_sum:
  assumes "i < 14" shows "sum_list (take (Suc i) (bucket_counts xs)) = at_most xs (bounds ! i)"
proof -
  have "take (Suc i) [0..<14] = [0..<Suc i]" using assms by (subst take_upt) simp_all
  then have "sum_list (take (Suc i) (bucket_counts xs)) = (\<Sum>j \<leftarrow> [0..<Suc i]. in_bucket xs j)"
    by (simp add: bucket_counts_def take_map del: upt_Suc)
  also have "\<dots> = (\<Sum>j \<le> i. in_bucket xs j)"
    by (simp only: sum_set_upt_conv_sum_list_nat [symmetric] atLeastLessThan_upt [symmetric] atMost_atLeast0 atLeastLessThanSuc_atLeastAtMost)
  finally show ?thesis using in_bucket_sum [OF assms] by simp
qed

lemma bucket_counts_total: "sum_list (bucket_counts xs) = length xs"
proof -
  have "take (Suc 13) (bucket_counts xs) = bucket_counts xs" by (simp add: bucket_counts_def)
  moreover have "bounds ! 13 = - 1" by (simp add: bounds_def)
  ultimately show ?thesis using bucket_counts_sum [of 13 xs] by (simp add: at_most_def)
qed

lemma percentile_index:
  assumes "xs \<noteq> []" and "length xs < 2 ^ 64" and "0 \<le> p" and "p \<le> 1"
  shows "\<exists>i < 14. percentile p (recorded xs) = reported_bound i \<and>
    nat \<lfloor>p * length xs\<rfloor> \<le> at_most xs (bounds ! i) \<and>
    (\<forall>j < i. at_most xs (bounds ! j) < nat \<lfloor>p * length xs\<rfloor>)"
proof -
  define n where "n = nat \<lfloor>p * length xs\<rfloor>"
  have tot: "lh_total (recorded xs) = of_nat (length xs)" "unat (lh_total (recorded xs)) = length xs"
    using recorded_counts [of xs] assms(2) by (simp_all add: unat_of_nat)
  then have "lh_total (recorded xs) \<noteq> 0" using assms(1) by (metis length_0_conv unat_0)
  have "p * length xs \<le> length xs" using assms(4) mult_right_mono [of p 1 "real (length xs)"] by simp
  then have "n \<le> length xs" by (simp add: n_def floor_le_iff nat_le_iff)
  have "0 \<le> \<lfloor>p * length xs\<rfloor>" using assms(3) by simp
  then have w: "(of_int \<lfloor>p * real (unat (lh_total (recorded xs)))\<rfloor> :: 64 word) = of_nat n"
    unfolding tot(2) n_def by (metis of_int_of_nat_eq int_nat_eq)
  have "bucket_counts xs \<noteq> []" "length (bucket_counts xs) = 14" by (simp_all add: bucket_counts_def)
  then obtain i where "i < 14"
    "percentile_loop (of_nat n) (map of_nat (bucket_counts xs)) 0 (of_nat 0) = reported_bound (0 + i)"
    "n \<le> 0 + sum_list (take (Suc i) (bucket_counts xs))"
    "\<forall>j < i. 0 + sum_list (take (Suc j) (bucket_counts xs)) < n"
    using percentile_loop_spec [of 0 "bucket_counts xs" n 0] assms(2) \<open>n \<le> length xs\<close>
    by (auto simp: bucket_counts_total)
  then show ?thesis
    using \<open>lh_total (recorded xs) \<noteq> 0\<close> w unfolding n_def [symmetric]
    by (intro exI [of _ i]) (simp add: percentile_def recorded_map bucket_counts_sum)
qed

section \<open>Properties\<close>

text \<open>
  percentiles. For any latencies recorded since the start, the reported percentile
  \<open>p\<close> is the upper bound of the first bucket below or at which at least \<open>\<lfloor>p * N\<rfloor>\<close> of the
  \<open>N\<close> latencies lie (the last finite bound for the open bucket): fewer than that lie at or
  below every smaller bound.
\<close>

theorem percentile_first_bucket:
  assumes "xs \<noteq> []" and "length xs < 2 ^ 64" and "0 \<le> p" and "p \<le> 1"
  shows "\<exists>i < length bounds. percentile p (recorded xs) = reported_bound i \<and>
    nat \<lfloor>p * length xs\<rfloor> \<le> at_most xs (bounds ! i) \<and>
    (\<forall>j < i. at_most xs (bounds ! j) < nat \<lfloor>p * length xs\<rfloor>)"
  using percentile_index [OF assms] by (simp add: length_bounds)

theorem percentile_first_bucket_witness:
  "percentile (3 / 4) (recorded [90, 90, 400, 3000]) = 500 \<and>
   (\<exists>i < length bounds. percentile (3 / 4) (recorded [90, 90, 400, 3000]) = reported_bound i \<and>
      nat \<lfloor>3 / 4 * real (length [90, 90, 400, 3000 :: 64 word])\<rfloor> \<le> at_most [90, 90, 400, 3000] (bounds ! i))"
proof -
  let ?xs = "[90, 90, 400, 3000] :: 64 word list"
  have "percentile (3 / 4) (recorded ?xs) = 500"
    by (simp add: percentile_def recorded_def LatencyHistogram_init_def record_latency_def
        bucket_index_def bounds_def reported_bound_def Let_def)
  with percentile_first_bucket [of ?xs "3 / 4"] show ?thesis by auto
qed

text \<open>
  C40: with a single recorded latency every percentile below 100 is reported as 100
  microseconds, whatever the latency was, because the rank \<open>\<lfloor>p * 1\<rfloor>\<close> is zero and the first
  bucket reaches it empty.
\<close>

theorem percentile_single_sample:
  assumes "0 \<le> p" and "p < 1"
  shows "percentile p (recorded [x]) = 100"
proof -
  have z: "nat \<lfloor>p * length [x]\<rfloor> = 0" using assms by simp
  have "length [x] < 2 ^ 64" by simp
  from percentile_index [OF _ this, of p] assms obtain i where
    i: "percentile p (recorded [x]) = reported_bound i"
      "\<forall>j < i. at_most [x] (bounds ! j) < nat \<lfloor>p * length [x]\<rfloor>"
    by (auto simp del: list.size)
  have "i = 0" using i(2) unfolding z by blast
  with i(1) show ?thesis by (simp add: reported_bound_def bounds_def)
qed

theorem percentile_single_sample_witness:
  "percentile (99 / 100) (recorded [30000000]) = 100"
  by (rule percentile_single_sample) simp_all

end
