(* ===== verification/RequestId.thy ===== *)
theory RequestId
  imports Prelude
begin

text \<open>
  Request identifiers, include/observability/RequestId.hpp: a process-wide 64-bit counter and a
  random suffix, both in hexadecimal. The random draw is an argument.
\<close>

section \<open>Operations\<close>

definition hex_digit :: "nat \<Rightarrow> char" where
  "hex_digit n = (if n < 10 then char_of (48 + n) else char_of (87 + n))"

fun hex :: "nat \<Rightarrow> string" where
  "hex n = (if n < 16 then [hex_digit n] else hex (n div 16) @ [hex_digit (n mod 16)])"

declare hex.simps [simp del]

definition next_id :: "64 word \<Rightarrow> nat \<Rightarrow> string \<times> 64 word" where
  "next_id counter draw = (''req-'' @ hex (unat counter) @ ''-'' @ hex draw, counter + 1)"

fun ids :: "64 word \<Rightarrow> nat list \<Rightarrow> string list" where
  "ids counter [] = []"
| "ids counter (d # ds) = (case next_id counter d of (s, counter') \<Rightarrow> s # ids counter' ds)"

section \<open>Lemmas\<close>

definition hex_val_digit :: "char \<Rightarrow> nat" where
  "hex_val_digit c = (let n = of_char c in if n < 58 then n - 48 else n - 87)"

definition hex_val :: "string \<Rightarrow> nat" where
  "hex_val s = foldl (\<lambda>v c. v * 16 + hex_val_digit c) 0 s"

lemma hex_val_hex_digit: "n < 16 \<Longrightarrow> hex_val_digit (hex_digit n) = n"
  by (simp add: hex_val_digit_def hex_digit_def Let_def)

lemma hex_val_hex: "hex_val (hex n) = n"
proof (induction n rule: hex.induct)
  case (1 n)
  show ?case
  proof (cases "n < 16")
    case True
    then show ?thesis by (simp add: hex.simps hex_val_def hex_val_hex_digit)
  next
    case False
    then have "hex_val (hex n) = hex_val (hex (n div 16)) * 16 + n mod 16"
      by (simp add: hex.simps [of n] hex_val_def hex_val_hex_digit)
    with 1 False show ?thesis by simp
  qed
qed

lemma hex_no_dash: "CHR ''-'' \<notin> set (hex n)"
proof (induction n rule: hex.induct)
  case (1 n)
  have "CHR ''-'' \<noteq> hex_digit m" if "m < 16" for m
  proof
    assume "CHR ''-'' = hex_digit m"
    then have "of_char (hex_digit m) = (45 :: nat)" by (simp flip: \<open>CHR ''-'' = hex_digit m\<close>)
    with that show False by (simp add: hex_digit_def split: if_splits)
  qed
  with 1 show ?case by (cases "n < 16") (simp_all add: hex.simps [of n])
qed

lemma next_id_inj: "fst (next_id c d) = fst (next_id c' d') \<Longrightarrow> c = c' \<and> d = d'"
proof -
  assume "fst (next_id c d) = fst (next_id c' d')"
  then have e: "hex (unat c) @ CHR ''-'' # hex d = hex (unat c') @ CHR ''-'' # hex d'"
    by (simp add: next_id_def)
  have t: "takeWhile (\<lambda>x. x \<noteq> CHR ''-'') (hex m @ CHR ''-'' # y) = hex m" for m y
    using hex_no_dash [of m] by (subst takeWhile_append2) auto
  from e have h: "hex (unat c) = hex (unat c')" by (metis t)
  with e have "hex d = hex d'" by simp
  with h show ?thesis by (metis hex_val_hex word_unat_eq_iff)
qed

lemma ids_member: "s \<in> set (ids c ds) \<Longrightarrow> \<exists>i d. i < length ds \<and> s = fst (next_id (c + of_nat i) d)"
proof (induction ds arbitrary: c)
  case (Cons d ds)
  obtain s' where n: "next_id c d = (s', c + 1)" by (simp add: next_id_def)
  show ?case
  proof (cases "s = s'")
    case True
    then show ?thesis using n by (intro exI [of _ 0] exI [of _ d]) simp
  next
    case False
    with Cons.prems n have "s \<in> set (ids (c + 1) ds)" by simp
    from Cons.IH [OF this] obtain i d' where
      "i < length ds" "s = fst (next_id (c + 1 + of_nat i) d')" by blast
    then show ?thesis by (intro exI [of _ "Suc i"] exI [of _ d']) (simp add: add.assoc)
  qed
qed simp

section \<open>Properties\<close>

text \<open>
  C36: request identifiers are unique. Whatever the random draws are, no two of the
  identifiers generated before the 64-bit counter comes round are equal.
\<close>

theorem request_ids_unique:
  assumes "length ds \<le> 2 ^ 64"
  shows "distinct (ids c ds)"
  using assms
proof (induction ds arbitrary: c)
  case (Cons d ds)
  have "fst (next_id c d) \<notin> set (ids (c + 1) ds)"
  proof
    assume "fst (next_id c d) \<in> set (ids (c + 1) ds)"
    then obtain i d' where i: "i < length ds" "fst (next_id c d) = fst (next_id (c + 1 + of_nat i) d')"
      using ids_member by blast
    then have "c = c + of_nat (Suc i)" using next_id_inj by (metis add.assoc of_nat_Suc)
    then have "(of_nat (Suc i) :: 64 word) = 0" using add_cancel_left_right by metis
    then have "unat (of_nat (Suc i) :: 64 word) = 0" by simp
    then have "Suc i mod 2 ^ 64 = 0" unfolding unat_of_nat by simp
    with i(1) Cons.prems show False by simp
  qed
  with Cons show ?case by (simp add: next_id_def)
qed simp

theorem request_ids_unique_witness:
  "ids 254 [5, 5, 5] = [''req-fe-5'', ''req-ff-5'', ''req-100-5''] \<and>
   distinct (ids 254 [5, 5, 5])"
proof -
  have "ids 254 [5, 5, 5] = [''req-fe-5'', ''req-ff-5'', ''req-100-5'']" by code_simp
  moreover have "distinct (ids 254 [5, 5, 5])" by (rule request_ids_unique) simp
  ultimately show ?thesis by blast
qed

end
