(* ===== verification/HealthChecker.thy ===== *)
theory HealthChecker
  imports LoadBalancer Descriptors Logger
begin

text \<open>
  The health checker of src/network/HealthChecker.cpp. One probe is the connect sequence of
  \<open>Descriptors\<close>, one send and one receive of at most 63 bytes; the kernel's answers are
  arguments. The checker shares the backends with the balancers, so a sweep updates the store of
  backends.
\<close>

section \<open>Operations\<close>

record probe_io =
  pr_dial :: dial_io
  pr_sent :: int
  pr_ready :: int
  pr_received :: "string option"

definition healthRequest :: "string \<Rightarrow> Backend \<Rightarrow> string" where
  "healthRequest path b =
     ''GET '' @ path @ '' HTTP/1.1'' @ CRLF @ ''Host: '' @ be_host b @ CRLF @
     ''Connection: close'' @ CRLF @ CRLF"

definition healthyReply :: "string \<Rightarrow> bool" where
  "healthyReply buf =
     (let resp = c_str buf
      in str_find resp ''HTTP/1.1 2'' 0 \<noteq> None \<or> str_find resp ''HTTP/1.0 2'' 0 \<noteq> None)"

text \<open>\<open>pr_received\<close> is \<open>None\<close> for a failed \<^verbatim>\<open>recv\<close> and the empty string for a closed peer.\<close>

definition checkOne :: "probe_io \<Rightarrow> descs \<Rightarrow> bool \<times> descs" where
  "checkOne io os =
     (case dial (pr_dial io) os of
        (fd, os) \<Rightarrow>
          if fd < 0 then (False, os)
          else if pr_sent io < 0 then (False, close_fd fd os)
          else if pr_ready io \<le> 0 then (False, close_fd fd os)
          else (case pr_received io of
                  None \<Rightarrow> (False, close_fd fd os)
                | Some buf \<Rightarrow>
                    if buf = [] then (False, close_fd fd os)
                    else (healthyReply (take 63 buf), close_fd fd os)))"

definition health_event :: "bool \<Rightarrow> Backend \<Rightarrow> log_event" where
  "health_event ok b =
     (INFO, if ok then ''backend became healthy'' else ''backend became unhealthy'',
      [DQUOTE] @ ''backend'' @ [DQUOTE] @ '':'' @ [DQUOTE] @ address b @ [DQUOTE])"

fun sweep :: "probe_io list \<Rightarrow> backends \<Rightarrow> descs \<Rightarrow> backends \<times> descs \<times> log_event list" where
  "sweep (io # ios) (b # bs) os =
     (case checkOne io os of
        (ok, os1) \<Rightarrow>
          (let was = be_healthy b; b' = b\<lparr>be_healthy := ok\<rparr>;
               evs = (if was \<noteq> ok then [health_event ok b] else [])
           in case sweep ios bs os1 of (bs', os2, evs') \<Rightarrow> (b' # bs', os2, evs @ evs')))"
| "sweep ios bs os = (bs, os, [])"

text \<open>The thread: one sweep per round while it is running; a round has an answer script per backend.\<close>

fun health_run :: "probe_io list list \<Rightarrow> backends \<Rightarrow> descs \<Rightarrow> backends \<times> descs \<times> log_event list" where
  "health_run [] bs os = (bs, os, [])"
| "health_run (ios # rounds) bs os =
     (case sweep ios bs os of
        (bs1, os1, evs) \<Rightarrow> (case health_run rounds bs1 os1 of (bs2, os2, evs') \<Rightarrow> (bs2, os2, evs @ evs')))"

section \<open>Lemmas\<close>

definition probe_up :: "probe_io \<Rightarrow> bool" where
  "probe_up io \<longleftrightarrow>
     dl_resolved (pr_dial io) \<and> 0 \<le> dl_socket (pr_dial io) \<and>
     (dl_connect (pr_dial io) = Connected \<or>
      dl_connect (pr_dial io) = InProgress \<and> 0 < dl_ready (pr_dial io) \<and> dl_soError (pr_dial io) = 0) \<and>
     0 \<le> pr_sent io \<and> 0 < pr_ready io \<and>
     (case pr_received io of None \<Rightarrow> False | Some buf \<Rightarrow> buf \<noteq> [] \<and> healthyReply (take 63 buf))"

lemma checkOne_result:
  assumes "fresh_socket (pr_dial io) os"
  shows "checkOne io os = (probe_up io, os)"
  using assms
  by (auto simp: checkOne_def probe_up_def dial_def Let_def fresh_socket_def
      split: connect_result.splits option.splits)

lemma sweep_result:
  assumes "length ios = length bs" and "\<forall>io \<in> set ios. fresh_socket (pr_dial io) os"
  shows "sweep ios bs os =
    (map2 (\<lambda>io b. b\<lparr>be_healthy := probe_up io\<rparr>) ios bs, os,
     concat (map2 (\<lambda>io b. if be_healthy b \<noteq> probe_up io then [health_event (probe_up io) b] else []) ios bs))"
  using assms by (induction ios bs rule: list_induct2) (simp_all add: checkOne_result Let_def)

section \<open>Properties\<close>



end
