(* ===== verification/Config.thy ===== *)
theory Config
  imports Prelude
begin

text \<open>
  The configuration loader of src/config/Config.cpp: the tokenizer, the state machine over the
  lines of the YAML subset, and the validation. The file is its contents, or nothing when it
  cannot be opened. The pointers \<^verbatim>\<open>curGroup\<close> and \<^verbatim>\<open>curRoute\<close> are null or point
  to the last element of their vector, so the model keeps whether they are set.
\<close>

section \<open>Data\<close>

record BackendConfig =
  bc_host :: string
  bc_port :: int

record RouteConfig =
  rc_pathPrefix :: string
  rc_backendGroup :: string
  rc_cacheable :: bool

record BackendGroupConfig =
  gc_name :: string
  gc_strategy :: string
  gc_backends :: "BackendConfig list"

record GatewayConfig =
  cf_listenHost :: string
  cf_listenPort :: int
  cf_workerThreads :: int
  cf_rateLimitCapacity :: int
  cf_rateLimitRefillPerSecond :: real
  cf_cacheCapacity :: nat
  cf_cacheTtlMs :: int
  cf_circuitFailureThreshold :: int
  cf_circuitResetTimeoutMs :: int
  cf_retryMax :: int
  cf_retryBaseDelayMs :: int
  cf_retryMaxDelayMs :: int
  cf_connectTimeoutMs :: int
  cf_backendReadTimeoutMs :: int
  cf_maxResponseBodyBytes :: nat
  cf_maxIdleConnsPerBackend :: nat
  cf_healthCheckIntervalMs :: int
  cf_healthCheckTimeoutMs :: int
  cf_healthCheckPath :: string
  cf_backendGroups :: "BackendGroupConfig list"
  cf_routes :: "RouteConfig list"
  cf_metricsPort :: int

definition GatewayConfig_init :: GatewayConfig where
  "GatewayConfig_init =
     \<lparr>cf_listenHost = ''0.0.0.0'', cf_listenPort = 8080, cf_workerThreads = 4,
      cf_rateLimitCapacity = 100, cf_rateLimitRefillPerSecond = 50,
      cf_cacheCapacity = 1000, cf_cacheTtlMs = 5000,
      cf_circuitFailureThreshold = 5, cf_circuitResetTimeoutMs = 10000,
      cf_retryMax = 2, cf_retryBaseDelayMs = 50, cf_retryMaxDelayMs = 1000,
      cf_connectTimeoutMs = 1000, cf_backendReadTimeoutMs = 3000,
      cf_maxResponseBodyBytes = 10 * 1024 * 1024, cf_maxIdleConnsPerBackend = 16,
      cf_healthCheckIntervalMs = 5000, cf_healthCheckTimeoutMs = 1000,
      cf_healthCheckPath = ''/health'', cf_backendGroups = [], cf_routes = [],
      cf_metricsPort = 9090\<rparr>"

definition RouteConfig_init :: RouteConfig where
  "RouteConfig_init = \<lparr>rc_pathPrefix = [], rc_backendGroup = [], rc_cacheable = False\<rparr>"

definition BackendConfig_init :: BackendConfig where
  "BackendConfig_init = \<lparr>bc_host = [], bc_port = 0\<rparr>"

definition BackendGroupConfig_init :: BackendGroupConfig where
  "BackendGroupConfig_init = \<lparr>gc_name = [], gc_strategy = ''round_robin'', gc_backends = []\<rparr>"

datatype config_error =
    CannotOpen | InvalidValues | PortsEqual | NothingToServe | InvalidGroup | InvalidBackend | InvalidRoute

section \<open>Lines\<close>

record Line =
  ln_indent :: int
  ln_content :: string

definition blank :: "char \<Rightarrow> bool" where
  "blank c \<longleftrightarrow> c = SP \<or> c = TAB \<or> c = CR"

definition trim :: "string \<Rightarrow> string" where
  "trim s =
     (case find_first (\<lambda>c. \<not> blank c) s of
        None \<Rightarrow> []
      | Some a \<Rightarrow>
          (case find_last (\<lambda>c. \<not> blank c) s of
             None \<Rightarrow> []
           | Some b \<Rightarrow> substr s a (b - a + 1)))"

definition stripComment :: "string \<Rightarrow> string" where
  "stripComment s =
     (case find_first (\<lambda>c. c = CHR ''#'') s of None \<Rightarrow> s | Some h \<Rightarrow> substr s 0 h)"

fun getlines :: "string \<Rightarrow> string list" where
  "getlines [] = []"
| "getlines (c # cs) =
     (if c = LF then [] # getlines cs
      else case getlines cs of [] \<Rightarrow> [[c]] | l # ls \<Rightarrow> (c # l) # ls)"

definition token_line :: "string \<Rightarrow> Line option" where
  "token_line raw =
     (let noComment = stripComment raw;
          indent = length (takeWhile (\<lambda>c. c = SP) noComment);
          content = trim noComment
      in if content = [] then None else Some \<lparr>ln_indent = int indent, ln_content = content\<rparr>)"

definition tokenize :: "string \<Rightarrow> Line list" where
  "tokenize s = List.map_filter token_line (getlines s)"

definition splitKv :: "string \<Rightarrow> string \<times> string" where
  "splitKv s =
     (case find_first (\<lambda>c. c = CHR '':'') s of
        None \<Rightarrow> (trim s, [])
      | Some colon \<Rightarrow> (trim (substr s 0 colon), trim (substr_from s (colon + 1))))"

section \<open>Numbers\<close>

definition toInt :: "string \<Rightarrow> int \<Rightarrow> int" where
  "toInt s def =
     (if s = [] then def else case stoi s of Throw \<Rightarrow> def | Ret v \<Rightarrow> v)"

text \<open>
  \<^verbatim>\<open>std::stod\<close> on decimal notation: sign, digits, fraction, exponent, the value an exact
  real; out of the range of \<^verbatim>\<open>double\<close> it throws. The spellings \<^verbatim>\<open>inf\<close>,
  \<^verbatim>\<open>nan\<close> and hexadecimal floats are not modelled.
\<close>

definition exponent_part :: "string \<Rightarrow> int" where
  "exponent_part s =
     (case s of
        [] \<Rightarrow> 0
      | c # t \<Rightarrow>
          if c = CHR ''e'' \<or> c = CHR ''E'' then
            (let neg = (t \<noteq> [] \<and> hd t = CHR ''-'');
                 u = (if t \<noteq> [] \<and> (hd t = CHR ''-'' \<or> hd t = CHR ''+'') then tl t else t);
                 n = int (digits_val (takeWhile isdigit u))
             in if neg then - n else n)
          else 0)"

definition strtod :: "string \<Rightarrow> real option" where
  "strtod s =
     (let t = dropWhile isspace s;
          neg = (t \<noteq> [] \<and> hd t = CHR ''-'');
          u = (if t \<noteq> [] \<and> (hd t = CHR ''-'' \<or> hd t = CHR ''+'') then tl t else t);
          whole = takeWhile isdigit u;
          v = dropWhile isdigit u;
          dot = (v \<noteq> [] \<and> hd v = CHR ''.'');
          frac = (if dot then takeWhile isdigit (tl v) else []);
          w = (if dot then dropWhile isdigit (tl v) else v);
          m = real (digits_val (whole @ frac)) * 10 powi (exponent_part w - int (length frac))
      in if whole @ frac = [] then None else Some (if neg then - m else m))"

definition stod :: "string \<Rightarrow> real outcome" where
  "stod s =
     (case strtod (c_str s) of
        None \<Rightarrow> Throw
      | Some v \<Rightarrow> if v = 0 \<or> (\<bar>v\<bar> < 2 ^ 1024 \<and> 1 / 2 ^ 1022 \<le> \<bar>v\<bar>) then Ret v else Throw)"

definition toDouble :: "string \<Rightarrow> real \<Rightarrow> real" where
  "toDouble s def =
     (if s = [] then def else case stod s of Throw \<Rightarrow> def | Ret v \<Rightarrow> v)"

text \<open>\<^verbatim>\<open>static_cast<size_t>\<close> of an \<^verbatim>\<open>int\<close> and back.\<close>

definition to_size :: "int \<Rightarrow> nat" where
  "to_size i = nat (i mod 2 ^ 64)"

definition size_to_int :: "nat \<Rightarrow> int" where
  "size_to_int n = (int n + 2 ^ 31) mod 2 ^ 32 - 2 ^ 31"

section \<open>The state machine over lines\<close>

record Loader =
  ld_cfg :: GatewayConfig
  ld_section :: string
  ld_curGroup :: bool
  ld_curRoute :: bool
  ld_inBackendsList :: bool
  ld_groupIndent :: int
  ld_routeListIndent :: int

definition Loader_init :: Loader where
  "Loader_init =
     \<lparr>ld_cfg = GatewayConfig_init, ld_section = [], ld_curGroup = False, ld_curRoute = False,
      ld_inBackendsList = False, ld_groupIndent = -1, ld_routeListIndent = -1\<rparr>"

definition set_scalar :: "string \<Rightarrow> string \<Rightarrow> string \<Rightarrow> GatewayConfig \<Rightarrow> GatewayConfig" where
  "set_scalar section key val cfg =
     (if section = ''listen'' then
        if key = ''host'' then cfg\<lparr>cf_listenHost := val\<rparr>
        else if key = ''port'' then cfg\<lparr>cf_listenPort := toInt val (cf_listenPort cfg)\<rparr>
        else cfg
      else if section = ''rate_limit'' then
        if key = ''capacity'' then cfg\<lparr>cf_rateLimitCapacity := toInt val (cf_rateLimitCapacity cfg)\<rparr>
        else if key = ''refill_per_second''
        then cfg\<lparr>cf_rateLimitRefillPerSecond := toDouble val (cf_rateLimitRefillPerSecond cfg)\<rparr>
        else cfg
      else if section = ''cache'' then
        if key = ''capacity''
        then cfg\<lparr>cf_cacheCapacity := to_size (toInt val (size_to_int (cf_cacheCapacity cfg)))\<rparr>
        else if key = ''ttl_ms'' then cfg\<lparr>cf_cacheTtlMs := toInt val (cf_cacheTtlMs cfg)\<rparr>
        else cfg
      else if section = ''circuit_breaker'' then
        if key = ''failure_threshold''
        then cfg\<lparr>cf_circuitFailureThreshold := toInt val (cf_circuitFailureThreshold cfg)\<rparr>
        else if key = ''reset_timeout_ms''
        then cfg\<lparr>cf_circuitResetTimeoutMs := toInt val (cf_circuitResetTimeoutMs cfg)\<rparr>
        else cfg
      else if section = ''retry'' then
        if key = ''max_retries'' then cfg\<lparr>cf_retryMax := toInt val (cf_retryMax cfg)\<rparr>
        else if key = ''base_delay_ms'' then cfg\<lparr>cf_retryBaseDelayMs := toInt val (cf_retryBaseDelayMs cfg)\<rparr>
        else if key = ''max_delay_ms'' then cfg\<lparr>cf_retryMaxDelayMs := toInt val (cf_retryMaxDelayMs cfg)\<rparr>
        else cfg
      else if section = ''connection'' then
        if key = ''connect_timeout_ms'' then cfg\<lparr>cf_connectTimeoutMs := toInt val (cf_connectTimeoutMs cfg)\<rparr>
        else if key = ''backend_read_timeout_ms''
        then cfg\<lparr>cf_backendReadTimeoutMs := toInt val (cf_backendReadTimeoutMs cfg)\<rparr>
        else if key = ''max_response_body_bytes''
        then cfg\<lparr>cf_maxResponseBodyBytes := to_size (toInt val (size_to_int (cf_maxResponseBodyBytes cfg)))\<rparr>
        else if key = ''max_idle_per_backend''
        then cfg\<lparr>cf_maxIdleConnsPerBackend := to_size (toInt val (size_to_int (cf_maxIdleConnsPerBackend cfg)))\<rparr>
        else cfg
      else if section = ''health_check'' then
        if key = ''interval_ms'' then cfg\<lparr>cf_healthCheckIntervalMs := toInt val (cf_healthCheckIntervalMs cfg)\<rparr>
        else if key = ''timeout_ms'' then cfg\<lparr>cf_healthCheckTimeoutMs := toInt val (cf_healthCheckTimeoutMs cfg)\<rparr>
        else if key = ''path'' then cfg\<lparr>cf_healthCheckPath := val\<rparr>
        else cfg
      else cfg)"

definition map_last :: "('a \<Rightarrow> 'a) \<Rightarrow> 'a list \<Rightarrow> 'a list" where
  "map_last f xs = (if xs = [] then [] else butlast xs @ [f (last xs)])"

definition upd_group :: "(BackendGroupConfig \<Rightarrow> BackendGroupConfig) \<Rightarrow> Loader \<Rightarrow> Loader" where
  "upd_group f l =
     l\<lparr>ld_cfg := (ld_cfg l)\<lparr>cf_backendGroups := map_last f (cf_backendGroups (ld_cfg l))\<rparr>\<rparr>"

definition upd_backend :: "(BackendConfig \<Rightarrow> BackendConfig) \<Rightarrow> Loader \<Rightarrow> Loader" where
  "upd_backend f l = upd_group (\<lambda>g. g\<lparr>gc_backends := map_last f (gc_backends g)\<rparr>) l"

definition upd_route :: "(RouteConfig \<Rightarrow> RouteConfig) \<Rightarrow> Loader \<Rightarrow> Loader" where
  "upd_route f l = l\<lparr>ld_cfg := (ld_cfg l)\<lparr>cf_routes := map_last f (cf_routes (ld_cfg l))\<rparr>\<rparr>"

definition isListItem :: "Line \<Rightarrow> bool" where
  "isListItem li \<longleftrightarrow> prefix ''- '' (ln_content li)"

definition group_line :: "Line \<Rightarrow> Loader \<Rightarrow> Loader" where
  "group_line li l =
     (if isListItem li \<and> (ld_groupIndent l = -1 \<or> ln_indent li = ld_groupIndent l) then
        (let (key, val) = splitKv (substr_from (ln_content li) 2);
             l = l\<lparr>ld_groupIndent := ln_indent li, ld_curGroup := True, ld_inBackendsList := False,
                   ld_cfg := (ld_cfg l)\<lparr>cf_backendGroups :=
                     cf_backendGroups (ld_cfg l) @ [BackendGroupConfig_init]\<rparr>\<rparr>
         in if key = ''name'' then upd_group (\<lambda>g. g\<lparr>gc_name := val\<rparr>) l else l)
      else if isListItem li \<and> ld_curGroup l \<and> ld_inBackendsList l \<and> ln_indent li > ld_groupIndent l then
        (let (k2, v2) = splitKv (substr_from (ln_content li) 2);
             l = upd_group (\<lambda>g. g\<lparr>gc_backends := gc_backends g @ [BackendConfig_init]\<rparr>) l
         in if k2 = ''host'' then upd_backend (\<lambda>b. b\<lparr>bc_host := v2\<rparr>) l else l)
      else if ld_curGroup l then
        (let (key, val) = splitKv (ln_content li);
             noBackends = (gc_backends (last (cf_backendGroups (ld_cfg l))) = [])
         in if key = ''name'' then upd_group (\<lambda>g. g\<lparr>gc_name := val\<rparr>) l
            else if key = ''strategy'' then upd_group (\<lambda>g. g\<lparr>gc_strategy := val\<rparr>) l
            else if key = ''backends'' then l\<lparr>ld_inBackendsList := True\<rparr>
            else if ld_inBackendsList l \<and> key = ''host'' \<and> \<not> noBackends
            then upd_backend (\<lambda>b. b\<lparr>bc_host := val\<rparr>) l
            else if ld_inBackendsList l \<and> key = ''port'' \<and> \<not> noBackends
            then upd_backend (\<lambda>b. b\<lparr>bc_port := toInt val 0\<rparr>) l
            else l)
      else l)"

definition route_line :: "Line \<Rightarrow> Loader \<Rightarrow> Loader" where
  "route_line li l =
     (if isListItem li \<and> (ld_routeListIndent l = -1 \<or> ln_indent li \<le> ld_routeListIndent l) then
        (let (key, val) = splitKv (substr_from (ln_content li) 2);
             l = l\<lparr>ld_routeListIndent := ln_indent li, ld_curRoute := True,
                   ld_cfg := (ld_cfg l)\<lparr>cf_routes := cf_routes (ld_cfg l) @ [RouteConfig_init]\<rparr>\<rparr>
         in if key = ''path_prefix'' then upd_route (\<lambda>r. r\<lparr>rc_pathPrefix := val\<rparr>) l else l)
      else if ld_curRoute l then
        (let (key, val) = splitKv (ln_content li)
         in if key = ''path_prefix'' then upd_route (\<lambda>r. r\<lparr>rc_pathPrefix := val\<rparr>) l
            else if key = ''backend_group'' then upd_route (\<lambda>r. r\<lparr>rc_backendGroup := val\<rparr>) l
            else if key = ''cacheable'' then upd_route (\<lambda>r. r\<lparr>rc_cacheable := (val = ''true'')\<rparr>) l
            else l)
      else l)"

definition top_line :: "Line \<Rightarrow> Loader \<Rightarrow> Loader" where
  "top_line li l =
     (let l = l\<lparr>ld_curGroup := False, ld_curRoute := False, ld_inBackendsList := False,
                ld_groupIndent := -1, ld_routeListIndent := -1\<rparr>;
          (key, val) = splitKv (ln_content li)
      in if key = ''workers''
         then l\<lparr>ld_cfg := (ld_cfg l)\<lparr>cf_workerThreads := toInt val (cf_workerThreads (ld_cfg l))\<rparr>,
                ld_section := []\<rparr>
         else if key = ''metrics_port''
         then l\<lparr>ld_cfg := (ld_cfg l)\<lparr>cf_metricsPort := toInt val (cf_metricsPort (ld_cfg l))\<rparr>,
                ld_section := []\<rparr>
         else l\<lparr>ld_section := key\<rparr>)"

definition load_line :: "Line \<Rightarrow> Loader \<Rightarrow> Loader" where
  "load_line li l =
     (if ln_indent li = 0 then top_line li l
      else if ld_section l = ''backend_groups'' then group_line li l
      else if ld_section l = ''routes'' then route_line li l
      else (let (key, val) = splitKv (ln_content li)
            in l\<lparr>ld_cfg := set_scalar (ld_section l) key val (ld_cfg l)\<rparr>))"

section \<open>Validation\<close>

definition bad_values :: "GatewayConfig \<Rightarrow> bool" where
  "bad_values cfg \<longleftrightarrow>
     cf_listenPort cfg \<le> 0 \<or> cf_listenPort cfg > 65535 \<or> cf_metricsPort cfg \<le> 0 \<or>
     cf_metricsPort cfg > 65535 \<or> cf_workerThreads cfg \<le> 0 \<or> cf_rateLimitCapacity cfg \<le> 0 \<or>
     cf_rateLimitRefillPerSecond cfg \<le> 0 \<or> cf_maxResponseBodyBytes cfg = 0 \<or>
     cf_backendReadTimeoutMs cfg \<le> 0 \<or> cf_connectTimeoutMs cfg \<le> 0"

definition bad_group :: "BackendGroupConfig \<Rightarrow> bool" where
  "bad_group g \<longleftrightarrow>
     gc_name g = [] \<or> gc_backends g = [] \<or>
     (gc_strategy g \<noteq> ''round_robin'' \<and> gc_strategy g \<noteq> ''least_connections'')"

definition bad_backend :: "BackendConfig \<Rightarrow> bool" where
  "bad_backend b \<longleftrightarrow> bc_host b = [] \<or> bc_port b \<le> 0 \<or> bc_port b > 65535"

definition bad_route :: "RouteConfig \<Rightarrow> bool" where
  "bad_route r \<longleftrightarrow> rc_pathPrefix r = [] \<or> rc_pathPrefix r ! 0 \<noteq> CHR ''/'' \<or> rc_backendGroup r = []"

fun check_groups :: "BackendGroupConfig list \<Rightarrow> config_error option" where
  "check_groups [] = None"
| "check_groups (g # gs) =
     (if bad_group g then Some InvalidGroup
      else if list_ex bad_backend (gc_backends g) then Some InvalidBackend
      else check_groups gs)"

definition validate :: "GatewayConfig \<Rightarrow> config_error option" where
  "validate cfg =
     (if bad_values cfg then Some InvalidValues
      else if cf_listenPort cfg = cf_metricsPort cfg then Some PortsEqual
      else if cf_backendGroups cfg = [] \<or> cf_routes cfg = [] then Some NothingToServe
      else case check_groups (cf_backendGroups cfg) of
             Some e \<Rightarrow> Some e
           | None \<Rightarrow> if list_ex bad_route (cf_routes cfg) then Some InvalidRoute else None)"

definition loadFromFile :: "string option \<Rightarrow> config_error + GatewayConfig" where
  "loadFromFile file =
     (case file of
        None \<Rightarrow> Inl CannotOpen
      | Some s \<Rightarrow>
          (let cfg = ld_cfg (fold load_line (tokenize s) Loader_init)
           in case validate cfg of Some e \<Rightarrow> Inl e | None \<Rightarrow> Inr cfg))"

section \<open>Writing a configuration\<close>

text \<open>
  The reference for what the loader reads: the layout of gateway.yaml, written out from a
  configuration.
\<close>

definition kv :: "int \<Rightarrow> string \<Rightarrow> string \<Rightarrow> Line" where
  "kv n k v = \<lparr>ln_indent = n, ln_content = k @ (if v = [] then '':'' else '': '' @ v)\<rparr>"

definition item :: "int \<Rightarrow> string \<Rightarrow> string \<Rightarrow> Line" where
  "item n k v = kv n (''- '' @ k) v"

definition scalar_lines :: "GatewayConfig \<Rightarrow> Line list" where
  "scalar_lines c =
     [kv 0 ''listen'' [], kv 2 ''host'' (cf_listenHost c), kv 2 ''port'' (int_to_string (cf_listenPort c)),
      kv 0 ''workers'' (int_to_string (cf_workerThreads c)),
      kv 0 ''metrics_port'' (int_to_string (cf_metricsPort c)),
      kv 0 ''rate_limit'' [], kv 2 ''capacity'' (int_to_string (cf_rateLimitCapacity c)),
      kv 2 ''refill_per_second'' (nat_to_string (nat \<lfloor>cf_rateLimitRefillPerSecond c\<rfloor>)),
      kv 0 ''cache'' [], kv 2 ''capacity'' (nat_to_string (cf_cacheCapacity c)),
      kv 2 ''ttl_ms'' (int_to_string (cf_cacheTtlMs c)),
      kv 0 ''circuit_breaker'' [],
      kv 2 ''failure_threshold'' (int_to_string (cf_circuitFailureThreshold c)),
      kv 2 ''reset_timeout_ms'' (int_to_string (cf_circuitResetTimeoutMs c)),
      kv 0 ''retry'' [], kv 2 ''max_retries'' (int_to_string (cf_retryMax c)),
      kv 2 ''base_delay_ms'' (int_to_string (cf_retryBaseDelayMs c)),
      kv 2 ''max_delay_ms'' (int_to_string (cf_retryMaxDelayMs c)),
      kv 0 ''connection'' [], kv 2 ''connect_timeout_ms'' (int_to_string (cf_connectTimeoutMs c)),
      kv 2 ''backend_read_timeout_ms'' (int_to_string (cf_backendReadTimeoutMs c)),
      kv 2 ''max_response_body_bytes'' (nat_to_string (cf_maxResponseBodyBytes c)),
      kv 2 ''max_idle_per_backend'' (nat_to_string (cf_maxIdleConnsPerBackend c)),
      kv 0 ''health_check'' [], kv 2 ''interval_ms'' (int_to_string (cf_healthCheckIntervalMs c)),
      kv 2 ''timeout_ms'' (int_to_string (cf_healthCheckTimeoutMs c)),
      kv 2 ''path'' (cf_healthCheckPath c)]"

definition backend_lines :: "BackendConfig \<Rightarrow> Line list" where
  "backend_lines b = [item 6 ''host'' (bc_host b), kv 8 ''port'' (int_to_string (bc_port b))]"

definition group_lines :: "BackendGroupConfig \<Rightarrow> Line list" where
  "group_lines g =
     [item 2 ''name'' (gc_name g), kv 4 ''strategy'' (gc_strategy g), kv 4 ''backends'' []] @
     concat (map backend_lines (gc_backends g))"

definition route_lines :: "RouteConfig \<Rightarrow> Line list" where
  "route_lines r =
     [item 2 ''path_prefix'' (rc_pathPrefix r), kv 4 ''backend_group'' (rc_backendGroup r),
      kv 4 ''cacheable'' (if rc_cacheable r then ''true'' else ''false'')]"

definition config_lines :: "GatewayConfig \<Rightarrow> Line list" where
  "config_lines c =
     scalar_lines c @ [kv 0 ''backend_groups'' []] @ concat (map group_lines (cf_backendGroups c)) @
     [kv 0 ''routes'' []] @ concat (map route_lines (cf_routes c))"

definition line_text :: "Line \<Rightarrow> string" where
  "line_text li = replicate (nat (ln_indent li)) SP @ ln_content li @ [LF]"

definition render :: "GatewayConfig \<Rightarrow> string" where
  "render c = concat (map line_text (config_lines c))"

text \<open>
  Values that survive being written: texts without line breaks, comments and surrounding blanks,
  integers in range, a refill rate that is a whole number.
\<close>

definition clean :: "string \<Rightarrow> bool" where
  "clean v \<longleftrightarrow> v \<noteq> [] \<and> \<not> blank (hd v) \<and> \<not> blank (last v) \<and> CHR ''#'' \<notin> set v \<and> LF \<notin> set v"

definition writable :: "GatewayConfig \<Rightarrow> bool" where
  "writable c \<longleftrightarrow>
     clean (cf_listenHost c) \<and> clean (cf_healthCheckPath c) \<and>
     list_all int_range
       [cf_listenPort c, cf_workerThreads c, cf_metricsPort c, cf_rateLimitCapacity c, cf_cacheTtlMs c,
        cf_circuitFailureThreshold c, cf_circuitResetTimeoutMs c, cf_retryMax c, cf_retryBaseDelayMs c,
        cf_retryMaxDelayMs c, cf_connectTimeoutMs c, cf_backendReadTimeoutMs c,
        cf_healthCheckIntervalMs c, cf_healthCheckTimeoutMs c, int (cf_cacheCapacity c),
        int (cf_maxResponseBodyBytes c), int (cf_maxIdleConnsPerBackend c)] \<and>
     cf_rateLimitRefillPerSecond c = real_of_int \<lfloor>cf_rateLimitRefillPerSecond c\<rfloor> \<and>
     int_range \<lfloor>cf_rateLimitRefillPerSecond c\<rfloor> \<and> 0 < cf_rateLimitRefillPerSecond c \<and>
     list_all (\<lambda>g. clean (gc_name g) \<and> clean (gc_strategy g) \<and>
       list_all (\<lambda>b. clean (bc_host b) \<and> int_range (bc_port b)) (gc_backends g)) (cf_backendGroups c) \<and>
     list_all (\<lambda>r. clean (rc_pathPrefix r) \<and> clean (rc_backendGroup r)) (cf_routes c)"

section \<open>Reading back\<close>

lemma trim_clean: "clean v \<Longrightarrow> trim v = v"
proof -
  assume c: "clean v"
  then obtain a v' where a: "v = a # v'" "\<not> blank a" by (cases v) (auto simp: clean_def)
  obtain v'' z where z: "v = v'' @ [z]" "\<not> blank z"
    using c by (metis append_butlast_last_id clean_def)
  have "find_first (\<lambda>c. \<not> blank c) v = Some 0" using a by simp
  moreover have "find_last (\<lambda>c. \<not> blank c) v = Some (length v'')"
    using find_last_split [of "[]" "\<lambda>c. \<not> blank c" z v''] z by simp
  ultimately show ?thesis using z(1) by (simp add: trim_def substr_def)
qed

lemma trim_blank_prefix: "(\<forall>c \<in> set p. blank c) \<Longrightarrow> trim (p @ s) = trim s"
proof (induction p)
  case (Cons c p)
  have "trim (c # s) = trim s" if "blank c" for s
  proof (cases "find_first (\<lambda>c. \<not> blank c) s")
    case None
    then have "find_first (\<lambda>c. \<not> blank c) (c # s) = None" using that by simp
    with None show ?thesis by (simp add: trim_def)
  next
    case (Some a)
    then have "\<exists>x \<in> set s. \<not> blank x" by (metis find_first_SomeD nth_mem)
    then obtain b where b: "find_last (\<lambda>c. \<not> blank c) s = Some b"
      using find_last_None_iff by (cases "find_last (\<lambda>c. \<not> blank c) s") auto
    with Some that show ?thesis by (simp add: trim_def substr_def)
  qed
  with Cons show ?case by simp
qed simp

lemma stripComment_clean: "CHR ''#'' \<notin> set s \<Longrightarrow> stripComment s = s"
proof -
  assume "CHR ''#'' \<notin> set s"
  then have "find_first (\<lambda>c. c = CHR ''#'') s = None" by (auto simp: find_first_None_iff)
  then show ?thesis by (simp add: stripComment_def)
qed

lemma token_line_clean:
  assumes "clean c" shows "token_line (replicate n SP @ c) = Some \<lparr>ln_indent = int n, ln_content = c\<rparr>"
proof -
  have s: "stripComment (replicate n SP @ c) = replicate n SP @ c"
    using assms by (intro stripComment_clean) (auto simp: clean_def)
  have t: "trim (replicate n SP @ c) = c"
    using trim_blank_prefix [of "replicate n SP" c] trim_clean [OF assms] by (simp add: blank_def)
  obtain a c' where "c = a # c'" "a \<noteq> SP" using assms by (cases c) (auto simp: clean_def blank_def)
  then have "takeWhile (\<lambda>c. c = SP) (replicate n SP @ c) = replicate n SP"
    by (subst takeWhile_append2) auto
  with s t assms show ?thesis by (simp add: token_line_def clean_def Let_def)
qed

lemma getlines_line: "LF \<notin> set l \<Longrightarrow> getlines (l @ LF # rest) = l # getlines rest"
  by (induction l) auto

lemma tokenize_lines:
  "\<forall>li \<in> set ls. clean (ln_content li) \<and> 0 \<le> ln_indent li \<Longrightarrow>
   tokenize (concat (map line_text ls)) = ls"
proof (induction ls)
  case Nil
  then show ?case by (simp add: tokenize_def List.map_filter_def)
next
  case (Cons li ls)
  have "LF \<notin> set (replicate (nat (ln_indent li)) SP @ ln_content li)"
    using Cons.prems by (auto simp: clean_def)
  from getlines_line [OF this, of "concat (map line_text ls)"]
  have "getlines (concat (map line_text (li # ls))) =
    (replicate (nat (ln_indent li)) SP @ ln_content li) # getlines (concat (map line_text ls))"
    by (simp add: line_text_def)
  with Cons token_line_clean [of "ln_content li" "nat (ln_indent li)"] show ?case
    by (simp add: tokenize_def List.map_filter_simps)
qed

lemma splitKv_kv:
  assumes "clean k" and "CHR '':'' \<notin> set k" and "v = [] \<or> clean v"
  shows "splitKv (k @ (if v = [] then '':'' else '': '' @ v)) = (k, v)"
proof -
  let ?r = "if v = [] then [] else SP # v"
  have c: "k @ (if v = [] then '':'' else '': '' @ v) = k @ CHR '':'' # ?r" by simp
  have "find_first (\<lambda>c. c = CHR '':'') (k @ CHR '':'' # ?r) = Some (length k)"
    using assms(2) by (intro find_first_split) auto
  moreover have "trim ?r = v"
    using assms(3) trim_blank_prefix [of "[SP]" v] trim_clean [of v]
    by (auto simp: blank_def trim_def [of "[]"])
  ultimately show ?thesis
    using trim_clean [OF assms(1)] unfolding c by (simp add: splitKv_def substr_def substr_from_def)
qed

lemma kv_clean:
  assumes "clean k" and "v = [] \<or> clean v" shows "clean (ln_content (kv n k v))"
  using assms by (auto simp: kv_def clean_def blank_def)

lemma digit_facts: "isdigit c \<Longrightarrow> \<not> isspace c \<and> c \<noteq> CHR ''-'' \<and> c \<noteq> CHR ''+'' \<and> c \<noteq> CHR 0x00 \<and>
  c \<noteq> CHR ''#'' \<and> c \<noteq> LF \<and> \<not> blank c \<and> c \<noteq> CHR ''.''"
  by (auto simp: isdigit_def isspace_def blank_def Let_def)

lemma nat_string_clean: "clean (nat_to_string n)"
proof -
  have "hd (nat_to_string n) \<in> set (nat_to_string n)" "last (nat_to_string n) \<in> set (nat_to_string n)"
    by simp_all
  then show ?thesis using nat_string_all digit_facts unfolding clean_def by (metis nat_to_string_nonempty)
qed

lemma int_string_clean: "clean (int_to_string i)"
  using nat_string_clean [of "nat i"] nat_string_clean [of "nat (- i)"]
  by (auto simp: int_to_string_def clean_def blank_def)

lemma toInt_int: "int_range i \<Longrightarrow> toInt (int_to_string i) d = i"
  using stoi_int int_string_clean [of i] by (auto simp: toInt_def clean_def)

lemma toInt_nat: "int_range (int n) \<Longrightarrow> to_size (toInt (nat_to_string n) d) = n"
  using toInt_int [of "int n" d] by (simp add: int_to_string_def to_size_def int_range_def)

lemma strtod_nat: "strtod (nat_to_string n) = Some (real n)"
  by (simp add: strtod_def Let_def exponent_part_def digits_val_nat_to_string)

lemma toDouble_nat:
  assumes "0 < n" and "int_range (int n)" shows "toDouble (nat_to_string n) d = real n"
proof -
  have "real n < 2 ^ 31" using assms(2) by (simp add: int_range_def)
  also have "\<dots> \<le> 2 ^ 1024" by (rule power_increasing) simp_all
  finally have "real n < 2 ^ 1024" .
  moreover have "1 / 2 ^ 1022 \<le> (1 :: real)" by (rule divide_le_eq_1_pos [THEN iffD2]) simp_all
  then have "1 / 2 ^ 1022 \<le> real n" using assms(1) by linarith
  ultimately have "stod (nat_to_string n) = Ret (real n)"
    unfolding stod_def c_str_digits [OF nat_string_all] strtod_nat by auto
  then show ?thesis by (simp add: toDouble_def)
qed

subsection \<open>One line\<close>

definition key_ok :: "string \<Rightarrow> bool" where
  "key_ok k \<longleftrightarrow> clean k \<and> CHR '':'' \<notin> set k"

definition val_ok :: "string \<Rightarrow> bool" where
  "val_ok v \<longleftrightarrow> v = [] \<or> clean v"

lemma val_ok_simps [simp]: "val_ok []" "clean v \<Longrightarrow> val_ok v" "val_ok (int_to_string i)" "val_ok (nat_to_string n)"
  by (simp_all add: val_ok_def int_string_clean nat_string_clean)

lemma keys_ok [simp]:
  "key_ok ''listen''" "key_ok ''host''" "key_ok ''port''" "key_ok ''workers''" "key_ok ''metrics_port''"
  "key_ok ''rate_limit''" "key_ok ''capacity''" "key_ok ''refill_per_second''" "key_ok ''cache''"
  "key_ok ''ttl_ms''" "key_ok ''circuit_breaker''" "key_ok ''failure_threshold''"
  "key_ok ''reset_timeout_ms''" "key_ok ''retry''" "key_ok ''max_retries''" "key_ok ''base_delay_ms''"
  "key_ok ''max_delay_ms''" "key_ok ''connection''" "key_ok ''connect_timeout_ms''"
  "key_ok ''backend_read_timeout_ms''" "key_ok ''max_response_body_bytes''"
  "key_ok ''max_idle_per_backend''" "key_ok ''health_check''" "key_ok ''interval_ms''"
  "key_ok ''timeout_ms''" "key_ok ''path''" "key_ok ''backend_groups''" "key_ok ''name''"
  "key_ok ''strategy''" "key_ok ''backends''" "key_ok ''routes''" "key_ok ''path_prefix''"
  "key_ok ''backend_group''" "key_ok ''cacheable''"
  by code_simp+

lemma kv_simps [simp]:
  "ln_indent (kv n k v) = n" "ln_indent (item n k v) = n"
  by (simp_all add: kv_def item_def)

lemma splitKv_line [simp]:
  "key_ok k \<Longrightarrow> val_ok v \<Longrightarrow> splitKv (ln_content (kv n k v)) = (k, v)"
  using splitKv_kv by (simp add: kv_def key_ok_def val_ok_def)

lemma splitKv_item [simp]:
  "key_ok k \<Longrightarrow> val_ok v \<Longrightarrow> splitKv (substr_from (ln_content (item n k v)) 2) = (k, v)"
  using splitKv_kv by (simp add: kv_def item_def key_ok_def val_ok_def substr_from_def)

lemma isListItem_item [simp]: "isListItem (item n k v)"
  by (simp add: isListItem_def item_def kv_def)

lemma isListItem_kv [simp]: "key_ok k \<Longrightarrow> hd k \<noteq> CHR ''-'' \<Longrightarrow> \<not> isListItem (kv n k v)"
  by (cases k) (auto simp: isListItem_def kv_def key_ok_def clean_def)

definition reset_loader :: "string \<Rightarrow> Loader \<Rightarrow> Loader" where
  "reset_loader section l =
     l\<lparr>ld_section := section, ld_curGroup := False, ld_curRoute := False, ld_inBackendsList := False,
       ld_groupIndent := -1, ld_routeListIndent := -1\<rparr>"

definition upd_cfg :: "(GatewayConfig \<Rightarrow> GatewayConfig) \<Rightarrow> Loader \<Rightarrow> Loader" where
  "upd_cfg f l = l\<lparr>ld_cfg := f (ld_cfg l)\<rparr>"

lemma upd_cfg_simps [simp]:
  "upd_cfg f (upd_cfg g l) = upd_cfg (\<lambda>c. f (g c)) l"
  "reset_loader s (upd_cfg f l) = upd_cfg f (reset_loader s l)"
  "reset_loader s (reset_loader s' l) = reset_loader s l"
  "ld_section (upd_cfg f l) = ld_section l" "ld_section (reset_loader s l) = s"
  "ld_cfg (upd_cfg f l) = f (ld_cfg l)" "ld_cfg (reset_loader s l) = ld_cfg l"
  by (simp_all add: upd_cfg_def reset_loader_def)

lemma load_section:
  "key_ok k \<Longrightarrow> k \<noteq> ''workers'' \<Longrightarrow> k \<noteq> ''metrics_port'' \<Longrightarrow> load_line (kv 0 k []) l = reset_loader k l"
  by (simp add: load_line_def top_line_def Let_def reset_loader_def)

lemma load_workers:
  "val_ok v \<Longrightarrow> load_line (kv 0 ''workers'' v) l =
     upd_cfg (\<lambda>c. c\<lparr>cf_workerThreads := toInt v (cf_workerThreads c)\<rparr>) (reset_loader [] l)"
  "val_ok v \<Longrightarrow> load_line (kv 0 ''metrics_port'' v) l =
     upd_cfg (\<lambda>c. c\<lparr>cf_metricsPort := toInt v (cf_metricsPort c)\<rparr>) (reset_loader [] l)"
  by (simp_all add: load_line_def top_line_def Let_def reset_loader_def upd_cfg_def)

lemma load_scalar:
  "key_ok k \<Longrightarrow> val_ok v \<Longrightarrow> n \<noteq> 0 \<Longrightarrow> ld_section l \<noteq> ''backend_groups'' \<Longrightarrow> ld_section l \<noteq> ''routes'' \<Longrightarrow>
   load_line (kv n k v) l = upd_cfg (set_scalar (ld_section l) k v) l"
  by (simp add: load_line_def upd_cfg_def)

lemma scalar_sections:
  "clean h \<Longrightarrow> int_range p \<Longrightarrow>
   fold load_line [kv 0 ''listen'' [], kv 2 ''host'' h, kv 2 ''port'' (int_to_string p)] l =
     upd_cfg (\<lambda>c. c\<lparr>cf_listenHost := h, cf_listenPort := p\<rparr>) (reset_loader ''listen'' l)"
  "int_range w \<Longrightarrow> int_range mp \<Longrightarrow>
   fold load_line [kv 0 ''workers'' (int_to_string w), kv 0 ''metrics_port'' (int_to_string mp)] l =
     upd_cfg (\<lambda>c. c\<lparr>cf_workerThreads := w, cf_metricsPort := mp\<rparr>) (reset_loader [] l)"
  "int_range k \<Longrightarrow> 0 < r \<Longrightarrow> int_range (int r) \<Longrightarrow>
   fold load_line [kv 0 ''rate_limit'' [], kv 2 ''capacity'' (int_to_string k),
       kv 2 ''refill_per_second'' (nat_to_string r)] l =
     upd_cfg (\<lambda>c. c\<lparr>cf_rateLimitCapacity := k, cf_rateLimitRefillPerSecond := real r\<rparr>) (reset_loader ''rate_limit'' l)"
  "int_range (int n) \<Longrightarrow> int_range t \<Longrightarrow>
   fold load_line [kv 0 ''cache'' [], kv 2 ''capacity'' (nat_to_string n), kv 2 ''ttl_ms'' (int_to_string t)] l =
     upd_cfg (\<lambda>c. c\<lparr>cf_cacheCapacity := n, cf_cacheTtlMs := t\<rparr>) (reset_loader ''cache'' l)"
  "int_range f \<Longrightarrow> int_range t \<Longrightarrow>
   fold load_line [kv 0 ''circuit_breaker'' [], kv 2 ''failure_threshold'' (int_to_string f),
       kv 2 ''reset_timeout_ms'' (int_to_string t)] l =
     upd_cfg (\<lambda>c. c\<lparr>cf_circuitFailureThreshold := f, cf_circuitResetTimeoutMs := t\<rparr>) (reset_loader ''circuit_breaker'' l)"
  "int_range x \<Longrightarrow> int_range y \<Longrightarrow> int_range z \<Longrightarrow>
   fold load_line [kv 0 ''retry'' [], kv 2 ''max_retries'' (int_to_string x),
       kv 2 ''base_delay_ms'' (int_to_string y), kv 2 ''max_delay_ms'' (int_to_string z)] l =
     upd_cfg (\<lambda>c. c\<lparr>cf_retryMax := x, cf_retryBaseDelayMs := y, cf_retryMaxDelayMs := z\<rparr>) (reset_loader ''retry'' l)"
  "int_range x \<Longrightarrow> int_range y \<Longrightarrow> int_range (int m) \<Longrightarrow> int_range (int n) \<Longrightarrow>
   fold load_line [kv 0 ''connection'' [], kv 2 ''connect_timeout_ms'' (int_to_string x),
       kv 2 ''backend_read_timeout_ms'' (int_to_string y),
       kv 2 ''max_response_body_bytes'' (nat_to_string m), kv 2 ''max_idle_per_backend'' (nat_to_string n)] l =
     upd_cfg (\<lambda>c. c\<lparr>cf_connectTimeoutMs := x, cf_backendReadTimeoutMs := y, cf_maxResponseBodyBytes := m,
       cf_maxIdleConnsPerBackend := n\<rparr>) (reset_loader ''connection'' l)"
  "int_range x \<Longrightarrow> int_range y \<Longrightarrow> clean hp \<Longrightarrow>
   fold load_line [kv 0 ''health_check'' [], kv 2 ''interval_ms'' (int_to_string x),
       kv 2 ''timeout_ms'' (int_to_string y), kv 2 ''path'' hp] l =
     upd_cfg (\<lambda>c. c\<lparr>cf_healthCheckIntervalMs := x, cf_healthCheckTimeoutMs := y, cf_healthCheckPath := hp\<rparr>)
       (reset_loader ''health_check'' l)"
  by (simp_all add: load_section load_workers load_scalar set_scalar_def toInt_int toInt_nat toDouble_nat
      upd_cfg_def reset_loader_def)

subsection \<open>Groups and routes\<close>

lemma map_last_snoc [simp]: "map_last f (xs @ [x]) = xs @ [f x]"
  by (simp add: map_last_def)

definition in_group :: "BackendGroupConfig list \<Rightarrow> BackendGroupConfig \<Rightarrow> Loader \<Rightarrow> Loader" where
  "in_group gs g l =
     l\<lparr>ld_cfg := (ld_cfg l)\<lparr>cf_backendGroups := gs @ [g]\<rparr>, ld_curGroup := True,
       ld_inBackendsList := True, ld_groupIndent := 2\<rparr>"

lemma in_group_simps [simp]:
  "ld_section (in_group gs g l) = ld_section l" "ld_groupIndent (in_group gs g l) = 2"
  "cf_backendGroups (ld_cfg (in_group gs g l)) = gs @ [g]"
  "in_group gs' g' (in_group gs g l) = in_group gs' g' l"
  by (simp_all add: in_group_def)

lemma load_backend:
  assumes "ld_section l = ''backend_groups''" and "clean (bc_host b)" and "int_range (bc_port b)"
  shows "fold load_line (backend_lines b) (in_group gs g l) =
    in_group gs (g\<lparr>gc_backends := gc_backends g @ [b]\<rparr>) l"
  using assms
  by (simp add: backend_lines_def load_line_def group_line_def in_group_def upd_backend_def upd_group_def
      BackendConfig_init_def toInt_int)

lemma load_backends:
  assumes "ld_section l = ''backend_groups''"
  shows "list_all (\<lambda>b. clean (bc_host b) \<and> int_range (bc_port b)) bs \<Longrightarrow>
    fold load_line (concat (map backend_lines bs)) (in_group gs g l) =
      in_group gs (g\<lparr>gc_backends := gc_backends g @ bs\<rparr>) l"
proof (induction bs arbitrary: g)
  case (Cons b bs)
  then show ?case using load_backend [OF assms, of b gs g] by simp
qed simp

lemma load_group:
  assumes "ld_section l = ''backend_groups''" and "ld_groupIndent l = -1 \<or> ld_groupIndent l = 2"
    and "clean (gc_name g)" and "clean (gc_strategy g)"
    and "list_all (\<lambda>b. clean (bc_host b) \<and> int_range (bc_port b)) (gc_backends g)"
  shows "fold load_line (group_lines g) l = in_group (cf_backendGroups (ld_cfg l)) g l"
proof -
  have "fold load_line [item 2 ''name'' (gc_name g), kv 4 ''strategy'' (gc_strategy g), kv 4 ''backends'' []] l =
    in_group (cf_backendGroups (ld_cfg l)) (g\<lparr>gc_backends := []\<rparr>) l"
    using assms(1-4)
    by (auto simp: load_line_def group_line_def in_group_def upd_group_def BackendGroupConfig_init_def)
  with load_backends [OF assms(1,5), of "cf_backendGroups (ld_cfg l)" "g\<lparr>gc_backends := []\<rparr>"]
  show ?thesis by (simp add: group_lines_def)
qed

lemma load_groups:
  "ld_section l = ''backend_groups'' \<Longrightarrow> ld_groupIndent l = -1 \<or> ld_groupIndent l = 2 \<Longrightarrow>
   list_all (\<lambda>g. clean (gc_name g) \<and> clean (gc_strategy g) \<and>
     list_all (\<lambda>b. clean (bc_host b) \<and> int_range (bc_port b)) (gc_backends g)) gs \<Longrightarrow> gs \<noteq> [] \<Longrightarrow>
   fold load_line (concat (map group_lines gs)) l =
     in_group (cf_backendGroups (ld_cfg l) @ butlast gs) (last gs) l"
proof (induction gs arbitrary: l)
  case (Cons g gs)
  have g: "fold load_line (group_lines g) l = in_group (cf_backendGroups (ld_cfg l)) g l"
    using Cons.prems by (intro load_group) simp_all
  show ?case
  proof (cases "gs = []")
    case False
    with Cons.IH [of "in_group (cf_backendGroups (ld_cfg l)) g l"] Cons.prems g show ?thesis by simp
  qed (use g in simp)
qed simp

definition in_route :: "RouteConfig list \<Rightarrow> RouteConfig \<Rightarrow> Loader \<Rightarrow> Loader" where
  "in_route rs r l =
     l\<lparr>ld_cfg := (ld_cfg l)\<lparr>cf_routes := rs @ [r]\<rparr>, ld_curRoute := True, ld_routeListIndent := 2\<rparr>"

lemma in_route_simps [simp]:
  "ld_section (in_route rs r l) = ld_section l" "ld_routeListIndent (in_route rs r l) = 2"
  "cf_routes (ld_cfg (in_route rs r l)) = rs @ [r]"
  "in_route rs' r' (in_route rs r l) = in_route rs' r' l"
  by (simp_all add: in_route_def)

lemma bool_clean [simp]: "val_ok ''true''" "val_ok ''false''"
  by (simp_all add: val_ok_def clean_def blank_def)

lemma load_route:
  assumes "ld_section l = ''routes''" and "ld_routeListIndent l = -1 \<or> ld_routeListIndent l = 2"
    and "clean (rc_pathPrefix r)" and "clean (rc_backendGroup r)"
  shows "fold load_line (route_lines r) l = in_route (cf_routes (ld_cfg l)) r l"
  using assms
  by (cases r; cases "rc_cacheable r"; elim disjE)
    (simp_all add: route_lines_def load_line_def route_line_def in_route_def upd_route_def RouteConfig_init_def)

lemma load_routes:
  "ld_section l = ''routes'' \<Longrightarrow> ld_routeListIndent l = -1 \<or> ld_routeListIndent l = 2 \<Longrightarrow>
   list_all (\<lambda>r. clean (rc_pathPrefix r) \<and> clean (rc_backendGroup r)) rs \<Longrightarrow> rs \<noteq> [] \<Longrightarrow>
   fold load_line (concat (map route_lines rs)) l =
     in_route (cf_routes (ld_cfg l) @ butlast rs) (last rs) l"
proof (induction rs arbitrary: l)
  case (Cons r rs)
  have r: "fold load_line (route_lines r) l = in_route (cf_routes (ld_cfg l)) r l"
    using Cons.prems by (intro load_route) simp_all
  show ?case
  proof (cases "rs = []")
    case False
    with Cons.IH [of "in_route (cf_routes (ld_cfg l)) r l"] Cons.prems r show ?thesis by simp
  qed (use r in simp)
qed simp

lemma load_scalars:
  assumes "writable c"
  shows "fold load_line (scalar_lines c) Loader_init =
    upd_cfg (\<lambda>_. c\<lparr>cf_backendGroups := [], cf_routes := []\<rparr>) (reset_loader ''health_check'' Loader_init)"
proof -
  let ?r = "nat \<lfloor>cf_rateLimitRefillPerSecond c\<rfloor>"
  obtain z where "cf_rateLimitRefillPerSecond c = real_of_int z" "int_range z" "0 < z"
    using assms unfolding writable_def by (metis of_int_0_less_iff)
  then have r: "real ?r = cf_rateLimitRefillPerSecond c" "0 < ?r" "int_range (int ?r)" by simp_all
  have "scalar_lines c =
    [kv 0 ''listen'' [], kv 2 ''host'' (cf_listenHost c), kv 2 ''port'' (int_to_string (cf_listenPort c))] @
    [kv 0 ''workers'' (int_to_string (cf_workerThreads c)), kv 0 ''metrics_port'' (int_to_string (cf_metricsPort c))] @
    [kv 0 ''rate_limit'' [], kv 2 ''capacity'' (int_to_string (cf_rateLimitCapacity c)),
     kv 2 ''refill_per_second'' (nat_to_string ?r)] @
    [kv 0 ''cache'' [], kv 2 ''capacity'' (nat_to_string (cf_cacheCapacity c)),
     kv 2 ''ttl_ms'' (int_to_string (cf_cacheTtlMs c))] @
    [kv 0 ''circuit_breaker'' [], kv 2 ''failure_threshold'' (int_to_string (cf_circuitFailureThreshold c)),
     kv 2 ''reset_timeout_ms'' (int_to_string (cf_circuitResetTimeoutMs c))] @
    [kv 0 ''retry'' [], kv 2 ''max_retries'' (int_to_string (cf_retryMax c)),
     kv 2 ''base_delay_ms'' (int_to_string (cf_retryBaseDelayMs c)),
     kv 2 ''max_delay_ms'' (int_to_string (cf_retryMaxDelayMs c))] @
    [kv 0 ''connection'' [], kv 2 ''connect_timeout_ms'' (int_to_string (cf_connectTimeoutMs c)),
     kv 2 ''backend_read_timeout_ms'' (int_to_string (cf_backendReadTimeoutMs c)),
     kv 2 ''max_response_body_bytes'' (nat_to_string (cf_maxResponseBodyBytes c)),
     kv 2 ''max_idle_per_backend'' (nat_to_string (cf_maxIdleConnsPerBackend c))] @
    [kv 0 ''health_check'' [], kv 2 ''interval_ms'' (int_to_string (cf_healthCheckIntervalMs c)),
     kv 2 ''timeout_ms'' (int_to_string (cf_healthCheckTimeoutMs c)), kv 2 ''path'' (cf_healthCheckPath c)]"
    by (simp add: scalar_lines_def)
  then have "fold load_line (scalar_lines c) Loader_init =
    upd_cfg (\<lambda>d. d\<lparr>cf_listenHost := cf_listenHost c, cf_listenPort := cf_listenPort c,
      cf_workerThreads := cf_workerThreads c, cf_metricsPort := cf_metricsPort c,
      cf_rateLimitCapacity := cf_rateLimitCapacity c, cf_rateLimitRefillPerSecond := real ?r,
      cf_cacheCapacity := cf_cacheCapacity c, cf_cacheTtlMs := cf_cacheTtlMs c,
      cf_circuitFailureThreshold := cf_circuitFailureThreshold c,
      cf_circuitResetTimeoutMs := cf_circuitResetTimeoutMs c, cf_retryMax := cf_retryMax c,
      cf_retryBaseDelayMs := cf_retryBaseDelayMs c, cf_retryMaxDelayMs := cf_retryMaxDelayMs c,
      cf_connectTimeoutMs := cf_connectTimeoutMs c, cf_backendReadTimeoutMs := cf_backendReadTimeoutMs c,
      cf_maxResponseBodyBytes := cf_maxResponseBodyBytes c,
      cf_maxIdleConnsPerBackend := cf_maxIdleConnsPerBackend c,
      cf_healthCheckIntervalMs := cf_healthCheckIntervalMs c,
      cf_healthCheckTimeoutMs := cf_healthCheckTimeoutMs c, cf_healthCheckPath := cf_healthCheckPath c\<rparr>)
      (reset_loader ''health_check'' Loader_init)"
    using assms r(2,3)
    by (simp only: fold_append o_apply scalar_sections writable_def list.pred_inject simp_thms upd_cfg_simps)
  also have "\<dots> = upd_cfg (\<lambda>_. c\<lparr>cf_backendGroups := [], cf_routes := []\<rparr>)
      (reset_loader ''health_check'' Loader_init)"
    unfolding r(1) by (cases c) (simp add: upd_cfg_def Loader_init_def GatewayConfig_init_def reset_loader_def)
  finally show ?thesis .
qed

lemma kv_line_ok: "key_ok k \<Longrightarrow> val_ok v \<Longrightarrow> clean (ln_content (kv n k v))"
  using kv_clean by (simp add: key_ok_def val_ok_def)

lemma item_line_ok: "key_ok k \<Longrightarrow> val_ok v \<Longrightarrow> clean (ln_content (item n k v))"
  unfolding item_def using kv_clean [of "''- '' @ k" v n]
  by (auto simp: key_ok_def val_ok_def clean_def blank_def)

lemma config_lines_clean:
  assumes "writable c"
  shows "\<forall>li \<in> set (config_lines c). clean (ln_content li) \<and> 0 \<le> ln_indent li"
proof -
  have "\<forall>li \<in> set (scalar_lines c). clean (ln_content li) \<and> 0 \<le> ln_indent li"
    using assms by (simp add: scalar_lines_def kv_line_ok writable_def)
  moreover have "\<forall>li \<in> set (group_lines g). clean (ln_content li) \<and> 0 \<le> ln_indent li"
    if "g \<in> set (cf_backendGroups c)" for g
    using assms that
    by (auto simp: group_lines_def backend_lines_def kv_line_ok item_line_ok writable_def list_all_iff)
  moreover have "\<forall>li \<in> set (route_lines r). clean (ln_content li) \<and> 0 \<le> ln_indent li"
    if "r \<in> set (cf_routes c)" for r
    using assms that by (auto simp: route_lines_def kv_line_ok item_line_ok writable_def list_all_iff)
  ultimately show ?thesis by (auto simp: config_lines_def kv_line_ok)
qed

lemma load_config_lines:
  assumes "writable c" and "cf_backendGroups c \<noteq> []" and "cf_routes c \<noteq> []"
  shows "ld_cfg (fold load_line (config_lines c) Loader_init) = c"
proof -
  let ?b = "c\<lparr>cf_backendGroups := [], cf_routes := []\<rparr>"
  define l1 where "l1 = reset_loader ''backend_groups'' (upd_cfg (\<lambda>_. ?b) (reset_loader ''health_check'' Loader_init))"
  have l1: "ld_section l1 = ''backend_groups''" "ld_groupIndent l1 = -1" "ld_cfg l1 = ?b"
    by (simp_all add: l1_def, simp add: reset_loader_def upd_cfg_def)
  define l2 where "l2 = in_group (butlast (cf_backendGroups c)) (last (cf_backendGroups c)) l1"
  have g: "fold load_line (concat (map group_lines (cf_backendGroups c))) l1 = l2"
    using load_groups [of l1 "cf_backendGroups c"] l1 assms(1,2) by (simp add: l2_def writable_def)
  have c2: "ld_cfg l2 = c\<lparr>cf_routes := []\<rparr>" using assms(2) l1(3) by (simp add: l2_def in_group_def)
  define l3 where "l3 = reset_loader ''routes'' l2"
  have l3: "ld_section l3 = ''routes''" "ld_routeListIndent l3 = -1" "ld_cfg l3 = c\<lparr>cf_routes := []\<rparr>"
    by (simp_all add: l3_def c2, simp add: reset_loader_def)
  have "fold load_line (concat (map route_lines (cf_routes c))) l3 =
    in_route (butlast (cf_routes c)) (last (cf_routes c)) l3"
    using load_routes [of l3 "cf_routes c"] l3 assms(1,3) by (simp add: writable_def)
  moreover have "fold load_line (config_lines c) Loader_init =
    fold load_line (concat (map route_lines (cf_routes c))) l3"
    by (simp add: config_lines_def load_scalars [OF assms(1)] load_section g l1_def [symmetric] l3_def
        del: upd_cfg_simps)
  ultimately show ?thesis using l3(3) assms(3) by (simp add: in_route_def)
qed

lemma check_groups_None:
  "check_groups gs = None \<longleftrightarrow> list_all (\<lambda>g. \<not> bad_group g \<and> list_all (\<lambda>b. \<not> bad_backend b) (gc_backends g)) gs"
  by (induction gs) (auto simp: list_all_iff list_ex_iff)

lemma tokenize_text:
  "list_all (\<lambda>l. LF \<notin> set l) ls \<Longrightarrow>
   tokenize (concat (map (\<lambda>l. l @ [LF]) ls)) = List.map_filter token_line ls"
  by (induction ls) (simp_all add: tokenize_def getlines_line List.map_filter_simps split: option.split)

lemma stripComment_hash: "CHR ''#'' \<notin> set a \<Longrightarrow> stripComment (a @ CHR ''#'' # y) = a"
proof -
  assume "CHR ''#'' \<notin> set a"
  then have "find_first (\<lambda>c. c = CHR ''#'') (a @ CHR ''#'' # y) = Some (length a)"
    by (intro find_first_split) auto
  then show ?thesis by (simp add: stripComment_def substr_def)
qed

lemma stripComment_comment: "stripComment (l @ CHR ''#'' # x) = stripComment l"
proof (cases "CHR ''#'' \<in> set l")
  case True
  then obtain a b where "l = a @ CHR ''#'' # b" "CHR ''#'' \<notin> set a" by (metis split_list_first)
  then show ?thesis by (simp add: stripComment_hash)
next
  case False
  then show ?thesis by (simp add: stripComment_hash stripComment_clean)
qed

section \<open>Properties\<close>

text \<open>
  C14: the loader reads back what the layout of gateway.yaml writes. A valid configuration
  whose texts are clean and whose numbers are in range, written in that layout, is loaded as
  exactly this configuration.
\<close>

theorem config_roundtrip:
  assumes "writable c" and "validate c = None"
  shows "loadFromFile (Some (render c)) = Inr c"
proof -
  have "cf_backendGroups c \<noteq> []" "cf_routes c \<noteq> []"
    using assms(2) by (auto simp: validate_def split: if_splits)
  then have "ld_cfg (fold load_line (config_lines c) Loader_init) = c"
    using load_config_lines [OF assms(1)] by simp
  then show ?thesis
    using assms(2) tokenize_lines [OF config_lines_clean [OF assms(1)]]
    by (simp add: loadFromFile_def render_def Let_def)
qed

definition sample_config :: GatewayConfig where
  "sample_config = GatewayConfig_init
     \<lparr>cf_backendGroups := [\<lparr>gc_name = ''users'', gc_strategy = ''round_robin'',
        gc_backends = [\<lparr>bc_host = ''127.0.0.1'', bc_port = 9001\<rparr>, \<lparr>bc_host = ''b'', bc_port = 9002\<rparr>]\<rparr>],
      cf_routes := [\<lparr>rc_pathPrefix = ''/api'', rc_backendGroup = ''users'', rc_cacheable = True\<rparr>]\<rparr>"

theorem config_roundtrip_witness:
  "writable sample_config \<and> validate sample_config = None \<and>
   loadFromFile (Some (render sample_config)) = Inr sample_config"
proof -
  have "writable sample_config"
    by (simp add: writable_def sample_config_def GatewayConfig_init_def clean_def blank_def int_range_def)
  moreover have "validate sample_config = None"
    by (simp add: validate_def sample_config_def GatewayConfig_init_def bad_values_def bad_group_def
        bad_backend_def bad_route_def)
  ultimately show ?thesis using config_roundtrip by blast
qed


text \<open>
  comments and blank lines do not matter. Appending a comment to any line, and adding
  or dropping lines that hold nothing but blanks and comments, leaves the result of loading a file
  unchanged.
\<close>

theorem config_comments_ignored:
  assumes "list_all (\<lambda>(l, x). LF \<notin> set l \<and> (case x of None \<Rightarrow> True | Some y \<Rightarrow> LF \<notin> set y)) ds"
  shows "loadFromFile (Some (concat (map (\<lambda>(l, x). l @ (case x of None \<Rightarrow> [] | Some y \<Rightarrow> CHR ''#'' # y) @ [LF]) ds))) =
    loadFromFile (Some (concat (map (\<lambda>l. l @ [LF]) (filter (\<lambda>l. trim (stripComment l) \<noteq> []) (map fst ds)))))"
proof -
  let ?f = "\<lambda>(l, x). l @ (case x of None \<Rightarrow> [] | Some y \<Rightarrow> CHR ''#'' # y)"
  have t: "token_line (?f d) = token_line (fst d)" for d :: "string \<times> string option"
    by (cases d) (auto simp: token_line_def stripComment_comment split: option.split)
  have n: "token_line l = None \<longleftrightarrow> trim (stripComment l) = []" for l
    by (simp add: token_line_def Let_def)
  have e: "map (\<lambda>(l, x). l @ (case x of None \<Rightarrow> [] | Some y \<Rightarrow> CHR ''#'' # y) @ [LF]) ds =
    map (\<lambda>l. l @ [LF]) (map ?f ds)" by auto
  have "list_all (\<lambda>l. LF \<notin> set l) (map ?f ds)"
    "list_all (\<lambda>l. LF \<notin> set l) (filter (\<lambda>l. trim (stripComment l) \<noteq> []) (map fst ds))"
    using assms by (auto simp: list_all_iff split: option.splits)
  note tk = tokenize_text [OF this(1)] tokenize_text [OF this(2)]
  have "List.map_filter token_line (map ?f ds) =
    List.map_filter token_line (filter (\<lambda>l. trim (stripComment l) \<noteq> []) (map fst ds))"
    by (induction ds) (auto simp: List.map_filter_simps t n [symmetric] split: option.splits)
  then show ?thesis unfolding e loadFromFile_def option.case tk Let_def by (simp only:)
qed

theorem config_comments_ignored_witness:
  "loadFromFile (Some (''workers: 2 # two'' @ [LF] @ ''# none'' @ [LF])) = loadFromFile (Some (''workers: 2 '' @ [LF]))"
proof -
  let ?ds = "[(''workers: 2 '', Some '' two''), ([], Some '' none'')] :: (string \<times> string option) list"
  have "filter (\<lambda>l. trim (stripComment l) \<noteq> []) (map fst ?ds) = [''workers: 2 '']" by code_simp
  with config_comments_ignored [of ?ds] show ?thesis by simp
qed

end
