(* ===== verification/Relay.thy ===== *)
theory Relay
  imports HttpMessage LoadBalancer
begin

text \<open>
  The exchange with a backend, src/core/Gateway.cpp: the request the gateway writes
  (\<open>buildBackendRequest\<close>) and the blocking exchange that sends it and reads a length-delimited
  response (\<open>sendAndReceive\<close>). What \<^verbatim>\<open>poll\<close>, \<^verbatim>\<open>send\<close>, \<^verbatim>\<open>recv\<close> and the
  clock answer is a script with one entry per iteration of a loop; when a script ends the exchange
  is still \<open>Waiting\<close>.
\<close>

section \<open>The request\<close>

text \<open>
  The headers are written in the order in which the hash map is iterated, which is the order of
  the association list that stands for it.
\<close>

definition hop_by_hop :: "string \<Rightarrow> bool" where
  "hop_by_hop k \<longleftrightarrow>
     k = ''connection'' \<or> k = ''host'' \<or> k = ''keep-alive'' \<or> k = ''proxy-connection'' \<or>
     k = ''te'' \<or> k = ''trailer'' \<or> k = ''transfer-encoding'' \<or> k = ''upgrade'' \<or>
     k = ''content-length''"

definition buildBackendRequest :: "HttpRequest \<Rightarrow> Backend \<Rightarrow> string" where
  "buildBackendRequest req backend =
     rq_method req @ '' '' @ rq_path req @ (if rq_query req = [] then [] else ''?'' @ rq_query req) @
     '' HTTP/1.1'' @ CRLF @
     header_line (''Host'', be_host backend) @
     concat (map header_line (filter (\<lambda>(k, v). \<not> hop_by_hop k) (rq_headers req))) @
     header_line (''X-Request-Id'', rq_requestId req) @
     header_line (''X-Forwarded-For'', ''gateway'') @
     header_line (''Connection'', ''keep-alive'') @
     (if rq_body req = [] then [] else header_line (''Content-Length'', nat_to_string (length (rq_body req)))) @
     CRLF @ rq_body req"

section \<open>Sending\<close>

datatype sent_result = Sent int | WouldBlock | SendError

record send_io =
  si_ready :: int
  si_result :: sent_result

datatype send_outcome = SendWaiting | SendFailed | SendDone

fun send_loop :: "string \<Rightarrow> nat \<Rightarrow> send_io list \<Rightarrow> send_outcome \<times> nat" where
  "send_loop request sent ios =
     (if sent < length request then
        (case ios of
           [] \<Rightarrow> (SendWaiting, sent)
         | io # ios \<Rightarrow>
             if si_ready io \<le> 0 then (SendFailed, sent)
             else (case si_result io of
                     WouldBlock \<Rightarrow> send_loop request sent ios
                   | SendError \<Rightarrow> (SendFailed, sent)
                   | Sent n \<Rightarrow>
                       if n \<le> 0 then (SendFailed, sent)
                       else send_loop request (sent + nat n) ios))
      else (SendDone, sent))"

declare send_loop.simps [simp del]

section \<open>Receiving\<close>

record recv_io =
  ri_remainingMs :: int
  ri_ready :: int
  ri_data :: "string option"

record reply =
  rp_headerEnd :: "nat option"
  rp_contentLength :: nat
  rp_gotContentLength :: bool
  rp_headers :: "(string \<times> string) list"
  rp_reusable :: bool

definition reply_init :: reply where
  "reply_init =
     \<lparr>rp_headerEnd = None, rp_contentLength = 0, rp_gotContentLength = False, rp_headers = [],
      rp_reusable = False\<rparr>"

definition isConnectionClose :: "string \<Rightarrow> bool" where
  "isConnectionClose value = (str_find (map tolower value) ''close'' 0 \<noteq> None)"

definition replyHeader :: "nat \<Rightarrow> string \<Rightarrow> reply \<Rightarrow> reply option" where
  "replyHeader maxBodyBytes line r =
     (case find_first (\<lambda>c. c = CHR '':'') line of
        None \<Rightarrow> None
      | Some colon \<Rightarrow>
          (let key = map tolower (substr line 0 colon);
               value = dropWhile isspace (substr_from line (colon + 1))
           in if key = ''content-length'' then
                if rp_gotContentLength r then None
                else (case from_chars value of
                        FC_ok n used \<Rightarrow>
                          if used \<noteq> length value \<or> n > maxBodyBytes then None
                          else Some (r\<lparr>rp_contentLength := n, rp_gotContentLength := True\<rparr>)
                      | _ \<Rightarrow> None)
              else if key = ''transfer-encoding'' then None
              else if key = ''connection'' then Some (r\<lparr>rp_reusable := \<not> isConnectionClose value\<rparr>)
              else if key \<noteq> ''keep-alive'' \<and> key \<noteq> ''proxy-connection'' \<and> key \<noteq> ''upgrade''
              then Some (r\<lparr>rp_headers := rp_headers r @ [(key, value)]\<rparr>)
              else Some r))"

function replyHeaders :: "nat \<Rightarrow> string \<Rightarrow> nat \<Rightarrow> nat \<Rightarrow> reply \<Rightarrow> reply option" where
  "replyHeaders maxBodyBytes raw lineStart headerEnd r =
     (if lineStart < headerEnd then
        (case str_find raw CRLF lineStart of
           None \<Rightarrow> None
         | Some lineEnd \<Rightarrow>
             if lineEnd > headerEnd then None
             else (case replyHeader maxBodyBytes (substr raw lineStart (lineEnd - lineStart)) r of
                     None \<Rightarrow> None
                   | Some r \<Rightarrow> replyHeaders maxBodyBytes raw (lineEnd + 2) headerEnd r))
      else Some r)"
  by pat_completeness auto
termination
  by (relation "measure (\<lambda>(_, raw, lineStart, _, _). length raw - lineStart)")
    (auto dest: str_find_crlf_progress)

declare replyHeaders.simps [simp del]

text \<open>The part of an iteration after new bytes arrived, until the header is complete.\<close>

definition replyHead :: "nat \<Rightarrow> string \<Rightarrow> reply \<Rightarrow> reply option" where
  "replyHead maxBodyBytes raw r =
     (case rp_headerEnd r of
        Some _ \<Rightarrow> Some r
      | None \<Rightarrow>
          if length raw > 32768 then None
          else (case str_find raw (CRLF @ CRLF) 0 of
                  None \<Rightarrow> Some r
                | Some headerEnd \<Rightarrow>
                    (case replyHeaders maxBodyBytes raw (uadd (pos_val (str_find raw CRLF 0)) 2) headerEnd
                            (r\<lparr>rp_headerEnd := Some headerEnd\<rparr>) of
                       None \<Rightarrow> None
                     | Some r \<Rightarrow> if rp_gotContentLength r then Some r else None)))"

definition replyComplete :: "string \<Rightarrow> reply \<Rightarrow> bool" where
  "replyComplete raw r =
     (case rp_headerEnd r of None \<Rightarrow> False
      | Some headerEnd \<Rightarrow> length raw - (headerEnd + 4) \<ge> rp_contentLength r)"

definition replyResponse :: "string \<Rightarrow> reply \<Rightarrow> HttpResponse option" where
  "replyResponse raw r =
     (case rp_headerEnd r of
        None \<Rightarrow> None
      | Some headerEnd \<Rightarrow>
          (case str_find raw '' '' 0 of
             None \<Rightarrow> None
           | Some firstSpace \<Rightarrow>
               (case str_find raw '' '' (firstSpace + 1) of
                  None \<Rightarrow> None
                | Some secondSpace \<Rightarrow>
                    (let lineEnd = pos_val (str_find raw CRLF 0)
                     in Some \<lparr>rs_statusCode = atoi (substr raw (firstSpace + 1) (secondSpace - firstSpace - 1)),
                              rs_statusText = substr raw (secondSpace + 1) (usub (usub lineEnd secondSpace) 1),
                              rs_headers = rp_headers r,
                              rs_body = substr raw (headerEnd + 4) (rp_contentLength r)\<rparr>))))"

datatype exchange = Waiting | Failed | Answered HttpResponse bool

fun recv_loop :: "nat \<Rightarrow> recv_io list \<Rightarrow> string \<Rightarrow> reply \<Rightarrow> exchange" where
  "recv_loop maxBodyBytes [] raw r = Waiting"
| "recv_loop maxBodyBytes (io # ios) raw r =
     (if ri_remainingMs io \<le> 0 then Failed
      else if ri_ready io \<le> 0 then Failed
      else (case ri_data io of
              None \<Rightarrow> Failed
            | Some buf \<Rightarrow>
                if buf = [] then Failed
                else (case replyHead maxBodyBytes (raw @ buf) r of
                        None \<Rightarrow> Failed
                      | Some r \<Rightarrow>
                          if replyComplete (raw @ buf) r then
                            (case replyResponse (raw @ buf) r of
                               None \<Rightarrow> Failed
                             | Some resp \<Rightarrow> Answered resp (rp_reusable r))
                          else recv_loop maxBodyBytes ios (raw @ buf) r)))"

definition sendAndReceive :: "string \<Rightarrow> nat \<Rightarrow> send_io list \<Rightarrow> recv_io list \<Rightarrow> exchange" where
  "sendAndReceive request maxBodyBytes sends recvs =
     (case fst (send_loop request 0 sends) of
        SendWaiting \<Rightarrow> Waiting
      | SendFailed \<Rightarrow> Failed
      | SendDone \<Rightarrow> recv_loop maxBodyBytes recvs [] reply_init)"

section \<open>Lines and headers\<close>

definition line_free :: "string \<Rightarrow> bool" where
  "line_free s \<longleftrightarrow> CR \<notin> set s \<and> LF \<notin> set s"

definition text_lines :: "string list \<Rightarrow> string" where
  "text_lines ls = concat (map (\<lambda>l. l @ CRLF) ls)"

lemma text_lines_simps [simp]:
  "text_lines [] = []" "text_lines (l # ls) = l @ CRLF @ text_lines ls"
  "text_lines (xs @ ys) = text_lines xs @ text_lines ys"
  by (simp_all add: text_lines_def)

lemma find_sub_skip:
  "CR \<notin> set l \<Longrightarrow> find_sub (CR # p) (l @ s) = map_option (\<lambda>i. length l + i) (find_sub (CR # p) s)"
  by (induction l; cases "find_sub (CR # p) s") auto

lemma find_blank_line:
  "list_all (\<lambda>l. l \<noteq> [] \<and> line_free l) (l # ls) \<Longrightarrow>
   find_sub (CRLF @ CRLF) (text_lines (l # ls) @ CRLF @ rest) = Some (length (text_lines (l # ls)) - 2)"
proof (induction ls arbitrary: l)
  case Nil
  then show ?case by (simp add: find_sub_skip line_free_def)
next
  case (Cons l' ls)
  obtain c cs where l': "l' = c # cs" "c \<noteq> CR" "c \<noteq> LF" using Cons.prems by (cases l') (auto simp: line_free_def)
  have IH: "find_sub (CRLF @ CRLF) (text_lines (l' # ls) @ CRLF @ rest) = Some (length (text_lines (l' # ls)) - 2)"
    using Cons by simp
  have "find_sub (CRLF @ CRLF) (CRLF @ text_lines (l' # ls) @ CRLF @ rest) = Some (length (text_lines (l' # ls)))"
    using IH l' by simp
  then show ?case using Cons.prems
    by (simp add: find_sub_skip line_free_def)
qed

lemma find_blank_line_prefix:
  assumes "find_sub p w = Some i" and "prefix s w" and "length s < i + length p"
  shows "find_sub p s = None"
proof (rule ccontr)
  assume "find_sub p s \<noteq> None"
  then obtain j where j: "find_sub p s = Some j" by blast
  obtain t where w: "w = s @ t" using assms(2) by (auto simp: prefix_def)
  have "find_sub p w = Some j" unfolding w by (rule find_sub_append [OF j])
  with assms(1) have "j = i" by simp
  with find_sub_SomeD(2) [OF j] assms(3) show False by simp
qed

text \<open>Parsing the header only looks at the bytes of the header.\<close>

lemma replyHeaders_append:
  "replyHeaders m raw ls he r = Some r' \<Longrightarrow> replyHeaders m (raw @ t) ls he r = Some r'"
proof (induction m raw ls he r rule: replyHeaders.induct)
  case (1 m raw ls he r)
  show ?case
  proof (cases "ls < he")
    case True
    with "1.prems" obtain le r1 where le: "str_find raw CRLF ls = Some le" "le \<le> he"
      and r1: "replyHeader m (substr raw ls (le - ls)) r = Some r1"
      and rec: "replyHeaders m raw (le + 2) he r1 = Some r'"
      by (auto simp: replyHeaders.simps [of m raw ls] split: option.splits if_splits)
    have "substr (raw @ t) ls (le - ls) = substr raw ls (le - ls)"
      using str_find_SomeD(1,2) [OF le(1)] by (simp add: substr_def)
    with le r1 "1.IH" [OF True le(1) _ r1 rec] True str_find_append [OF le(1), of t] show ?thesis
      by (simp add: replyHeaders.simps [of m "raw @ t" ls])
  next
    case False
    with "1.prems" show ?thesis by (simp add: replyHeaders.simps [of m _ ls])
  qed
qed

fun foldHeaders :: "nat \<Rightarrow> string list \<Rightarrow> reply \<Rightarrow> reply option" where
  "foldHeaders m [] r = Some r"
| "foldHeaders m (l # ls) r = (case replyHeader m l r of None \<Rightarrow> None | Some r \<Rightarrow> foldHeaders m ls r)"

lemma replyHeaders_lines:
  "list_all (\<lambda>l. l \<noteq> [] \<and> line_free l) ls \<Longrightarrow>
   replyHeaders m (pre @ text_lines ls @ CRLF) (length pre) (length pre + length (text_lines ls) - 2) r =
     foldHeaders m ls r"
proof (induction ls arbitrary: pre r)
  case Nil
  have "\<not> length pre < length pre - 2" by simp
  then show ?case by (simp add: replyHeaders.simps)
next
  case (Cons l ls)
  let ?raw = "pre @ text_lines (l # ls) @ CRLF" and ?he = "length pre + length (text_lines (l # ls)) - 2"
  have f: "str_find ?raw CRLF (length pre) = Some (length pre + length l)"
    using Cons.prems find_sub_crlf [of l "text_lines ls @ CRLF"] by (simp add: str_find_def line_free_def)
  have "length pre < ?he" using Cons.prems by (cases l) simp_all
  moreover have "substr ?raw (length pre) (length l) = l" by (simp add: substr_def)
  moreover have "replyHeaders m ?raw (length pre + length l + 2) ?he r' = foldHeaders m ls r'" for r'
    using Cons.IH [of "pre @ l @ CRLF" r'] Cons.prems by (simp add: add.assoc)
  ultimately show ?case
    using f by (subst replyHeaders.simps) (simp split: option.split)
qed

section \<open>Responses in any chunks\<close>

text \<open>
  A response on the wire: the lines of its head, an empty line, the body. The receiver finds the
  end of the head in every prefix that contains it and in no shorter one, so how the bytes are cut
  into chunks matters only for the 32768-byte limit, which is checked before the head is looked for.
\<close>

definition head_text :: "string list \<Rightarrow> string" where
  "head_text ls = text_lines ls @ CRLF"

definition good_reads :: "recv_io list \<Rightarrow> bool" where
  "good_reads ios \<longleftrightarrow>
     list_all (\<lambda>io. 0 < ri_remainingMs io \<and> 0 < ri_ready io \<and>
       (case ri_data io of None \<Rightarrow> False | Some buf \<Rightarrow> buf \<noteq> [] \<and> length buf \<le> 8192)) ios"

definition received :: "recv_io list \<Rightarrow> string" where
  "received ios = concat (map (\<lambda>io. case ri_data io of None \<Rightarrow> [] | Some buf \<Rightarrow> buf) ios)"

lemma received_Cons [simp]:
  "received (io # ios) = (case ri_data io of None \<Rightarrow> [] | Some buf \<Rightarrow> buf) @ received ios"
  by (simp add: received_def)

definition parsed_head :: "nat \<Rightarrow> string list \<Rightarrow> reply option" where
  "parsed_head m ls =
     (case ls of [] \<Rightarrow> None
      | status # hs \<Rightarrow>
          (case foldHeaders m hs (reply_init\<lparr>rp_headerEnd := Some (length (text_lines ls) - 2)\<rparr>) of
             None \<Rightarrow> None | Some r \<Rightarrow> if rp_gotContentLength r then Some r else None))"

lemma head_found:
  assumes "list_all (\<lambda>l. l \<noteq> [] \<and> line_free l) (l # ls)"
  shows "str_find (head_text (l # ls) @ t) (CRLF @ CRLF) 0 = Some (length (text_lines (l # ls)) - 2)"
    and "str_find (head_text (l # ls) @ t) CRLF 0 = Some (length l)"
  using find_blank_line [OF assms, of t] find_sub_crlf [of l "text_lines ls @ CRLF @ t"] assms
  by (simp_all add: str_find_def head_text_def line_free_def)

lemma replyHead_complete:
  assumes "list_all (\<lambda>l. l \<noteq> [] \<and> line_free l) ls" and "length (head_text ls @ t) \<le> 32768"
    and "parsed_head m ls = Some r"
  shows "replyHead m (head_text ls @ t) reply_init = Some r"
proof -
  obtain l hs where ls: "ls = l # hs" using assms(3) by (cases ls) (auto simp: parsed_head_def)
  let ?he = "length (text_lines ls) - 2"
  let ?r = "reply_init\<lparr>rp_headerEnd := Some ?he\<rparr>"
  have r: "foldHeaders m hs ?r = Some r" "rp_gotContentLength r"
    using assms(3) by (auto simp: parsed_head_def ls split: option.splits if_splits)
  have u: "uadd (length l) 2 = length (l @ CRLF)"
    using assms(2) by (simp add: uadd_def head_text_def ls)
  have "replyHeaders m (head_text ls) (length (l @ CRLF)) ?he ?r = Some r"
    using replyHeaders_lines [of hs m "l @ CRLF" ?r] assms(1) r(1) by (simp add: head_text_def ls)
  then have "replyHeaders m (head_text ls @ t) (length (l @ CRLF)) ?he ?r = Some r"
    by (rule replyHeaders_append)
  moreover have "str_find (head_text ls @ t) (CRLF @ CRLF) 0 = Some ?he"
    "str_find (head_text ls @ t) CRLF 0 = Some (length l)"
    using head_found [of l hs t] assms(1) by (simp_all add: ls)
  moreover have "rp_headerEnd reply_init = None" by (simp add: reply_init_def)
  ultimately show ?thesis
    using r(2) assms(2) u by (simp add: replyHead_def pos_val_def)
qed

lemma replyHeader_end: "replyHeader m l r = Some r' \<Longrightarrow> rp_headerEnd r' = rp_headerEnd r"
  by (auto simp: replyHeader_def Let_def split: option.splits if_splits from_chars_result.splits)

lemma foldHeaders_end: "foldHeaders m ls r = Some r' \<Longrightarrow> rp_headerEnd r' = rp_headerEnd r"
  by (induction ls arbitrary: r) (auto split: option.splits dest: replyHeader_end)

lemma parsed_head_end: "parsed_head m ls = Some r \<Longrightarrow> rp_headerEnd r = Some (length (text_lines ls) - 2)"
  by (auto simp: parsed_head_def split: list.splits option.splits if_splits dest: foldHeaders_end)

lemma replyHead_partial:
  assumes "list_all (\<lambda>l. l \<noteq> [] \<and> line_free l) (l # hs)" and "prefix raw (head_text (l # hs))"
    and "length raw < length (head_text (l # hs))" and "length raw \<le> 32768"
  shows "replyHead m raw reply_init = Some reply_init"
proof -
  have "find_sub (CRLF @ CRLF) (head_text (l # hs)) = Some (length (text_lines (l # hs)) - 2)"
    using find_blank_line [OF assms(1), of "[]"] by (simp add: head_text_def)
  from find_blank_line_prefix [OF this assms(2)] assms(3)
  have "find_sub (CRLF @ CRLF) raw = None" by (simp add: head_text_def)
  then show ?thesis using assms(4) by (simp add: replyHead_def reply_init_def str_find_def)
qed

definition finish :: "string \<Rightarrow> reply \<Rightarrow> exchange" where
  "finish raw r = (case replyResponse raw r of None \<Rightarrow> Failed | Some resp \<Rightarrow> Answered resp (rp_reusable r))"

lemma recv_body:
  assumes "rp_headerEnd r = Some he" and "he + 4 + rp_contentLength r = n"
  shows "good_reads ios \<Longrightarrow> he + 4 \<le> length raw \<Longrightarrow> length raw < n \<Longrightarrow> length (raw @ received ios) = n \<Longrightarrow>
    recv_loop m ios raw r = finish (raw @ received ios) r"
proof (induction ios arbitrary: raw)
  case (Cons io ios)
  obtain buf where b: "ri_data io = Some buf" "buf \<noteq> []" "0 < ri_remainingMs io" "0 < ri_ready io"
    using Cons.prems(1) by (auto simp: good_reads_def split: option.splits)
  have h: "replyHead m (raw @ buf) r = Some r" using assms(1) by (simp add: replyHead_def)
  have c: "replyComplete (raw @ buf) r \<longleftrightarrow> n \<le> length (raw @ buf)"
    using assms Cons.prems(2) by (auto simp: replyComplete_def)
  show ?case
  proof (cases "n \<le> length (raw @ buf)")
    case True
    have "length (raw @ buf) + length (received ios) = n" using Cons.prems(4) b(1) by simp
    with True have "length (received ios) = 0" by linarith
    then have "received ios = []" by simp
    with True b h c show ?thesis by (simp add: finish_def)
  next
    case False
    with b h c Cons.IH [of "raw @ buf"] Cons.prems show ?thesis by (simp add: good_reads_def)
  qed
qed (simp add: received_def)

lemma recv_any_chunks:
  assumes ok: "list_all (\<lambda>l. l \<noteq> [] \<and> line_free l) ls" and small: "length (head_text ls) \<le> 24577"
    and head: "parsed_head m ls = Some r" and body: "length body = rp_contentLength r"
  shows "good_reads ios \<Longrightarrow> raw @ received ios = head_text ls @ body \<Longrightarrow> length raw < length (head_text ls) \<Longrightarrow>
    recv_loop m ios raw reply_init = finish (head_text ls @ body) r"
proof (induction ios arbitrary: raw)
  case (Cons io ios)
  obtain l hs where ls: "ls = l # hs" using head by (cases ls) (auto simp: parsed_head_def)
  let ?n = "length (head_text ls)"
  obtain buf where b: "ri_data io = Some buf" "buf \<noteq> []" "0 < ri_remainingMs io" "0 < ri_ready io"
    "length buf \<le> 8192" using Cons.prems(1) by (auto simp: good_reads_def split: option.splits)
  have small': "length (raw @ buf) \<le> 32768" using b(5) small Cons.prems(3) by simp
  have w: "(raw @ buf) @ received ios = head_text ls @ body" using Cons.prems(2) b(1) by simp
  have gd: "good_reads ios" using Cons.prems(1) by (simp add: good_reads_def)
  show ?case
  proof (cases "length (raw @ buf) < ?n")
    case True
    then have "prefix (raw @ buf) (head_text ls)"
      using w by (metis less_imp_le_nat prefixI prefix_length_prefix)
    then have "replyHead m (raw @ buf) reply_init = Some reply_init"
      using replyHead_partial [of l hs "raw @ buf" m] ok True small' by (simp add: ls)
    with b Cons.IH [OF gd w True] show ?thesis by (simp add: replyComplete_def reply_init_def)
  next
    case False
    then have "prefix (head_text ls) (raw @ buf)"
      using w by (metis linorder_not_less prefixI prefix_length_prefix)
    then obtain t where t: "raw @ buf = head_text ls @ t" by (auto simp: prefix_def)
    then have tb: "t @ received ios = body" using w by simp
    have h: "replyHead m (raw @ buf) reply_init = Some r"
      using replyHead_complete [OF ok _ head, of t] small' t by simp
    have he: "rp_headerEnd r = Some (?n - 4)"
      using parsed_head_end [OF head] by (simp add: head_text_def)
    have n4: "?n - 4 + 4 = ?n" using ok by (cases l) (auto simp: head_text_def ls)
    show ?thesis
    proof (cases "rp_contentLength r \<le> length t")
      case True
      then have "length (received ios) = 0" using tb body by (metis diff_is_0_eq' length_append add_diff_cancel_left' )
      with tb True b h he n4 show ?thesis by (simp add: t replyComplete_def finish_def)
    next
      case False
      with recv_body [OF he, of "?n + rp_contentLength r" ios "raw @ buf" m] b h he n4 gd tb body show ?thesis
        by (simp add: t replyComplete_def)
    qed
  qed
qed (auto simp: received_def)

section \<open>What another server of this code base answers\<close>

definition header_text :: "string \<times> string \<Rightarrow> string" where
  "header_text h = fst h @ '': '' @ snd h"

definition status_line :: "HttpResponse \<Rightarrow> string" where
  "status_line resp = ''HTTP/1.1 '' @ int_to_string (rs_statusCode resp) @ '' '' @ rs_statusText resp"

definition framed :: "string \<Rightarrow> bool" where
  "framed k \<longleftrightarrow> k \<in> {''content-length'', ''transfer-encoding'', ''connection'', ''keep-alive'',
     ''proxy-connection'', ''upgrade''}"

definition relayable :: "string \<times> string \<Rightarrow> bool" where
  "relayable h \<longleftrightarrow> CHR '':'' \<notin> set (fst h) \<and> line_free (fst h) \<and> line_free (snd h) \<and>
     \<not> framed (map tolower (fst h))"

definition relayed :: "string \<times> string \<Rightarrow> string \<times> string" where
  "relayed h = (map tolower (fst h), dropWhile isspace (snd h))"

definition plain_response :: "HttpResponse \<Rightarrow> bool" where
  "plain_response resp \<longleftrightarrow> int_range (rs_statusCode resp) \<and> line_free (rs_statusText resp) \<and>
     list_all relayable (rs_headers resp)"

lemma split_header:
  "CHR '':'' \<notin> set k \<Longrightarrow> find_first (\<lambda>c. c = CHR '':'') (k @ CHR '':'' # v) = Some (length k)"
  by (rule find_first_split) auto

lemma replyHeader_plain:
  "relayable h \<Longrightarrow> replyHeader m (header_text h) r = Some (r\<lparr>rp_headers := rp_headers r @ [relayed h]\<rparr>)"
  by (auto simp: replyHeader_def header_text_def relayable_def relayed_def framed_def split_header
      substr_def substr_from_def isspace_def Let_def)

lemma foldHeaders_plain:
  "list_all relayable hs \<Longrightarrow>
   foldHeaders m (map header_text hs @ rest) r =
     foldHeaders m rest (r\<lparr>rp_headers := rp_headers r @ map relayed hs\<rparr>)"
  by (induction hs arbitrary: r) (auto simp: replyHeader_plain)

lemma lower_letters [simp]: "char_of (99 :: nat) = CHR ''c''" "char_of (108 :: nat) = CHR ''l''"
  by code_simp+

lemma lower_names [simp]:
  "map tolower ''Content-Length'' = ''content-length''" "map tolower ''Connection'' = ''connection''"
  by (simp_all add: tolower_def isupper_def)

lemma replyHeader_length:
  "\<not> rp_gotContentLength r \<Longrightarrow> n \<le> m \<Longrightarrow> n < 2 ^ 64 \<Longrightarrow>
   replyHeader m (header_text (''Content-Length'', nat_to_string n)) r =
     Some (r\<lparr>rp_contentLength := n, rp_gotContentLength := True\<rparr>)"
  using split_header [of "''Content-Length''" "'' '' @ nat_to_string n"] lower_names(1)
  by (simp add: replyHeader_def header_text_def substr_def substr_from_def Let_def
      from_chars_to_string isspace_def [of SP])

lemma replyHeader_connection:
  "replyHeader m (header_text (''Connection'', if ka then ''keep-alive'' else ''close'')) r =
     Some (r\<lparr>rp_reusable := ka\<rparr>)"
  by (cases ka) (simp_all add: replyHeader_def header_text_def substr_def substr_from_def Let_def
      isspace_def isConnectionClose_def str_find_def tolower_def isupper_def)

definition response_lines :: "HttpResponse \<Rightarrow> bool \<Rightarrow> string list" where
  "response_lines resp ka =
     status_line resp # map header_text (rs_headers resp) @
     [header_text (''Content-Length'', nat_to_string (length (rs_body resp))),
      header_text (''Connection'', if ka then ''keep-alive'' else ''close'')]"

lemma text_lines_headers: "text_lines (map header_text hs) = concat (map header_line hs)"
  by (induction hs) (simp_all add: header_text_def header_line_def)

lemma serialize_lines:
  assumes "plain_response resp"
  shows "serialize resp ka = head_text (response_lines resp ka) @ rs_body resp"
proof -
  have "\<not> has_name k (rs_headers resp)" if "framed (map tolower k)" for k
    using assms that by (auto simp: plain_response_def has_name_def list_ex_iff list_all_iff relayable_def)
  from this [of "''Content-Length''"] this [of "''Connection''"] show ?thesis unfolding lower_names
    by (simp add: serialize_def head_text_def response_lines_def text_lines_headers status_line_def framed_def
        header_text_def [of "(_, _)"] header_line_def [of "(_, _)"])
qed

lemma find_sub_char: "c \<notin> set a \<Longrightarrow> find_sub [c] (a @ c # b) = Some (length a)"
  by (induction a) auto

lemma substr_mid: "substr (a @ b @ c) (length a) (length b) = b"
  by (simp add: substr_def)

lemma int_string_free: "SP \<notin> set (int_to_string i)" "CR \<notin> set (int_to_string i)" "LF \<notin> set (int_to_string i)"
proof -
  have "\<not> isspace c" if "c \<in> set (int_to_string i)" for c
    using int_string_chars [OF that] digit_class [of c] by (elim disjE) (simp_all add: isspace_def)
  moreover have "isspace SP" "isspace CR" "isspace LF" by (simp_all add: isspace_def)
  ultimately show "SP \<notin> set (int_to_string i)" "CR \<notin> set (int_to_string i)" "LF \<notin> set (int_to_string i)"
    by blast+
qed

lemma header_text_ok: "relayable h \<Longrightarrow> header_text h \<noteq> [] \<and> line_free (header_text h)"
  by (simp add: header_text_def relayable_def line_free_def)

lemma digits_line_free: "line_free (nat_to_string n)"
  using nat_string_all [of n] digit_class by (auto simp: line_free_def)

lemma response_lines_ok:
  assumes "plain_response resp"
  shows "list_all (\<lambda>l. l \<noteq> [] \<and> line_free l) (response_lines resp ka)"
proof -
  have "list_all (\<lambda>l. l \<noteq> [] \<and> line_free l) (map header_text (rs_headers resp))"
    using assms header_text_ok by (auto simp: plain_response_def list_all_iff)
  moreover have "line_free (status_line resp)"
    using assms int_string_free by (simp add: plain_response_def status_line_def line_free_def)
  moreover have "header_text (''Content-Length'', nat_to_string n) \<noteq> []"
    "line_free (header_text (''Content-Length'', nat_to_string n))" for n
    using digits_line_free [of n] by (simp_all add: header_text_def line_free_def)
  moreover have "line_free (header_text (''Connection'', if ka then ''keep-alive'' else ''close''))"
    by (simp add: header_text_def line_free_def)
  ultimately show ?thesis by (simp add: response_lines_def status_line_def) (simp add: header_text_def)
qed

lemma parsed_response:
  assumes "plain_response resp" and "length (rs_body resp) \<le> m" and "length (rs_body resp) < 2 ^ 64"
  shows "parsed_head m (response_lines resp ka) =
    Some \<lparr>rp_headerEnd = Some (length (text_lines (response_lines resp ka)) - 2),
      rp_contentLength = length (rs_body resp), rp_gotContentLength = True,
      rp_headers = map relayed (rs_headers resp), rp_reusable = ka\<rparr>"
  using assms replyHeader_length [of _ "length (rs_body resp)" m]
  by (simp add: parsed_head_def response_lines_def plain_response_def foldHeaders_plain
      replyHeader_connection reply_init_def del: text_lines_simps)

lemma response_read:
  assumes "plain_response resp" and "rp_headerEnd r = Some (length (text_lines (response_lines resp ka)) - 2)"
    and "rp_contentLength r = length (rs_body resp)" and "length (head_text (response_lines resp ka)) < 2 ^ 64"
  shows "replyResponse (head_text (response_lines resp ka) @ rs_body resp) r =
    Some (resp\<lparr>rs_headers := rp_headers r\<rparr>)"
proof -
  let ?raw = "head_text (response_lines resp ka) @ rs_body resp"
  let ?code = "int_to_string (rs_statusCode resp)" and ?text = "rs_statusText resp"
  let ?hs = "tl (response_lines resp ka)"
  let ?rest = "text_lines ?hs @ CRLF @ rs_body resp"
  have hs: "response_lines resp ka = status_line resp # ?hs" by (simp add: response_lines_def)
  have raw: "?raw = ''HTTP/1.1 '' @ ?code @ SP # ?text @ CRLF @ ?rest"
    by (subst hs) (simp add: head_text_def status_line_def)
  have s1: "str_find ?raw '' '' 0 = Some 8"
    unfolding raw using find_sub_char [of SP "''HTTP/1.1''"] by (simp add: str_find_def)
  have s2: "str_find ?raw '' '' 9 = Some (9 + length ?code)"
    unfolding raw using find_sub_char [OF int_string_free(1)] by (simp add: str_find_def)
  have le: "str_find ?raw CRLF 0 = Some (9 + length ?code + Suc (length ?text))"
    unfolding raw using assms(1) int_string_free
    find_sub_crlf [of "''HTTP/1.1 '' @ ?code @ SP # ?text" ?rest]
    by (simp add: str_find_def plain_response_def line_free_def)
  have lt: "9 + length ?code + Suc (length ?text) < 2 ^ 64"
    using assms(4) by (subst (asm) hs) (simp add: head_text_def status_line_def)
  have he: "length (text_lines (response_lines resp ka)) - 2 + 4 = length (head_text (response_lines resp ka))"
    by (subst (1 2) hs) (simp add: head_text_def)
  have b: "substr ?raw (length (text_lines (response_lines resp ka)) - 2 + 4) (length (rs_body resp)) = rs_body resp"
    unfolding he by (simp add: substr_def)
  have u: "usub (usub (9 + length ?code + Suc (length ?text)) (9 + length ?code)) 1 = length ?text"
    using lt usub_le [of "9 + length ?code" "9 + length ?code + Suc (length ?text)"]
      usub_le [of 1 "Suc (length ?text)"] by simp
  define P :: string where "P = ''HTTP/1.1 ''"
  then have P: "length P = 9" and rawP: "?raw = P @ ?code @ SP # ?text @ CRLF @ ?rest" using raw by simp_all
  have c: "substr ?raw 9 (length ?code) = ?code"
    using substr_mid [of P ?code "SP # ?text @ CRLF @ ?rest"] unfolding rawP P .
  have t: "substr ?raw (9 + length ?code + 1) (length ?text) = ?text"
    using substr_mid [of "P @ ?code @ [SP]" ?text "CRLF @ ?rest"] unfolding rawP by (simp add: P)
  have code: "atoi ?code = rs_statusCode resp" using assms(1) by (simp add: plain_response_def atoi_int)
  have "substr ?raw (8 + 1) (9 + length ?code - 8 - 1) = ?code"
    using c by simp
  moreover have "str_find ?raw '' '' (8 + 1) = Some (9 + length ?code)" using s2 by simp
  ultimately show ?thesis
    unfolding replyResponse_def assms(2) option.case s1 le pos_val_def Let_def
    by (simp only: option.case u t code b assms(3)) simp
qed

section \<open>The exchange ends, and what it accepts is framed\<close>

text \<open>
  What holds of the receiver's variables at the top of its loop: until the head is found at most
  32768 bytes are kept, afterwards the announced length is within the limit and not yet reached.
\<close>

definition reply_ok :: "nat \<Rightarrow> reply \<Rightarrow> bool" where
  "reply_ok m r \<longleftrightarrow> rp_contentLength r \<le> m \<and>
     list_all (\<lambda>(k, v). map tolower k = k \<and> \<not> framed k) (rp_headers r)"

definition reply_inv :: "nat \<Rightarrow> string \<Rightarrow> reply \<Rightarrow> bool" where
  "reply_inv m raw r \<longleftrightarrow> reply_ok m r \<and>
     (case rp_headerEnd r of None \<Rightarrow> length raw \<le> 32768 \<and> rp_headers r = []
      | Some he \<Rightarrow> he + 4 \<le> 32768 \<and> he + 4 \<le> length raw)"

lemma replyHeader_ok:
  assumes "replyHeader m l r = Some r'" and "reply_ok m r"
  shows "reply_ok m r'"
  using assms
  by (auto simp: replyHeader_def reply_ok_def framed_def Let_def comp_def
      split: option.splits if_splits from_chars_result.splits)

lemma replyHeaders_ok:
  "replyHeaders m raw ls he r = Some r' \<Longrightarrow> reply_ok m r \<Longrightarrow> reply_ok m r' \<and> rp_headerEnd r' = rp_headerEnd r"
proof (induction m raw ls he r rule: replyHeaders.induct)
  case (1 m raw ls he r)
  show ?case
  proof (cases "ls < he")
    case True
    with "1.prems" obtain le r1 where le: "str_find raw CRLF ls = Some le" "\<not> he < le"
      and r1: "replyHeader m (substr raw ls (le - ls)) r = Some r1"
      and rec: "replyHeaders m raw (le + 2) he r1 = Some r'"
      by (auto simp: replyHeaders.simps [of m raw ls] split: option.splits if_splits)
    from "1.IH" [OF True le r1 rec replyHeader_ok [OF r1 "1.prems"(2)]] replyHeader_end [OF r1]
    show ?thesis by simp
  next
    case False
    with "1.prems" show ?thesis by (simp add: replyHeaders.simps [of m _ ls])
  qed
qed

lemma replyHead_inv:
  assumes "replyHead m (raw @ buf) r = Some r'" and "reply_inv m raw r"
  shows "reply_inv m (raw @ buf) r'"
proof (cases "rp_headerEnd r")
  case None
  show ?thesis
  proof (cases "str_find (raw @ buf) (CRLF @ CRLF) 0")
    case (Some he)
    let ?r = "r\<lparr>rp_headerEnd := Some he\<rparr>"
    from assms(1) None Some have len: "length (raw @ buf) \<le> 32768"
      and r': "replyHeaders m (raw @ buf) (uadd (pos_val (str_find (raw @ buf) CRLF 0)) 2) he ?r = Some r'"
      by (auto simp: replyHead_def split: if_splits option.splits)
    have "reply_ok m ?r" using assms(2) by (simp add: reply_inv_def reply_ok_def)
    from replyHeaders_ok [OF r' this] str_find_SomeD(2) [OF Some] len show ?thesis
      by (simp add: reply_inv_def reply_ok_def)
  qed (use assms None in \<open>auto simp: replyHead_def reply_inv_def split: if_splits\<close>)
next
  case (Some he)
  with assms show ?thesis by (auto simp: replyHead_def reply_inv_def)
qed

lemma recv_bounded:
  "recv_loop m ios raw r = Waiting \<Longrightarrow> reply_inv m raw r \<Longrightarrow> length raw \<le> 32768 + m \<Longrightarrow>
   length raw + length ios \<le> 32768 + m"
proof (induction m ios raw r rule: recv_loop.induct)
  case (2 m io ios raw r)
  then obtain buf r1 where b: "ri_data io = Some buf" "buf \<noteq> []" "replyHead m (raw @ buf) r = Some r1"
    "\<not> replyComplete (raw @ buf) r1" "recv_loop m ios (raw @ buf) r1 = Waiting"
    "\<not> ri_remainingMs io \<le> 0" "\<not> ri_ready io \<le> 0"
    by (auto split: if_splits option.splits)
  note inv = replyHead_inv [OF b(3) "2.prems"(2)]
  have "length (raw @ buf) \<le> 32768 + m"
    using inv b(4) by (auto simp: reply_inv_def reply_ok_def replyComplete_def split: option.splits)
  with "2.IH" [OF b(6,7,1,2,3,4,5) inv] have "length (raw @ buf) + length ios \<le> 32768 + m" by simp
  then have "length raw + length buf + length ios \<le> 32768 + m" by simp
  moreover have "0 < length buf" using b(2) by blast
  ultimately have "length raw + Suc (length ios) \<le> 32768 + m" by linarith
  then show ?case by simp
qed simp

lemma recv_answered:
  "recv_loop m ios raw r = Answered resp ka \<Longrightarrow> reply_inv m raw r \<Longrightarrow>
   length (rs_body resp) \<le> m \<and> list_all (\<lambda>(k, v). map tolower k = k \<and> \<not> framed k) (rs_headers resp)"
proof (induction m ios raw r rule: recv_loop.induct)
  case (2 m io ios raw r)
  then obtain buf r1 where b: "ri_data io = Some buf" "buf \<noteq> []" "replyHead m (raw @ buf) r = Some r1"
    "\<not> ri_remainingMs io \<le> 0" "\<not> ri_ready io \<le> 0"
    by (auto split: if_splits option.splits)
  note inv = replyHead_inv [OF b(3) "2.prems"(2)]
  show ?case
  proof (cases "replyComplete (raw @ buf) r1")
    case True
    with "2.prems"(1) b inv show ?thesis
      by (auto simp: replyResponse_def reply_inv_def reply_ok_def substr_def Let_def split: option.splits)
  next
    case False
    with "2.prems"(1) b "2.IH" [OF b(4,5,1,2,3) False _ inv] show ?thesis by simp
  qed
qed simp

lemma send_bounded:
  "list_all (\<lambda>io. si_result io \<noteq> WouldBlock) ios \<Longrightarrow> length request \<le> sent + length ios \<Longrightarrow>
   fst (send_loop request sent ios) \<noteq> SendWaiting"
proof (induction ios arbitrary: sent)
  case (Cons io ios)
  have "fst (send_loop request (sent + nat n) ios) \<noteq> SendWaiting" if "0 < n" for n
    using Cons.IH [of "sent + nat n"] Cons.prems that by simp
  with Cons.prems(1) show ?case
    by (subst send_loop.simps) (auto split: sent_result.split)
qed (simp add: send_loop.simps)

definition enough_io :: "string \<Rightarrow> nat \<Rightarrow> send_io list \<Rightarrow> recv_io list \<Rightarrow> bool" where
  "enough_io request m sends recvs \<longleftrightarrow>
     list_all (\<lambda>io. si_result io \<noteq> WouldBlock) sends \<and> length request \<le> length sends \<and>
     32768 + m < length recvs"

lemma reply_init_inv [simp]: "reply_inv m [] reply_init"
  by (simp add: reply_inv_def reply_ok_def reply_init_def)

lemma exchange_ends:
  "enough_io request m sends recvs \<Longrightarrow> sendAndReceive request m sends recvs \<noteq> Waiting"
  using send_bounded [of sends request 0] recv_bounded [of m recvs "[]" reply_init]
  by (auto simp: enough_io_def sendAndReceive_def split: send_outcome.splits)

lemma relay_serialized:
  assumes "plain_response resp" and "length (rs_body resp) \<le> maxBody" and "maxBody < 2 ^ 64"
    and "length (serialize resp ka) \<le> 24577 + length (rs_body resp)"
    and "fst (send_loop request 0 sends) = SendDone"
    and "good_reads recvs" and "received recvs = serialize resp ka"
  shows "sendAndReceive request maxBody sends recvs =
    Answered (resp\<lparr>rs_headers := map relayed (rs_headers resp)\<rparr>) ka"
proof -
  let ?ls = "response_lines resp ka"
  note lines = serialize_lines [OF assms(1), of ka]
  obtain r where r: "parsed_head maxBody ?ls = Some r" "rp_contentLength r = length (rs_body resp)"
    "rp_headers r = map relayed (rs_headers resp)" "rp_reusable r = ka"
    using parsed_response [OF assms(1,2), of ka] assms(2,3) by simp
  have small: "length (head_text ?ls) \<le> 24577" using assms(4) lines by simp
  have ok: "list_all (\<lambda>l. l \<noteq> [] \<and> line_free l) ?ls" by (rule response_lines_ok [OF assms(1)])
  have "0 < length (head_text ?ls)" by (simp add: head_text_def)
  then have "recv_loop maxBody recvs [] reply_init = finish (serialize resp ka) r"
    using recv_any_chunks [OF ok small r(1) _ assms(6), of "rs_body resp" "[]"] r(2) assms(7) lines by simp
  moreover have "replyResponse (serialize resp ka) r = Some (resp\<lparr>rs_headers := rp_headers r\<rparr>)"
    unfolding lines using response_read [OF assms(1) parsed_head_end [OF r(1)] r(2)] small by simp
  ultimately show ?thesis using assms(5) r by (simp add: sendAndReceive_def finish_def)
qed

section \<open>Properties\<close>

text \<open>
  C4: A response written by \<open>serialize\<close> comes back from the exchange with the same status code,
  reason phrase and body, with its headers in order under lower-case names, and with the connection
  marked reusable exactly when it was serialized as keep-alive, however the bytes are cut into reads
  of at most 8192 bytes. The head must fit 24577 bytes: the limit of 32768 bytes is checked on all
  bytes received so far, body included, before the end of the head is looked for.
\<close>

theorem relay_response_roundtrip:
  assumes "plain_response resp" and "length (rs_body resp) \<le> maxBody" and "maxBody < 2 ^ 64"
    and "length (serialize resp ka) \<le> 24577 + length (rs_body resp)"
    and "fst (send_loop request 0 sends) = SendDone"
    and "good_reads recvs" and "received recvs = serialize resp ka"
  shows "sendAndReceive request maxBody sends recvs =
    Answered (resp\<lparr>rs_headers := map relayed (rs_headers resp)\<rparr>) ka"
  by (rule relay_serialized [OF assms])

theorem relay_response_roundtrip_witness:
  "sendAndReceive ''GET'' 100
     [\<lparr>si_ready = 1, si_result = WouldBlock\<rparr>, \<lparr>si_ready = 1, si_result = Sent 3\<rparr>]
     [\<lparr>ri_remainingMs = 50, ri_ready = 1, ri_data = Some ''HTTP/1.1 404 Not''\<rparr>,
      \<lparr>ri_remainingMs = 40, ri_ready = 1, ri_data = Some ('' Found'' @ CRLF @ ''X-A:  b'' @ CRLF @
         ''Content-Length: 2'' @ CRLF @ ''Connection: close'' @ CRLF @ [CR])\<rparr>,
      \<lparr>ri_remainingMs = 30, ri_ready = 1, ri_data = Some (LF # ''hi'')\<rparr>] =
   Answered \<lparr>rs_statusCode = 404, rs_statusText = ''Not Found'', rs_headers = [(''x-a'', ''b'')],
             rs_body = ''hi''\<rparr> False"
proof -
  let ?resp = "\<lparr>rs_statusCode = 404, rs_statusText = ''Not Found'', rs_headers = [(''X-A'', '' b'')],
    rs_body = ''hi''\<rparr>"
  let ?recvs = "[\<lparr>ri_remainingMs = 50, ri_ready = 1, ri_data = Some ''HTTP/1.1 404 Not''\<rparr>,
      \<lparr>ri_remainingMs = 40, ri_ready = 1, ri_data = Some ('' Found'' @ CRLF @ ''X-A:  b'' @ CRLF @
         ''Content-Length: 2'' @ CRLF @ ''Connection: close'' @ CRLF @ [CR])\<rparr>,
      \<lparr>ri_remainingMs = 30, ri_ready = 1, ri_data = Some (LF # ''hi'')\<rparr>]"
  let ?sends = "[\<lparr>si_ready = 1, si_result = WouldBlock\<rparr>, \<lparr>si_ready = 1, si_result = Sent 3\<rparr>]"
  have "plain_response ?resp" by code_simp
  moreover have "length (rs_body ?resp) \<le> 100" "(100 :: nat) < 2 ^ 64" by simp_all
  moreover have "length (serialize ?resp False) \<le> 24577 + length (rs_body ?resp)" by code_simp
  moreover have "fst (send_loop ''GET'' 0 ?sends) = SendDone" by code_simp
  moreover have "good_reads ?recvs" by code_simp
  moreover have "received ?recvs = serialize ?resp False" by code_simp
  ultimately have "sendAndReceive ''GET'' 100 ?sends ?recvs =
      Answered (?resp\<lparr>rs_headers := map relayed (rs_headers ?resp)\<rparr>) False"
    by (rule relay_response_roundtrip)
  moreover have "map relayed (rs_headers ?resp) = [(''x-a'', ''b'')]" by code_simp
  ultimately show ?thesis by simp
qed

text \<open>
  C18: The exchange ends whatever the backend does: when no send reports that it would block, it has
  succeeded or failed after at most one send per byte of the request and 32769 reads more than the
  body limit. A backend that feeds one byte at a time cannot hold the worker beyond that.
\<close>

theorem relay_terminates:
  assumes "list_all (\<lambda>io. si_result io \<noteq> WouldBlock) sends" and "length request \<le> length sends"
    and "32768 + maxBody < length recvs"
  shows "sendAndReceive request maxBody sends recvs \<noteq> Waiting"
  using assms by (intro exchange_ends) (simp add: enough_io_def)

theorem relay_terminates_witness:
  "sendAndReceive ''GET'' 2 (replicate 3 \<lparr>si_ready = 1, si_result = Sent 1\<rparr>)
     (replicate 32771 \<lparr>ri_remainingMs = 5, ri_ready = 1, ri_data = Some ''x''\<rparr>) \<noteq> Waiting"
proof (rule relay_terminates)
  show "32768 + 2 < length (replicate 32771 \<lparr>ri_remainingMs = 5, ri_ready = 1, ri_data = Some ''x''\<rparr>)"
    by (simp only: length_replicate)
qed (simp_all add: numeral_3_eq_3)



end
