(* ===== verification/Forwarding.thy ===== *)
theory Forwarding
  imports Relay Router ConnectionPool RateLimiter RetryPolicy LRUCache Metrics Logger Config
begin

text \<open>
  The gateway object of include/core/Gateway.hpp and the part of src/core/Gateway.cpp that builds
  it and forwards a request: the constructor, \<open>buildRouter\<close> and \<open>forwardWithResilience\<close>. The
  state holds the members of the object, the process-wide registries the code reaches through
  singletons (metrics, log, request counter) and the open descriptors. Balancers and backends are
  shared objects: routes and balancers refer to them by position.

  An attempt takes from its script what the world answers: the clock readings of the breaker, the
  connect sequence, the system calls of the exchange and the random draw of the delay.
\<close>

section \<open>State\<close>

record CachedResponse =
  cr_statusCode :: int
  cr_statusText :: string
  cr_headers :: "(string \<times> string) list"
  cr_body :: string

record Gateway =
  gw_cfg :: GatewayConfig
  gw_router :: Router
  gw_allBackends :: backends
  gw_balancers :: "LoadBalancer list"
  gw_loadBalancers :: "(string, nat) umap"
  gw_rateLimiter :: RateLimiter
  gw_retryPolicy :: RetryPolicy
  gw_cache :: "CachedResponse LRUCache"
  gw_pool :: ConnectionPool
  gw_running :: bool
  gw_startTime :: time_ns
  gw_metrics :: Metrics
  gw_log :: "log_event list"
  gw_nextId :: "64 word"
  gw_descs :: descs
  gw_slept :: "int list"

definition quoted :: "string \<Rightarrow> string" where
  "quoted s = [DQUOTE] @ s @ [DQUOTE]"

definition log_event_gw :: "Level \<Rightarrow> string \<Rightarrow> string \<Rightarrow> Gateway \<Rightarrow> Gateway" where
  "log_event_gw lvl msg flds gw = gw\<lparr>gw_log := gw_log gw @ [(lvl, msg, flds)]\<rparr>"

definition metric :: "(Metrics \<Rightarrow> Metrics) \<Rightarrow> Gateway \<Rightarrow> Gateway" where
  "metric f gw = gw\<lparr>gw_metrics := f (gw_metrics gw)\<rparr>"

definition on_backend :: "nat \<Rightarrow> (Backend \<Rightarrow> Backend) \<Rightarrow> Gateway \<Rightarrow> Gateway" where
  "on_backend b f gw = gw\<lparr>gw_allBackends := (gw_allBackends gw)[b := f (gw_allBackends gw ! b)]\<rparr>"

section \<open>Construction\<close>

definition make_backend :: "GatewayConfig \<Rightarrow> BackendConfig \<Rightarrow> Backend" where
  "make_backend cfg b =
     Backend_init (bc_host b) (bc_port b)
       (CircuitBreaker_init (cf_circuitFailureThreshold cfg) (cf_circuitResetTimeoutMs cfg) 1)"

definition add_group :: "BackendGroupConfig \<Rightarrow> Gateway \<Rightarrow> Gateway" where
  "add_group grp gw =
     (let first = length (gw_allBackends gw);
          refs = [first..<first + length (gc_backends grp)];
          strategy = (if gc_strategy grp = ''least_connections'' then LeastConnections else RoundRobin)
      in gw\<lparr>gw_allBackends := gw_allBackends gw @ map (make_backend (gw_cfg gw)) (gc_backends grp),
            gw_loadBalancers := AList.update (gc_name grp) (length (gw_balancers gw)) (gw_loadBalancers gw),
            gw_balancers := gw_balancers gw @ [LoadBalancer_init refs strategy]\<rparr>)"

definition add_route :: "RouteConfig \<Rightarrow> Gateway \<Rightarrow> Gateway" where
  "add_route r gw =
     (case map_of (gw_loadBalancers gw) (rc_backendGroup r) of
        None \<Rightarrow>
          log_event_gw WARN ''route references unknown backend group''
            (quoted ''path_prefix'' @ '':'' @ quoted (rc_pathPrefix r) @ '','' @
             quoted ''backend_group'' @ '':'' @ quoted (rc_backendGroup r)) gw
      | Some lb \<Rightarrow>
          gw\<lparr>gw_router := addRoute (gw_router gw)
               \<lparr>rt_pathPrefix = rc_pathPrefix r, rt_lb = lb, rt_cacheable = rc_cacheable r\<rparr>\<rparr>)"

definition buildRouter :: "Gateway \<Rightarrow> Gateway" where
  "buildRouter gw = fold add_route (cf_routes (gw_cfg gw)) (fold add_group (cf_backendGroups (gw_cfg gw)) gw)"

definition Gateway_init :: "GatewayConfig \<Rightarrow> Gateway" where
  "Gateway_init cfg =
     buildRouter
       \<lparr>gw_cfg = cfg, gw_router = [], gw_allBackends = [], gw_balancers = [], gw_loadBalancers = [],
        gw_rateLimiter = TokenBucketRateLimiter (real_of_int (cf_rateLimitCapacity cfg)) (cf_rateLimitRefillPerSecond cfg),
        gw_retryPolicy = RetryPolicy_init (cf_retryMax cfg) (cf_retryBaseDelayMs cfg) (cf_retryMaxDelayMs cfg),
        gw_cache = LRUCache_init (cf_cacheCapacity cfg) (cf_cacheTtlMs cfg),
        gw_pool = ConnectionPool_init (cf_maxIdleConnsPerBackend cfg) (cf_connectTimeoutMs cfg),
        gw_running = False, gw_startTime = 0, gw_metrics = Metrics_init, gw_log = [], gw_nextId = 0,
        gw_descs = [], gw_slept = []\<rparr>"

section \<open>Forwarding\<close>

record attempt_io =
  at_allowAt :: time_ns
  at_dial :: dial_io
  at_sends :: "send_io list"
  at_recvs :: "recv_io list"
  at_failAt :: time_ns
  at_draw :: real

definition set_breaker :: "(CircuitBreaker \<Rightarrow> CircuitBreaker) \<Rightarrow> Backend \<Rightarrow> Backend" where
  "set_breaker f b = b\<lparr>be_circuitBreaker := f (be_circuitBreaker b)\<rparr>"

definition add_active :: "int \<Rightarrow> Backend \<Rightarrow> Backend" where
  "add_active d b = b\<lparr>be_activeConnections := be_activeConnections b + d\<rparr>"

text \<open>
  One exchange with an admitted backend: count it as active, take a connection, talk, count it as
  inactive, tell the breaker and give the connection back or close it.
\<close>

definition settle :: "nat \<Rightarrow> attempt_io \<Rightarrow> fd \<Rightarrow> exchange \<Rightarrow> Gateway \<Rightarrow> Gateway" where
  "settle b io fd result gw =
     (let be = gw_allBackends gw ! b
      in case result of
           Waiting \<Rightarrow> gw
         | Answered resp reusable \<Rightarrow>
             (let gw = on_backend b (set_breaker onSuccess) (on_backend b (add_active (-1)) gw)
              in if reusable
                 then (case release (be_host be) (be_port be) fd (gw_pool gw) (gw_descs gw) of
                         (pool, os) \<Rightarrow> gw\<lparr>gw_pool := pool, gw_descs := os\<rparr>)
                 else gw\<lparr>gw_descs := discard fd (gw_descs gw)\<rparr>)
         | Failed \<Rightarrow>
             (let gw = on_backend b (add_active (-1)) gw;
                  gw = (if fd \<ge> 0 then gw\<lparr>gw_descs := discard fd (gw_descs gw)\<rparr> else gw)
              in on_backend b (set_breaker (\<lambda>cb. onFailure cb (at_failAt io))) gw))"

definition attemptBackend :: "HttpRequest \<Rightarrow> nat \<Rightarrow> attempt_io \<Rightarrow> Gateway \<Rightarrow> exchange \<times> Gateway" where
  "attemptBackend req b io gw =
     (let gw = on_backend b (add_active 1) gw;
          be = gw_allBackends gw ! b
      in case acquire (at_dial io) (be_host be) (be_port be) (gw_pool gw) (gw_descs gw) of
           (fd, pool, os) \<Rightarrow>
             (let gw = gw\<lparr>gw_pool := pool, gw_descs := os\<rparr>;
                  result = (if fd \<ge> 0
                            then sendAndReceive (buildBackendRequest req be)
                                   (cf_maxResponseBodyBytes (gw_cfg gw)) (at_sends io) (at_recvs io)
                            else Failed)
              in (result, settle b io fd result gw)))"

definition back_off :: "HttpRequest \<Rightarrow> nat \<Rightarrow> attempt_io \<Rightarrow> Gateway \<Rightarrow> Gateway" where
  "back_off req attempt io gw =
     (let gw = metric incRetries gw;
          delay = nextDelay (gw_retryPolicy gw) (at_draw io) attempt;
          gw = log_event_gw WARN ''retrying backend request''
                 (quoted ''request_id'' @ '':'' @ quoted (rq_requestId req) @ '','' @ quoted ''attempt'' @ '':'' @
                  nat_to_string (attempt + 1) @ '','' @ quoted ''delay_ms'' @ '':'' @ int_to_string delay) gw
      in gw\<lparr>gw_slept := gw_slept gw @ [delay]\<rparr>)"

definition pick_for :: "Route \<Rightarrow> Gateway \<Rightarrow> nat option \<times> Gateway" where
  "pick_for route gw =
     (case pick (gw_allBackends gw) (gw_balancers gw ! rt_lb route) of
        (b, lb) \<Rightarrow> (b, gw\<lparr>gw_balancers := (gw_balancers gw)[rt_lb route := lb]\<rparr>))"

definition admit :: "nat \<Rightarrow> time_ns \<Rightarrow> Gateway \<Rightarrow> bool \<times> Gateway" where
  "admit b now gw =
     (case allowRequest (be_circuitBreaker (gw_allBackends gw ! b)) now of
        (ok, cb) \<Rightarrow> (ok, on_backend b (set_breaker (\<lambda>_. cb)) gw))"

datatype iteration = Return HttpResponse | Blocked | Continue

definition forward_step :: "Route \<Rightarrow> HttpRequest \<Rightarrow> nat \<Rightarrow> attempt_io \<Rightarrow> Gateway \<Rightarrow> iteration \<times> Gateway" where
  "forward_step route req attempt io gw =
     (let attempts = rp_maxRetries (gw_retryPolicy gw) + 1
      in case pick_for route gw of
           (None, gw) \<Rightarrow>
             (Return (HttpMessage.make 503 ''Service Unavailable'' ''no healthy backends''), gw)
         | (Some b, gw) \<Rightarrow>
             (case admit b (at_allowAt io) gw of
                (False, gw) \<Rightarrow> (Continue, metric incCircuitOpen gw)
              | (True, gw) \<Rightarrow>
                  (case attemptBackend req b io gw of
                     (Waiting, gw) \<Rightarrow> (Blocked, gw)
                   | (Answered resp reusable, gw) \<Rightarrow>
                       if rs_statusCode resp < 500 then (Return resp, gw)
                       else if int attempt = attempts - 1 then (Return resp, gw)
                       else if \<not> isRetryable (rs_statusCode resp) then (Return resp, gw)
                       else (Continue, back_off req attempt io gw)
                   | (Failed, gw) \<Rightarrow>
                       if int attempt = attempts - 1
                       then (Return (HttpMessage.make 502 ''Bad Gateway'' ''backend request failed''), gw)
                       else (Continue, back_off req attempt io gw))))"

text \<open>Each iteration takes one entry of the script; when the script ends the call has not returned.\<close>

fun forward_loop ::
  "Route \<Rightarrow> HttpRequest \<Rightarrow> nat \<Rightarrow> attempt_io list \<Rightarrow> Gateway \<Rightarrow> HttpResponse option \<times> Gateway" where
  "forward_loop route req attempt ios gw =
     (if int attempt < rp_maxRetries (gw_retryPolicy gw) + 1 then
        (case ios of
           [] \<Rightarrow> (None, gw)
         | io # ios \<Rightarrow>
             (case forward_step route req attempt io gw of
                (Return resp, gw) \<Rightarrow> (Some resp, gw)
              | (Blocked, gw) \<Rightarrow> (None, gw)
              | (Continue, gw) \<Rightarrow> forward_loop route req (attempt + 1) ios gw))
      else (Some (HttpMessage.make 503 ''Service Unavailable'' ''all retries exhausted''), gw))"

declare forward_loop.simps [simp del]

definition forwardWithResilience ::
  "Route \<Rightarrow> HttpRequest \<Rightarrow> attempt_io list \<Rightarrow> Gateway \<Rightarrow> HttpResponse option \<times> Gateway" where
  "forwardWithResilience route req ios gw = forward_loop route req 0 ios gw"

lemmas gw_ops = log_event_gw_def metric_def on_backend_def set_breaker_def add_active_def

section \<open>Well-formed gateways\<close>

definition lb_wf :: "nat \<Rightarrow> LoadBalancer \<Rightarrow> bool" where
  "lb_wf n lb \<longleftrightarrow> (\<forall>b \<in> set (lb_backends lb). b < n)"

definition gw_wf :: "Gateway \<Rightarrow> bool" where
  "gw_wf gw \<longleftrightarrow>
     (\<forall>lb \<in> set (gw_balancers gw). lb_wf (length (gw_allBackends gw)) lb) \<and>
     (\<forall>r \<in> set (gw_router gw). rt_lb r < length (gw_balancers gw)) \<and>
     (\<forall>b \<in> set (gw_allBackends gw). cb_inv (be_circuitBreaker b)) \<and>
     pool_ok (gw_pool gw) (gw_descs gw) \<and> lru_inv (gw_cache gw)"

text \<open>
  What forwarding leaves as it was: everything but the breakers, the positions of the balancers,
  the pool and the registries. Descriptors outside the pool are neither opened nor closed.
\<close>

definition be_static :: "Backend \<Rightarrow> string \<times> int \<times> bool \<times> int" where
  "be_static b = (be_host b, be_port b, be_healthy b, be_activeConnections b)"

definition gw_static :: "Gateway \<Rightarrow> _" where
  "gw_static gw =
     (gw_cfg gw, gw_router gw, gw_loadBalancers gw, gw_rateLimiter gw, gw_retryPolicy gw, gw_cache gw,
      gw_running gw, gw_startTime gw, gw_nextId gw, mt_activeConnections (gw_metrics gw), map be_static (gw_allBackends gw),
      map (\<lambda>lb. (lb_backends lb, lb_strategy lb)) (gw_balancers gw))"

definition idle_trials :: "Gateway \<Rightarrow> bool" where
  "idle_trials gw \<longleftrightarrow> (\<forall>b \<in> set (gw_allBackends gw). cb_halfOpenInFlight (be_circuitBreaker b) = 0)"

definition gw_conserved :: "Gateway \<Rightarrow> Gateway \<Rightarrow> bool" where
  "gw_conserved gw gw' \<longleftrightarrow> gw_static gw' = gw_static gw \<and> gw_wf gw' \<and>
     outside (gw_pool gw') (gw_descs gw') = outside (gw_pool gw) (gw_descs gw) \<and>
     (idle_trials gw \<longrightarrow> idle_trials gw')"

lemma gw_conserved_trans: "gw_conserved a b \<Longrightarrow> gw_conserved b c \<Longrightarrow> gw_conserved a c"
  by (simp add: gw_conserved_def)

lemma gw_static_sizes:
  assumes "gw_static gw' = gw_static gw"
  shows "length (gw_allBackends gw') = length (gw_allBackends gw)"
    and "length (gw_balancers gw') = length (gw_balancers gw)"
    and "gw_retryPolicy gw' = gw_retryPolicy gw" and "gw_cfg gw' = gw_cfg gw"
  using assms by (auto simp: gw_static_def dest: map_eq_imp_length_eq)

lemma gw_static_balancers:
  assumes "gw_static gw' = gw_static gw" and "i < length (gw_balancers gw)"
  shows "lb_backends (gw_balancers gw' ! i) = lb_backends (gw_balancers gw ! i)"
    and "lb_strategy (gw_balancers gw' ! i) = lb_strategy (gw_balancers gw ! i)"
proof -
  have "map (\<lambda>lb. (lb_backends lb, lb_strategy lb)) (gw_balancers gw') =
    map (\<lambda>lb. (lb_backends lb, lb_strategy lb)) (gw_balancers gw)" using assms(1) by (simp add: gw_static_def)
  from arg_cong [OF this, of "\<lambda>xs. xs ! i"] assms gw_static_sizes(2) [OF assms(1)]
  show "lb_backends (gw_balancers gw' ! i) = lb_backends (gw_balancers gw ! i)"
    "lb_strategy (gw_balancers gw' ! i) = lb_strategy (gw_balancers gw ! i)" by simp_all
qed

text \<open>Steps of the breaker of one backend.\<close>

definition verdict :: "exchange \<Rightarrow> time_ns \<Rightarrow> CircuitBreaker \<Rightarrow> CircuitBreaker" where
  "verdict result now cb = (case result of Answered _ _ \<Rightarrow> onSuccess cb | _ \<Rightarrow> onFailure cb now)"

lemma verdict_simps [simp]:
  "verdict (Answered resp r) t = onSuccess" "verdict Failed t = (\<lambda>cb. onFailure cb t)"
  by (simp_all add: verdict_def fun_eq_iff)

lemma allowRequest_inv: "cb_inv cb \<Longrightarrow> cb_inv (snd (allowRequest cb now))"
  using cb_step_inv [OF cb_step.allow [of cb now "fst (allowRequest cb now)" "snd (allowRequest cb now)"]] by simp

lemma verdict_inv: "cb_inv cb \<Longrightarrow> cb_inv (verdict result now cb)"
  using cb_step_inv [OF cb_step.success] cb_step_inv [OF cb_step.failure]
  by (auto simp: verdict_def split: exchange.split)

lemma rejected_idle:
  "allowRequest cb now = (False, cb') \<Longrightarrow> cb_halfOpenInFlight cb = 0 \<Longrightarrow> cb_halfOpenInFlight cb' = 0"
  by (auto simp: cb_ops split: if_splits)

lemma settled_idle:
  "allowRequest cb now = (True, cb') \<Longrightarrow> cb_halfOpenInFlight cb = 0 \<Longrightarrow>
   cb_halfOpenInFlight (verdict result now' cb') = 0"
  by (auto simp: cb_ops verdict_def split: if_splits exchange.split)

lemma be_static_update:
  "be_static x = be_static (bs ! b) \<Longrightarrow> map be_static (bs[b := x]) = map be_static bs"
  by (metis list_update_id list_update_beyond map_update nth_map linorder_not_less)

lemma static_set_breaker [simp]: "be_static (set_breaker f x) = be_static x"
  by (simp add: be_static_def set_breaker_def)

lemma breakers_update:
  assumes "\<forall>x \<in> set bs. P (be_circuitBreaker x)" and "b < length bs" and "P (f (be_circuitBreaker (bs ! b)))"
  shows "\<forall>x \<in> set (bs[b := set_breaker f (bs ! b)]). P (be_circuitBreaker x)"
  using assms set_update_subset_insert [of bs b "set_breaker f (bs ! b)"] by (auto simp: set_breaker_def)

lemma pick_for_step:
  assumes "gw_wf gw" and "rt_lb route < length (gw_balancers gw)" and "pick_for route gw = (r, gw')"
  shows "gw_conserved gw gw'" and "gw_allBackends gw' = gw_allBackends gw" and "gw_descs gw' = gw_descs gw"
    and "gw_pool gw' = gw_pool gw" and "gw_slept gw' = gw_slept gw"
    and "r = Some b \<Longrightarrow> b \<in> set (lb_backends (gw_balancers gw ! rt_lb route)) \<and> b < length (gw_allBackends gw)"
proof -
  let ?lb = "gw_balancers gw ! rt_lb route"
  obtain lb where p: "pick (gw_allBackends gw) ?lb = (r, lb)"
    and gw': "gw' = gw\<lparr>gw_balancers := (gw_balancers gw)[rt_lb route := lb]\<rparr>"
    using assms(3) by (auto simp: pick_for_def split: prod.splits)
  note k = pick_keeps [OF p]
  have wf: "\<forall>lb \<in> set (gw_balancers gw). lb_wf (length (gw_allBackends gw)) lb" using assms(1) by (simp add: gw_wf_def)
  then have "lb_wf (length (gw_allBackends gw)) ?lb" using assms(2) by simp
  with k have "lb_wf (length (gw_allBackends gw)) lb" by (simp add: lb_wf_def)
  with wf have "\<forall>lb' \<in> set ((gw_balancers gw)[rt_lb route := lb]). lb_wf (length (gw_allBackends gw)) lb'"
    using set_update_subset_insert [of "gw_balancers gw" "rt_lb route" lb] by auto
  moreover have "map (\<lambda>lb. (lb_backends lb, lb_strategy lb)) ((gw_balancers gw)[rt_lb route := lb]) =
    map (\<lambda>lb. (lb_backends lb, lb_strategy lb)) (gw_balancers gw)"
    using k assms(2) by (simp add: map_update list_update_same_conv)
  ultimately show "gw_conserved gw gw'"
    using assms(1) by (simp add: gw' gw_conserved_def gw_static_def gw_wf_def idle_trials_def)
  show "gw_allBackends gw' = gw_allBackends gw" "gw_descs gw' = gw_descs gw" "gw_pool gw' = gw_pool gw"
    "gw_slept gw' = gw_slept gw" by (simp_all add: gw')
  show "b \<in> set (lb_backends ?lb) \<and> b < length (gw_allBackends gw)" if "r = Some b"
    using pick_sound [of "gw_allBackends gw" ?lb b lb] p that \<open>lb_wf (length (gw_allBackends gw)) ?lb\<close>
    by (auto simp: lb_wf_def)
qed

lemma pool_change_conserved:
  assumes "gw_wf gw" and "b < length (gw_allBackends gw)" and "cb_inv (f (be_circuitBreaker (gw_allBackends gw ! b)))"
    and "pool_ok p os" and "outside p os = outside (gw_pool gw) (gw_descs gw)"
    and "idle_trials gw \<Longrightarrow> cb_halfOpenInFlight (f (be_circuitBreaker (gw_allBackends gw ! b))) = 0"
  shows "gw_conserved gw (gw\<lparr>gw_allBackends := (gw_allBackends gw)[b := set_breaker f (gw_allBackends gw ! b)],
    gw_pool := p, gw_descs := os\<rparr>)"
proof -
  let ?bs = "gw_allBackends gw"
  have "\<forall>x \<in> set (?bs[b := set_breaker f (?bs ! b)]). cb_inv (be_circuitBreaker x)"
    using assms(1-3) breakers_update [of ?bs cb_inv b f] by (simp add: gw_wf_def)
  moreover have "\<forall>x \<in> set (?bs[b := set_breaker f (?bs ! b)]). cb_halfOpenInFlight (be_circuitBreaker x) = 0"
    if "idle_trials gw"
    using breakers_update [of ?bs "\<lambda>cb. cb_halfOpenInFlight cb = 0" b f] assms(2,6) that by (simp add: idle_trials_def)
  ultimately show ?thesis using assms(1,4,5)
    by (simp add: gw_conserved_def gw_static_def gw_wf_def idle_trials_def be_static_update)
qed

lemma on_backend_twice:
  "b < length (gw_allBackends gw) \<Longrightarrow> on_backend b f (on_backend b g gw) = on_backend b (f \<circ> g) gw"
  by (simp add: on_backend_def)

lemma settle_failed:
  assumes "b < length (gw_allBackends gw)"
  shows "settle b io fd Failed ((on_backend b (add_active 1) gw)\<lparr>gw_pool := p, gw_descs := os\<rparr>) =
    gw\<lparr>gw_allBackends := (gw_allBackends gw)[b := set_breaker (\<lambda>cb. onFailure cb (at_failAt io)) (gw_allBackends gw ! b)],
       gw_pool := p, gw_descs := (if fd < 0 then os else discard fd os)\<rparr>"
  using assms by (simp add: settle_def Let_def gw_ops)

lemma settle_answered:
  assumes "b < length (gw_allBackends gw)"
  shows "settle b io fd (Answered resp keep) ((on_backend b (add_active 1) gw)\<lparr>gw_pool := p, gw_descs := os\<rparr>) =
    (case (if keep then release (be_host (gw_allBackends gw ! b)) (be_port (gw_allBackends gw ! b)) fd p os
           else (p, discard fd os)) of
       (p', os') \<Rightarrow>
         gw\<lparr>gw_allBackends := (gw_allBackends gw)[b := set_breaker onSuccess (gw_allBackends gw ! b)],
            gw_pool := p', gw_descs := os'\<rparr>)"
  using assms by (simp add: settle_def Let_def gw_ops split: prod.split)

lemma attempt_form:
  assumes "b < length (gw_allBackends gw)" and "attemptBackend req b io gw = (res, gw')" and "res \<noteq> Waiting"
  obtains fd p1 os1 keep p2 os2 where
    "acquire (at_dial io) (be_host (gw_allBackends gw ! b)) (be_port (gw_allBackends gw ! b)) (gw_pool gw) (gw_descs gw) = (fd, p1, os1)"
    "(if fd < 0 then (p1, os1)
      else if keep then release (be_host (gw_allBackends gw ! b)) (be_port (gw_allBackends gw ! b)) fd p1 os1
      else (p1, discard fd os1)) = (p2, os2)"
    "gw' = gw\<lparr>gw_allBackends := (gw_allBackends gw)[b := set_breaker (verdict res (at_failAt io)) (gw_allBackends gw ! b)],
        gw_pool := p2, gw_descs := os2\<rparr>"
proof -
  let ?be = "gw_allBackends gw ! b"
  obtain fd p1 os1 where a: "acquire (at_dial io) (be_host ?be) (be_port ?be) (gw_pool gw) (gw_descs gw) = (fd, p1, os1)"
    by (metis prod_cases3)
  have be: "be_host (add_active 1 ?be) = be_host ?be" "be_port (add_active 1 ?be) = be_port ?be"
    by (simp_all add: add_active_def)
  have gw': "gw' = settle b io fd res ((on_backend b (add_active 1) gw)\<lparr>gw_pool := p1, gw_descs := os1\<rparr>)"
    and fd: "fd < 0 \<Longrightarrow> res = Failed"
    using assms(1,2) a be by (auto simp: attemptBackend_def on_backend_def Let_def)
  define keep where "keep = (case res of Answered _ r \<Rightarrow> r | _ \<Rightarrow> False)"
  obtain p2 os2 where l: "(if fd < 0 then (p1, os1) else if keep then release (be_host ?be) (be_port ?be) fd p1 os1
    else (p1, discard fd os1)) = (p2, os2)" by fastforce
  have "gw' = gw\<lparr>gw_allBackends := (gw_allBackends gw)[b := set_breaker (verdict res (at_failAt io)) ?be],
      gw_pool := p2, gw_descs := os2\<rparr>"
  proof (cases res)
    case Failed
    then have "\<not> keep" by (simp add: keep_def)
    with l show ?thesis unfolding gw' settle_failed [OF assms(1)] Failed by (auto split: if_splits)
  next
    case (Answered resp r)
    then have "keep = r" "\<not> fd < 0" using fd by (auto simp: keep_def)
    with l have "(if r then release (be_host ?be) (be_port ?be) fd p1 os1 else (p1, discard fd os1)) = (p2, os2)"
      by simp
    then show ?thesis unfolding gw' Answered settle_answered [OF assms(1)] by simp
  qed (use assms(3) in simp)
  with a l that show ?thesis by blast
qed

lemma step_continue [simp]:
  "gw_conserved gw (metric incCircuitOpen gw') \<longleftrightarrow> gw_conserved gw gw'"
  "gw_conserved gw (back_off req attempt io gw') \<longleftrightarrow> gw_conserved gw gw'"
  by (simp_all add: gw_conserved_def gw_static_def gw_wf_def idle_trials_def back_off_def gw_ops Let_def
      incCircuitOpen_def incRetries_def)

lemma breaker_of:
  assumes "gw_wf gw" and "b < length (gw_allBackends gw)"
  shows "cb_inv (be_circuitBreaker (gw_allBackends gw ! b))"
    and "idle_trials gw \<Longrightarrow> cb_halfOpenInFlight (be_circuitBreaker (gw_allBackends gw ! b)) = 0"
  using assms by (simp_all add: gw_wf_def idle_trials_def)

lemma rejected_conserved:
  assumes "gw_wf gw" and "b < length (gw_allBackends gw)"
    and "allowRequest (be_circuitBreaker (gw_allBackends gw ! b)) now = (False, cb)"
  shows "gw_conserved gw (on_backend b (set_breaker (\<lambda>_. cb)) gw)"
proof -
  have "cb_inv cb" using allowRequest_inv [OF breaker_of(1) [OF assms(1,2)], of now] assms(3) by simp
  then have "gw_conserved gw (gw\<lparr>gw_allBackends := (gw_allBackends gw)[b := set_breaker (\<lambda>_. cb) (gw_allBackends gw ! b)],
      gw_pool := gw_pool gw, gw_descs := gw_descs gw\<rparr>)"
    using pool_change_conserved [OF assms(1,2), of "\<lambda>_. cb" "gw_pool gw" "gw_descs gw"]
      rejected_idle [OF assms(3)] breaker_of(2) [OF assms(1,2)] assms(1) by (simp add: gw_wf_def)
  then show ?thesis by (simp add: on_backend_def)
qed

lemma admitted_conserved:
  assumes "gw_wf gw" and "b < length (gw_allBackends gw)"
    and a: "allowRequest (be_circuitBreaker (gw_allBackends gw ! b)) now = (True, cb)"
    and at: "attemptBackend req b io (on_backend b (set_breaker (\<lambda>_. cb)) gw) = (res, gw')"
    and "res \<noteq> Waiting" and "fresh_socket (at_dial io) (gw_descs gw)"
  shows "gw_conserved gw gw'"
proof -
  let ?gw = "on_backend b (set_breaker (\<lambda>_. cb)) gw"
  have b: "b < length (gw_allBackends ?gw)" using assms(2) by (simp add: on_backend_def)
  have cb: "cb_inv cb" using allowRequest_inv [OF breaker_of(1) [OF assms(1,2)], of now] a by simp
  have same: "gw_pool ?gw = gw_pool gw" "gw_descs ?gw = gw_descs gw" by (simp_all add: on_backend_def)
  have ok: "pool_ok (gw_pool gw) (gw_descs gw)" using assms(1) by (simp add: gw_wf_def)
  show ?thesis
  proof (cases rule: attempt_form [OF b at assms(5)])
    case (1 fd p1 os1 keep p2 os2)
    note lease = pool.lease_balanced [OF ok assms(6) 1(1) [unfolded same] 1(2)]
    have gw': "gw' = gw\<lparr>gw_allBackends := (gw_allBackends gw)
        [b := set_breaker (\<lambda>_. verdict res (at_failAt io) cb) (gw_allBackends gw ! b)],
        gw_pool := p2, gw_descs := os2\<rparr>"
      using 1(3) assms(2) by (simp add: on_backend_def set_breaker_def)
    show ?thesis unfolding gw'
      using pool_change_conserved [OF assms(1,2), of "\<lambda>_. verdict res (at_failAt io) cb" p2 os2] lease
        verdict_inv [OF cb] settled_idle [OF a] breaker_of(2) [OF assms(1,2)] by simp
  qed
qed

lemma forward_step_conserved:
  assumes wf: "gw_wf gw" and r: "rt_lb route < length (gw_balancers gw)"
    and fresh: "fresh_socket (at_dial io) (gw_descs gw)"
    and st: "forward_step route req attempt io gw = (it, gw')" and nb: "it \<noteq> Blocked"
  shows "gw_conserved gw gw'"
proof -
  obtain o1 gw1 where p: "pick_for route gw = (o1, gw1)" by fastforce
  note pf = pick_for_step [OF wf r p]
  show ?thesis
  proof (cases o1)
    case None
    with st p pf(1) show ?thesis by (auto simp: forward_step_def Let_def)
  next
    case (Some b)
    have wf1: "gw_wf gw1" using pf(1) by (simp add: gw_conserved_def)
    have b: "b < length (gw_allBackends gw1)" using pf(2,6) Some by simp
    obtain ok cb where a: "allowRequest (be_circuitBreaker (gw_allBackends gw1 ! b)) (at_allowAt io) = (ok, cb)"
      by fastforce
    let ?gw2 = "on_backend b (set_breaker (\<lambda>_. cb)) gw1"
    have ad: "admit b (at_allowAt io) gw1 = (ok, ?gw2)" by (simp add: admit_def a)
    have "gw_conserved gw1 gw'"
    proof (cases ok)
      case False
      then have "gw' = metric incCircuitOpen ?gw2"
        using st p Some ad by (simp add: forward_step_def Let_def)
      with rejected_conserved [OF wf1 b] a False show ?thesis by simp
    next
      case True
      obtain res gw3 where at: "attemptBackend req b io ?gw2 = (res, gw3)" by fastforce
      have nw: "res \<noteq> Waiting" and gw': "gw' = gw3 \<or> gw' = back_off req attempt io gw3"
        using st nb p Some ad True at by (auto simp: forward_step_def Let_def split: exchange.splits if_splits)
      from admitted_conserved [OF wf1 b _ at nw] a True fresh pf(3) gw' show ?thesis by auto
    qed
    with pf(1) show ?thesis by (rule gw_conserved_trans)
  qed
qed

fun fresh_run :: "Route \<Rightarrow> HttpRequest \<Rightarrow> nat \<Rightarrow> attempt_io list \<Rightarrow> Gateway \<Rightarrow> bool" where
  "fresh_run route req attempt [] gw \<longleftrightarrow> True"
| "fresh_run route req attempt (io # ios) gw \<longleftrightarrow>
     fresh_socket (at_dial io) (gw_descs gw) \<and>
     (case forward_step route req attempt io gw of
        (Continue, gw') \<Rightarrow> fresh_run route req (attempt + 1) ios gw' | _ \<Rightarrow> True)"

lemma forward_loop_conserved:
  "gw_wf gw \<Longrightarrow> rt_lb route < length (gw_balancers gw) \<Longrightarrow> fresh_run route req attempt ios gw \<Longrightarrow>
   forward_loop route req attempt ios gw = (Some resp, gw') \<Longrightarrow> gw_conserved gw gw'"
proof (induction ios arbitrary: attempt gw)
  case Nil
  then show ?case by (auto simp: forward_loop.simps gw_conserved_def split: if_splits)
next
  case (Cons io ios)
  obtain it gw1 where st: "forward_step route req attempt io gw = (it, gw1)" by fastforce
  show ?case
  proof (cases "int attempt < rp_maxRetries (gw_retryPolicy gw) + 1")
    case True
    with Cons.prems(4) st have "it \<noteq> Blocked" by (auto simp: forward_loop.simps [of _ _ attempt])
    from forward_step_conserved [OF Cons.prems(1,2) _ st this] Cons.prems(3)
    have c: "gw_conserved gw gw1" by simp
    then have "gw_wf gw1" "rt_lb route < length (gw_balancers gw1)"
      using gw_static_sizes(2) [of gw1 gw] Cons.prems(2) by (simp_all add: gw_conserved_def)
    with Cons.IH [of gw1 "attempt + 1"] Cons.prems(3,4) st True c gw_conserved_trans [OF c, of gw'] show ?thesis
      by (auto simp: forward_loop.simps [of _ _ attempt] split: iteration.splits)
  next
    case False
    with Cons.prems show ?thesis by (auto simp: forward_loop.simps [of _ _ attempt] gw_conserved_def)
  qed
qed

section \<open>Forwarding returns\<close>

definition ample_io :: "HttpRequest \<Rightarrow> Gateway \<Rightarrow> attempt_io \<Rightarrow> bool" where
  "ample_io req gw io \<longleftrightarrow>
     (\<forall>be \<in> set (gw_allBackends gw).
        enough_io (buildBackendRequest req be) (cf_maxResponseBodyBytes (gw_cfg gw)) (at_sends io) (at_recvs io))"

lemma buildBackendRequest_host: "be_host a = be_host b \<Longrightarrow> buildBackendRequest req a = buildBackendRequest req b"
  by (simp add: buildBackendRequest_def)

lemma static_hosts: "gw_static gw' = gw_static gw \<Longrightarrow> map be_host (gw_allBackends gw') = map be_host (gw_allBackends gw)"
proof -
  assume "gw_static gw' = gw_static gw"
  then have "map be_static (gw_allBackends gw') = map be_static (gw_allBackends gw)" by (simp add: gw_static_def)
  then have "map (fst \<circ> be_static) (gw_allBackends gw') = map (fst \<circ> be_static) (gw_allBackends gw)"
    by (metis map_map)
  then show ?thesis by (simp add: be_static_def comp_def)
qed

lemma ample_io_hosts:
  "ample_io req gw io \<longleftrightarrow>
     (\<forall>h \<in> set (map be_host (gw_allBackends gw)).
        enough_io (buildBackendRequest req (Backend_init h 0 (CircuitBreaker_init 0 0 0)))
          (cf_maxResponseBodyBytes (gw_cfg gw)) (at_sends io) (at_recvs io))"
  by (simp add: ample_io_def buildBackendRequest_def Backend_init_def)

lemma ample_io_static:
  assumes "gw_static gw' = gw_static gw" shows "ample_io req gw' io = ample_io req gw io"
  unfolding ample_io_hosts static_hosts [OF assms] gw_static_sizes(4) [OF assms] ..

lemma forward_step_unblocked:
  assumes "gw_wf gw" and "rt_lb route < length (gw_balancers gw)" and "ample_io req gw io"
    and "forward_step route req attempt io gw = (it, gw')"
  shows "it \<noteq> Blocked"
proof -
  obtain o1 gw1 where p: "pick_for route gw = (o1, gw1)" by fastforce
  note pf = pick_for_step [OF assms(1,2) p]
  show ?thesis
  proof (cases o1)
    case (Some b)
    obtain ok gw2 where ad: "admit b (at_allowAt io) gw1 = (ok, gw2)" by fastforce
    have same: "be_host (gw_allBackends gw2 ! b) = be_host (gw_allBackends gw ! b)" "gw_cfg gw2 = gw_cfg gw"
      "b < length (gw_allBackends gw2)" "b < length (gw_allBackends gw)"
      using ad pf Some gw_static_sizes(4) [of gw1 gw]
      by (auto simp: admit_def on_backend_def set_breaker_def gw_conserved_def split: prod.splits)
    have "buildBackendRequest req (add_active 1 (gw_allBackends gw2 ! b)) = buildBackendRequest req (gw_allBackends gw ! b)"
      by (rule buildBackendRequest_host) (simp add: same add_active_def)
    then have "enough_io (buildBackendRequest req (add_active 1 (gw_allBackends gw2 ! b)))
        (cf_maxResponseBodyBytes (gw_cfg gw2)) (at_sends io) (at_recvs io)"
      using assms(3) same by (simp add: ample_io_def)
    from exchange_ends [OF this] same(3) have "fst (attemptBackend req b io gw2) \<noteq> Waiting"
      by (auto simp: attemptBackend_def on_backend_def Let_def split: prod.splits)
    with assms(4) p Some ad show ?thesis
      by (cases "attemptBackend req b io gw2")
        (auto simp: forward_step_def Let_def split: bool.splits exchange.splits if_splits)
  qed (use assms(4) p in \<open>auto simp: forward_step_def Let_def\<close>)
qed

lemma forward_loop_returns:
  "gw_wf gw \<Longrightarrow> rt_lb route < length (gw_balancers gw) \<Longrightarrow> fresh_run route req attempt ios gw \<Longrightarrow>
   list_all (ample_io req gw) ios \<Longrightarrow>
   rp_maxRetries (gw_retryPolicy gw) + 1 \<le> int attempt + int (length ios) \<Longrightarrow>
   \<exists>resp gw'. forward_loop route req attempt ios gw = (Some resp, gw')"
proof (induction ios arbitrary: attempt gw)
  case (Cons io ios)
  obtain it gw1 where st: "forward_step route req attempt io gw = (it, gw1)" by fastforce
  have "it \<noteq> Blocked" using forward_step_unblocked [OF Cons.prems(1,2) _ st] Cons.prems(4) by simp
  moreover from forward_step_conserved [OF Cons.prems(1,2) _ st this] Cons.prems(3)
  have c: "gw_conserved gw gw1" by simp
  have "gw_wf gw1" "rt_lb route < length (gw_balancers gw1)" "list_all (ample_io req gw1) ios"
    "gw_retryPolicy gw1 = gw_retryPolicy gw"
    using c gw_static_sizes [of gw1 gw] ample_io_static [of gw1 gw] Cons.prems(2,4)
    by (simp_all add: gw_conserved_def list_all_iff)
  moreover have "fresh_run route req (attempt + 1) ios gw1" if "it = Continue"
    using Cons.prems(3) st that by simp
  ultimately show ?case
    using Cons.IH [of gw1 "attempt + 1"] Cons.prems(5) st
    by (auto simp: forward_loop.simps [of _ _ attempt] split: iteration.split)
qed (auto simp: forward_loop.simps)

text \<open>What an attempt never changes, whatever the state of the gateway.\<close>

definition gw_rest :: "Gateway \<Rightarrow> RetryPolicy \<times> CachedResponse LRUCache \<times> RateLimiter \<times> Route list" where
  "gw_rest gw = (gw_retryPolicy gw, gw_cache gw, gw_rateLimiter gw, gw_router gw)"

lemma rest_frames [simp]:
  "gw_rest (on_backend b f gw) = gw_rest gw"
  "gw_rest (metric g gw) = gw_rest gw"
  "gw_rest (back_off req attempt io gw) = gw_rest gw"
  "gw_rest (snd (pick_for route gw)) = gw_rest gw"
  "gw_rest (snd (admit b now gw)) = gw_rest gw"
  "gw_rest (settle b io fd res gw) = gw_rest gw"
  by (simp_all add: gw_rest_def on_backend_def back_off_def log_event_gw_def metric_def pick_for_def admit_def settle_def
      Let_def split: prod.split exchange.split)

lemma attempt_rest [simp]: "gw_rest (snd (attemptBackend req b io gw)) = gw_rest gw"
proof -
  have "gw_rest (gw\<lparr>gw_pool := p, gw_descs := os\<rparr>) = gw_rest gw" for p os gw by (simp add: gw_rest_def)
  then show ?thesis by (simp add: attemptBackend_def Let_def split: prod.split)
qed

lemma forward_step_rest:
  assumes "forward_step route req attempt io gw = (it, gw')"
  shows "gw_rest gw' = gw_rest gw"
proof -
  obtain o1 gw1 where p: "pick_for route gw = (o1, gw1)" by fastforce
  show ?thesis
  proof (cases o1)
    case (Some b)
    obtain ok gw2 where a: "admit b (at_allowAt io) gw1 = (ok, gw2)" by fastforce
    obtain res gw3 where at: "attemptBackend req b io gw2 = (res, gw3)" by fastforce
    have "gw_rest gw3 = gw_rest gw" "gw_rest gw2 = gw_rest gw"
      using rest_frames(4) [of route gw] rest_frames(5) [of b "at_allowAt io" gw1] attempt_rest [of req b io gw2] p a at
      by simp_all
    then show ?thesis
      using assms p Some a at by (auto simp: forward_step_def Let_def split: bool.splits exchange.splits if_splits)
  qed (use assms p rest_frames(4) [of route gw] in \<open>auto simp: forward_step_def Let_def\<close>)
qed

lemma forward_loop_rest:
  "forward_loop route req attempt ios gw = (r, gw') \<Longrightarrow> gw_rest gw' = gw_rest gw"
proof (induction ios arbitrary: attempt gw)
  case (Cons io ios)
  obtain it gw1 where st: "forward_step route req attempt io gw = (it, gw1)" by fastforce
  show ?case
    using Cons.prems Cons.IH [of "attempt + 1" gw1] forward_step_rest [OF st] st
    by (cases it) (auto simp: forward_loop.simps [of _ _ attempt] split: if_splits)
qed (auto simp: forward_loop.simps split: if_splits)

lemma forward_loop_take:
  "nat (rp_maxRetries (gw_retryPolicy gw) + 1) \<le> attempt + n \<Longrightarrow>
   forward_loop route req attempt ios gw = forward_loop route req attempt (take n ios) gw"
proof (induction ios arbitrary: attempt gw n)
  case (Cons io ios)
  obtain it gw1 where st: "forward_step route req attempt io gw = (it, gw1)" by fastforce
  have pol: "gw_retryPolicy gw1 = gw_retryPolicy gw" using forward_step_rest [OF st] by (simp add: gw_rest_def)
  show ?case
  proof (cases n)
    case 0
    with Cons.prems have "\<not> int attempt < rp_maxRetries (gw_retryPolicy gw) + 1" by linarith
    then show ?thesis by (simp add: forward_loop.simps [of _ _ attempt])
  next
    case (Suc m)
    with Cons.IH [of gw1 "attempt + 1" m] Cons.prems pol st show ?thesis
      by (auto simp: forward_loop.simps [of _ _ attempt] split: iteration.split)
  qed
qed simp

section \<open>Open breakers\<close>

definition shut :: "backends \<Rightarrow> attempt_io list \<Rightarrow> nat \<Rightarrow> bool" where
  "shut bs ios b \<longleftrightarrow> b < length bs \<and> cb_state (be_circuitBreaker (bs ! b)) = Open \<and>
     list_all (\<lambda>io. \<not> elapsed_reset (be_circuitBreaker (bs ! b)) (at_allowAt io)) ios"

definition untouched :: "Gateway \<Rightarrow> Gateway \<Rightarrow> bool" where
  "untouched gw gw' \<longleftrightarrow> gw_allBackends gw' = gw_allBackends gw \<and> gw_pool gw' = gw_pool gw \<and>
     gw_descs gw' = gw_descs gw \<and> gw_slept gw' = gw_slept gw"

abbreviation no_backend :: HttpResponse where
  "no_backend \<equiv> HttpMessage.make 503 ''Service Unavailable'' ''no healthy backends''"

abbreviation exhausted :: HttpResponse where
  "exhausted \<equiv> HttpMessage.make 503 ''Service Unavailable'' ''all retries exhausted''"

lemma shut_rejects:
  assumes "shut (gw_allBackends gw) (io # ios) b"
  shows "admit b (at_allowAt io) gw = (False, gw)"
proof -
  let ?be = "gw_allBackends gw ! b"
  have "allowRequest (be_circuitBreaker ?be) (at_allowAt io) = (False, be_circuitBreaker ?be)"
    using assms by (simp add: shut_def allowRequest_def)
  moreover have "set_breaker (\<lambda>_. be_circuitBreaker ?be) ?be = ?be" by (simp add: set_breaker_def)
  ultimately show ?thesis by (simp add: admit_def on_backend_def)
qed

text \<open>
  When every backend a balancer can pick is shut, no attempt contacts anything: the loop runs
  through its attempts without a pause.
\<close>

definition lands_shut :: "bool \<Rightarrow> backends \<Rightarrow> attempt_io list \<Rightarrow> nat list \<Rightarrow> LbStrategy \<Rightarrow> bool" where
  "lands_shut always st ios bs str \<longleftrightarrow>
     (\<forall>lb. lb_backends lb = bs \<and> lb_strategy lb = str \<longrightarrow>
        (case fst (pick st lb) of None \<Rightarrow> \<not> always | Some b \<Rightarrow> shut st ios b))"

lemma forward_shut:
  assumes picks: "lands_shut always st ios0 bs str"
  shows "set ios \<subseteq> set ios0 \<Longrightarrow> gw_allBackends gw = st \<Longrightarrow> i = rt_lb route \<Longrightarrow> i < length (gw_balancers gw) \<Longrightarrow>
    lb_backends (gw_balancers gw ! i) = bs \<Longrightarrow> lb_strategy (gw_balancers gw ! i) = str \<Longrightarrow>
    rp_maxRetries (gw_retryPolicy gw) + 1 \<le> int attempt + int (length ios) \<Longrightarrow>
    \<exists>resp gw'. forward_loop route req attempt ios gw = (Some resp, gw') \<and> untouched gw gw' \<and>
      (resp = exhausted \<or> \<not> always \<and> resp = no_backend)"
proof (induction ios arbitrary: attempt gw)
  case Nil
  then show ?case by (auto simp: forward_loop.simps untouched_def)
next
  case (Cons io ios)
  let ?lb = "gw_balancers gw ! i"
  obtain r lb' where p: "pick st ?lb = (r, lb')" by fastforce
  let ?gw1 = "gw\<lparr>gw_balancers := (gw_balancers gw)[i := lb']\<rparr>"
  have pf: "pick_for route gw = (r, ?gw1)" using p Cons.prems by (simp add: pick_for_def)
  have ps: "case r of None \<Rightarrow> \<not> always | Some b \<Rightarrow> shut st ios0 b"
    using picks [unfolded lands_shut_def, rule_format, of ?lb] Cons.prems(5,6) p by simp
  show ?case
  proof (cases "int attempt < rp_maxRetries (gw_retryPolicy gw) + 1")
    case True
    show ?thesis
    proof (cases r)
      case None
      with pf ps True show ?thesis
        by (auto simp: forward_loop.simps [of _ _ attempt] forward_step_def Let_def untouched_def)
    next
      case (Some b)
      have "shut (gw_allBackends ?gw1) (io # ios) b"
        using ps Some Cons.prems(1,2) by (auto simp: shut_def list_all_iff)
      from shut_rejects [OF this] pf Some
      have st: "forward_step route req attempt io gw = (Continue, metric incCircuitOpen ?gw1)"
        by (simp add: forward_step_def Let_def)
      have "\<exists>resp gw'. forward_loop route req (attempt + 1) ios (metric incCircuitOpen ?gw1) = (Some resp, gw') \<and>
          untouched (metric incCircuitOpen ?gw1) gw' \<and> (resp = exhausted \<or> \<not> always \<and> resp = no_backend)"
        using Cons.prems pick_keeps [OF p] by (intro Cons.IH) (simp_all add: metric_def)
      with st True show ?thesis
        by (auto simp: forward_loop.simps [of _ _ attempt] untouched_def metric_def)
    qed
  qed (auto simp: forward_loop.simps [of _ _ attempt] untouched_def)
qed

section \<open>Construction\<close>

text \<open>
  A configured group is wired when its name leads to a balancer with its strategy whose backends
  are, in order, the configured ones.
\<close>

definition group_wired :: "Gateway \<Rightarrow> BackendGroupConfig \<Rightarrow> nat \<Rightarrow> bool" where
  "group_wired gw g i \<longleftrightarrow>
     map_of (gw_loadBalancers gw) (gc_name g) = Some i \<and> i < length (gw_balancers gw) \<and>
     lb_wf (length (gw_allBackends gw)) (gw_balancers gw ! i) \<and>
     map (\<lambda>b. (be_host (gw_allBackends gw ! b), be_port (gw_allBackends gw ! b))) (lb_backends (gw_balancers gw ! i)) =
       map (\<lambda>b. (bc_host b, bc_port b)) (gc_backends g) \<and>
     lb_strategy (gw_balancers gw ! i) =
       (if gc_strategy g = ''least_connections'' then LeastConnections else RoundRobin)"

definition table_ok :: "Gateway \<Rightarrow> bool" where
  "table_ok gw \<longleftrightarrow> (\<forall>(k, i) \<in> set (gw_loadBalancers gw). i < length (gw_balancers gw))"

lemma add_group_wf:
  assumes "gw_wf gw" "table_ok gw" "idle_trials gw"
  shows "gw_wf (add_group g gw) \<and> table_ok (add_group g gw) \<and> idle_trials (add_group g gw)"
  using assms set_update_subset [of _ "gc_name g" "length (gw_balancers gw)" "gw_loadBalancers gw"]
  by (fastforce simp: gw_wf_def table_ok_def idle_trials_def add_group_def lb_wf_def Let_def LoadBalancer_init_def
      make_backend_def Backend_init_def CircuitBreaker_init_def cb_inv_def)

lemma add_group_new: "group_wired (add_group g gw) g (length (gw_balancers gw))"
  by (auto simp: group_wired_def add_group_def lb_wf_def Let_def LoadBalancer_init_def make_backend_def Backend_init_def
      nth_append intro!: nth_equalityI)

lemma add_group_old:
  assumes "group_wired gw g i" and "gc_name h \<noteq> gc_name g"
  shows "group_wired (add_group h gw) g i"
proof -
  have "map (\<lambda>b. (be_host ((gw_allBackends gw @ xs) ! b), be_port ((gw_allBackends gw @ xs) ! b))) (lb_backends (gw_balancers gw ! i)) =
    map (\<lambda>b. (be_host (gw_allBackends gw ! b), be_port (gw_allBackends gw ! b))) (lb_backends (gw_balancers gw ! i))" for xs
    using assms(1) by (intro map_cong) (auto simp: group_wired_def lb_wf_def nth_append)
  with assms show ?thesis by (auto simp: group_wired_def add_group_def lb_wf_def Let_def nth_append)
qed

lemma add_groups_wired:
  assumes "distinct (map gc_name gs)" and "g \<in> set gs"
  shows "\<exists>i. group_wired (fold add_group gs gw) g i"
  using assms
proof (induction gs arbitrary: gw rule: rev_induct)
  case (snoc h gs)
  show ?case
  proof (cases "g = h")
    case True
    then show ?thesis using add_group_new [of h] by auto
  next
    case False
    with snoc obtain i where "group_wired (fold add_group gs gw) g i" by auto
    with False snoc.prems add_group_old [of _ g i h] show ?thesis by auto
  qed
qed simp

lemma add_groups_wf:
  "gw_wf gw \<Longrightarrow> table_ok gw \<Longrightarrow> idle_trials gw \<Longrightarrow>
   gw_wf (fold add_group gs gw) \<and> table_ok (fold add_group gs gw) \<and> idle_trials (fold add_group gs gw)"
  by (induction gs arbitrary: gw) (use add_group_wf in auto)

lemma add_route_wf:
  assumes "gw_wf gw" "table_ok gw" "idle_trials gw"
  shows "gw_wf (add_route r gw) \<and> table_ok (add_route r gw) \<and> idle_trials (add_route r gw)"
  using assms
  by (auto simp: gw_wf_def table_ok_def idle_trials_def add_route_def addRoute_def log_event_gw_def
      split: option.split dest: map_of_SomeD)

lemma add_route_frame:
  "gw_allBackends (add_route r gw) = gw_allBackends gw \<and> gw_balancers (add_route r gw) = gw_balancers gw \<and>
   gw_loadBalancers (add_route r gw) = gw_loadBalancers gw \<and> gw_descs (add_route r gw) = gw_descs gw \<and>
   set (gw_router gw) \<subseteq> set (gw_router (add_route r gw))"
  by (auto simp: add_route_def log_event_gw_def addRoute_def split: option.split)

lemma add_routes:
  fixes gw rs
  defines "gw' \<equiv> fold add_route rs gw"
  shows "gw_allBackends gw' = gw_allBackends gw \<and> gw_balancers gw' = gw_balancers gw \<and>
    gw_loadBalancers gw' = gw_loadBalancers gw \<and> set (gw_router gw) \<subseteq> set (gw_router gw') \<and>
    (\<forall>r \<in> set rs. \<forall>i. map_of (gw_loadBalancers gw) (rc_backendGroup r) = Some i \<longrightarrow>
       \<lparr>rt_pathPrefix = rc_pathPrefix r, rt_lb = i, rt_cacheable = rc_cacheable r\<rparr> \<in> set (gw_router gw'))"
  unfolding gw'_def
proof (induction rs arbitrary: gw)
  case (Cons r rs)
  note fr = add_route_frame [of r gw]
  have "\<lparr>rt_pathPrefix = rc_pathPrefix r, rt_lb = i, rt_cacheable = rc_cacheable r\<rparr> \<in> set (gw_router (add_route r gw))"
    if "map_of (gw_loadBalancers gw) (rc_backendGroup r) = Some i" for i
    using that by (simp add: add_route_def addRoute_def)
  with fr Cons.IH [of "add_route r gw"] show ?case by auto
qed simp

lemma add_routes_wf:
  "gw_wf gw \<Longrightarrow> table_ok gw \<Longrightarrow> idle_trials gw \<Longrightarrow> gw_wf (fold add_route rs gw) \<and> idle_trials (fold add_route rs gw)"
  by (induction rs arbitrary: gw) (use add_route_wf in auto)

lemma Gateway_init_wf: "gw_wf (Gateway_init cfg) \<and> idle_trials (Gateway_init cfg) \<and> gw_descs (Gateway_init cfg) = []"
proof -
  have d: "gw_descs (fold add_route rs gw) = gw_descs gw" "gw_descs (fold add_group gs gw) = gw_descs gw" for rs gs gw
    by (induction rs arbitrary: gw; simp add: add_route_frame)
      (induction gs arbitrary: gw; simp add: add_group_def Let_def)
  show ?thesis
    unfolding Gateway_init_def buildRouter_def
    by (intro conjI add_routes_wf [THEN conjunct1] add_routes_wf [THEN conjunct2] add_groups_wf [THEN conjunct1]
        add_groups_wf [THEN conjunct2, THEN conjunct1] add_groups_wf [THEN conjunct2, THEN conjunct2])
      (simp_all add: d gw_wf_def table_ok_def idle_trials_def pool_ok_init)
qed

section \<open>A sample gateway\<close>

definition sample_cfg :: GatewayConfig where
  "sample_cfg = GatewayConfig_init
     \<lparr>cf_retryMax := 1, cf_maxResponseBodyBytes := 4,
      cf_backendGroups := [\<lparr>gc_name = ''g'', gc_strategy = ''least_connections'',
        gc_backends = [\<lparr>bc_host = ''a'', bc_port = 1\<rparr>, \<lparr>bc_host = ''b'', bc_port = 2\<rparr>]\<rparr>],
      cf_routes := [\<lparr>rc_pathPrefix = ''/'', rc_backendGroup = ''g'', rc_cacheable = True\<rparr>]\<rparr>"

definition sample_gw :: Gateway where "sample_gw = Gateway_init sample_cfg"

definition sample_route :: Route where
  "sample_route = \<lparr>rt_pathPrefix = ''/'', rt_lb = 0, rt_cacheable = True\<rparr>"

definition sample_req :: HttpRequest where
  "sample_req = HttpRequest_init\<lparr>rq_method := ''GET'', rq_path := ''/x'', rq_requestId := ''req-0-1''\<rparr>"

definition sample_io :: "fd \<Rightarrow> send_io list \<Rightarrow> recv_io list \<Rightarrow> attempt_io" where
  "sample_io fd sends recvs =
     \<lparr>at_allowAt = 5, at_dial = \<lparr>dl_resolved = True, dl_socket = fd, dl_connect = Connected, dl_ready = 1, dl_soError = 0\<rparr>,
      at_sends = sends, at_recvs = recvs, at_failAt = 7, at_draw = 1 / 2\<rparr>"

lemma sample_sizes: "length (gw_balancers sample_gw) = 1" "gw_descs sample_gw = []"
  "rp_maxRetries (gw_retryPolicy sample_gw) = 1"
  by code_simp+

lemma sample_wf: "gw_wf sample_gw" "idle_trials sample_gw"
  using Gateway_init_wf by (simp_all add: sample_gw_def)

section \<open>Properties\<close>

text \<open>
  C3: Forwarding is conservative on every path on which it returns: all descriptors it took outside
  the pool are given back or closed, the pool stays sound, no backend is left counted as active,
  every admitted request has told its breaker a verdict so that no half-open trial slot is lost, and
  nothing but breakers, balancer positions, pool and registries changes.
\<close>

theorem forward_conserves:
  assumes "gw_wf gw" and "rt_lb route < length (gw_balancers gw)" and "fresh_run route req 0 ios gw"
    and "forwardWithResilience route req ios gw = (Some resp, gw')"
  shows "gw_static gw' = gw_static gw \<and> gw_wf gw' \<and>
    outside (gw_pool gw') (gw_descs gw') = outside (gw_pool gw) (gw_descs gw) \<and>
    (idle_trials gw \<longrightarrow> idle_trials gw')"
  using forward_loop_conserved [OF assms(1-3)] assms(4)
  by (simp add: forwardWithResilience_def gw_conserved_def)

theorem forward_conserves_witness:
  "let F = forwardWithResilience sample_route sample_req
         [sample_io 3 [\<lparr>si_ready = 1, si_result = Sent 500\<rparr>] [\<lparr>ri_remainingMs = 9, ri_ready = 0, ri_data = None\<rparr>],
          sample_io 3 [\<lparr>si_ready = 1, si_result = Sent 500\<rparr>] [\<lparr>ri_remainingMs = 9, ri_ready = 1,
            ri_data = Some (''HTTP/1.1 200 OK'' @ CRLF @ ''Content-Length: 2'' @ CRLF @ ''Connection: x'' @ CRLF @ CRLF @ ''hi'')\<rparr>]]
         sample_gw
   in gw_static (snd F) = gw_static sample_gw \<and> gw_wf (snd F) \<and>
      outside (gw_pool (snd F)) (gw_descs (snd F)) = outside (gw_pool sample_gw) (gw_descs sample_gw) \<and>
      gw_descs (snd F) = [3] \<and> idle_trials (snd F)"
proof -
  let ?ios = "[sample_io 3 [\<lparr>si_ready = 1, si_result = Sent 500\<rparr>] [\<lparr>ri_remainingMs = 9, ri_ready = 0, ri_data = None\<rparr>],
          sample_io 3 [\<lparr>si_ready = 1, si_result = Sent 500\<rparr>] [\<lparr>ri_remainingMs = 9, ri_ready = 1,
            ri_data = Some (''HTTP/1.1 200 OK'' @ CRLF @ ''Content-Length: 2'' @ CRLF @ ''Connection: x'' @ CRLF @ CRLF @ ''hi'')\<rparr>]]"
  let ?F = "forwardWithResilience sample_route sample_req ?ios sample_gw"
  have f: "fst ?F = Some \<lparr>rs_statusCode = 200, rs_statusText = ''OK'', rs_headers = [], rs_body = ''hi''\<rparr>"
    by code_simp
  have d: "gw_descs (snd ?F) = [3]" by code_simp
  have fr: "fresh_run sample_route sample_req 0 ?ios sample_gw" by code_simp
  have "?F = (Some (the (fst ?F)), snd ?F)" unfolding f by (metis f option.sel prod.collapse)
  from forward_conserves [OF sample_wf(1) _ fr this] d sample_wf(2) show ?thesis
    by (simp add: sample_sizes sample_route_def)
qed

text \<open>
  C17: Forwarding always returns a response, and after at most one more attempt than configured
  retries: when every exchange gets enough answers from the kernel for its own loops to end, the
  call returns, and entries of the script beyond the last allowed attempt are never looked at.
\<close>

theorem forward_returns:
  assumes "gw_wf gw" and "rt_lb route < length (gw_balancers gw)" and "fresh_run route req 0 ios gw"
    and "list_all (ample_io req gw) ios" and "rp_maxRetries (gw_retryPolicy gw) + 1 \<le> int (length ios)"
  shows "(\<exists>resp gw'. forwardWithResilience route req ios gw = (Some resp, gw')) \<and>
    forwardWithResilience route req ios gw =
      forwardWithResilience route req (take (nat (rp_maxRetries (gw_retryPolicy gw) + 1)) ios) gw"
  unfolding forwardWithResilience_def
proof
  show "\<exists>resp gw'. forward_loop route req 0 ios gw = (Some resp, gw')"
    using assms(5) by (intro forward_loop_returns [OF assms(1-4)]) simp
  show "forward_loop route req 0 ios gw =
      forward_loop route req 0 (take (nat (rp_maxRetries (gw_retryPolicy gw) + 1)) ios) gw"
    by (rule forward_loop_take) simp
qed

theorem forward_returns_witness:
  "\<exists>resp gw'. forwardWithResilience sample_route sample_req
     [sample_io 3 (replicate 150 \<lparr>si_ready = 1, si_result = Sent 1\<rparr>)
        (replicate 32773 \<lparr>ri_remainingMs = 9, ri_ready = 1, ri_data = Some ''x''\<rparr>),
      sample_io (-1) (replicate 150 \<lparr>si_ready = 1, si_result = Sent 1\<rparr>)
        (replicate 32773 \<lparr>ri_remainingMs = 9, ri_ready = 1, ri_data = Some ''x''\<rparr>)] sample_gw = (Some resp, gw')"
proof -
  let ?s = "replicate 150 \<lparr>si_ready = 1, si_result = Sent 1\<rparr>"
  let ?r = "replicate 32773 \<lparr>ri_remainingMs = 9, ri_ready = 1, ri_data = Some ''x''\<rparr>"
  have l: "list_all (\<lambda>io. si_result io \<noteq> WouldBlock) ?s" "length ?s = 150" "length ?r = 32773"
    by (simp_all only: list_all_iff set_replicate_conv_if length_replicate) simp
  have c: "list_all (\<lambda>be. length (buildBackendRequest sample_req be) \<le> 150) (gw_allBackends sample_gw)"
    "cf_maxResponseBodyBytes (gw_cfg sample_gw) = 4" by code_simp+
  have a: "ample_io sample_req sample_gw (sample_io fd ?s ?r)" for fd
    using l c by (simp only: ample_io_def enough_io_def sample_io_def attempt_io.simps list_all_iff) simp
  have "fresh_run sample_route sample_req 0 [sample_io 3 ?s ?r, sample_io (-1) ?s ?r] sample_gw"
    by (auto simp: sample_sizes fresh_socket_def sample_io_def split: iteration.split)
  from forward_returns [OF sample_wf(1) _ this] a show ?thesis
    by (simp add: sample_sizes sample_route_def)
qed

text \<open>
  C31: When the breakers of all backends of a route are open and none is due for a trial, the client
  gets a 503 at once: no connection is taken or dialled, no delay is slept, no backend is touched.
\<close>

theorem forward_fail_fast:
  assumes "rt_lb route < length (gw_balancers gw)"
    and "list_all (shut (gw_allBackends gw) ios) (lb_backends (gw_balancers gw ! rt_lb route))"
    and "rp_maxRetries (gw_retryPolicy gw) + 1 \<le> int (length ios)"
  shows "\<exists>resp gw'. forwardWithResilience route req ios gw = (Some resp, gw') \<and> untouched gw gw' \<and>
    (resp = exhausted \<or> resp = no_backend)"
proof -
  let ?lb = "gw_balancers gw ! rt_lb route"
  have picks: "lands_shut False (gw_allBackends gw) ios (lb_backends ?lb) (lb_strategy ?lb)"
    using assms(2) pick_sound [of "gw_allBackends gw"]
    by (auto simp: lands_shut_def list_all_iff split: option.split) (metis prod.collapse)
  from forward_shut [OF picks, OF order.refl refl refl, of route 0 req] assms(1,3) show ?thesis
    by (auto simp: forwardWithResilience_def)
qed

definition tripped_gw :: "nat list \<Rightarrow> Gateway" where
  "tripped_gw bs = fold (\<lambda>b. on_backend b (set_breaker (\<lambda>cb. trip cb 1))) bs sample_gw"

theorem forward_fail_fast_witness:
  "\<exists>resp gw'. forwardWithResilience sample_route sample_req [sample_io 3 [] [], sample_io 3 [] []] (tripped_gw [0, 1]) =
     (Some resp, gw') \<and> untouched (tripped_gw [0, 1]) gw' \<and> (resp = exhausted \<or> resp = no_backend)"
proof (rule forward_fail_fast)
  show "rt_lb sample_route < length (gw_balancers (tripped_gw [0, 1]))" by code_simp
  show "list_all (shut (gw_allBackends (tripped_gw [0, 1])) [sample_io 3 [] [], sample_io 3 [] []])
    (lb_backends (gw_balancers (tripped_gw [0, 1]) ! rt_lb sample_route))" by code_simp
  show "rp_maxRetries (gw_retryPolicy (tripped_gw [0, 1])) + 1 \<le> int (length [sample_io 3 [] [], sample_io 3 [] []])"
    by code_simp
qed

text \<open>
  C38: Retrying after a breaker refused does not reach another backend under least connections: the
  balancer does not look at the breakers and its choice depends only on health and active
  connections, so when the backend it prefers is shut every attempt lands on it again and the
  request is answered 503, although another healthy backend with a closed breaker may be there.
\<close>

theorem forward_least_connections_starves:
  assumes "rt_lb route < length (gw_balancers gw)"
    and "lb_strategy (gw_balancers gw ! rt_lb route) = LeastConnections"
    and "pick (gw_allBackends gw) (gw_balancers gw ! rt_lb route) = (Some b, lb')"
    and "shut (gw_allBackends gw) ios b"
    and "rp_maxRetries (gw_retryPolicy gw) + 1 \<le> int (length ios)"
  shows "\<exists>gw'. forwardWithResilience route req ios gw = (Some exhausted, gw') \<and> untouched gw gw'"
proof -
  let ?lb = "gw_balancers gw ! rt_lb route"
  have "pickLeastConnections (gw_allBackends gw) ?lb = Some b" "lb_backends ?lb \<noteq> []"
    using assms(2,3) by (auto simp: pick_def split: if_splits)
  then have picks: "lands_shut True (gw_allBackends gw) ios (lb_backends ?lb) (lb_strategy ?lb)"
    using assms(2,4) by (simp add: lands_shut_def pick_def pickLeastConnections_def)
  from forward_shut [OF picks, OF order.refl refl refl, of route 0 req] assms(1,5) show ?thesis
    by (auto simp: forwardWithResilience_def)
qed

theorem forward_least_connections_starves_witness:
  "(\<exists>gw'. forwardWithResilience sample_route sample_req [sample_io 3 [] [], sample_io 3 [] []] (tripped_gw [0]) =
      (Some exhausted, gw') \<and> untouched (tripped_gw [0]) gw') \<and>
   be_healthy (gw_allBackends (tripped_gw [0]) ! 1) \<and>
   cb_state (be_circuitBreaker (gw_allBackends (tripped_gw [0]) ! 1)) = Closed"
proof (intro conjI)
  let ?lb = "gw_balancers (tripped_gw [0]) ! rt_lb sample_route"
  have "fst (pick (gw_allBackends (tripped_gw [0])) ?lb) = Some 0" by code_simp
  then have p: "pick (gw_allBackends (tripped_gw [0])) ?lb = (Some 0, snd (pick (gw_allBackends (tripped_gw [0])) ?lb))"
    by (metis prod.collapse)
  show "\<exists>gw'. forwardWithResilience sample_route sample_req [sample_io 3 [] [], sample_io 3 [] []] (tripped_gw [0]) =
      (Some exhausted, gw') \<and> untouched (tripped_gw [0]) gw'"
  proof (rule forward_least_connections_starves [OF _ _ p])
    show "rt_lb sample_route < length (gw_balancers (tripped_gw [0]))" by code_simp
    show "lb_strategy ?lb = LeastConnections" by code_simp
    show "shut (gw_allBackends (tripped_gw [0])) [sample_io 3 [] [], sample_io 3 [] []] 0" by code_simp
    show "rp_maxRetries (gw_retryPolicy (tripped_gw [0])) + 1 \<le> int (length [sample_io 3 [] [], sample_io 3 [] []])"
      by code_simp
  qed
qed code_simp+

text \<open>
  C32: A gateway built from any configuration is well formed: every route leads to a balancer and
  every balancer to existing backends, the breakers, the pool and the cache satisfy their
  invariants, no trial is running and no descriptor is open.
\<close>

theorem gateway_init_wf:
  "gw_wf (Gateway_init cfg) \<and> idle_trials (Gateway_init cfg) \<and> gw_descs (Gateway_init cfg) = []"
  by (rule Gateway_init_wf)

text \<open>
  C29: The gateway serves what is configured: with distinct group names, a configured route of a
  known group is in the router with its prefix and its cache flag, and leads to a balancer with the
  strategy of the group whose backends are the configured hosts and ports, in order.
\<close>

theorem gateway_wiring:
  assumes "distinct (map gc_name (cf_backendGroups cfg))" and "g \<in> set (cf_backendGroups cfg)"
    and "r \<in> set (cf_routes cfg)" and "rc_backendGroup r = gc_name g"
  shows "\<exists>route \<in> set (gw_router (Gateway_init cfg)).
    rt_pathPrefix route = rc_pathPrefix r \<and> rt_cacheable route = rc_cacheable r \<and>
    group_wired (Gateway_init cfg) g (rt_lb route)"
proof -
  define gw0 where "gw0 = (Gateway_init (cfg\<lparr>cf_backendGroups := [], cf_routes := []\<rparr>))\<lparr>gw_cfg := cfg\<rparr>"
  let ?gw1 = "fold add_group (cf_backendGroups cfg) gw0"
  have init: "Gateway_init cfg = fold add_route (cf_routes cfg) ?gw1"
    by (simp add: Gateway_init_def buildRouter_def gw0_def)
  obtain i where i: "group_wired ?gw1 g i" using add_groups_wired [OF assms(1,2)] by blast
  then have "map_of (gw_loadBalancers ?gw1) (rc_backendGroup r) = Some i" by (simp add: group_wired_def assms(4))
  with add_routes [of "cf_routes cfg" ?gw1] assms(3) i show ?thesis
    unfolding init by (intro bexI [of _ "\<lparr>rt_pathPrefix = rc_pathPrefix r, rt_lb = i, rt_cacheable = rc_cacheable r\<rparr>"])
      (auto simp: group_wired_def)
qed

theorem gateway_wiring_witness:
  "list_ex (\<lambda>route. rt_pathPrefix route = ''/'' \<and> rt_cacheable route \<and>
     group_wired sample_gw \<lparr>gc_name = ''g'', gc_strategy = ''least_connections'',
       gc_backends = [\<lparr>bc_host = ''a'', bc_port = 1\<rparr>, \<lparr>bc_host = ''b'', bc_port = 2\<rparr>]\<rparr> (rt_lb route))
     (gw_router sample_gw)"
  using gateway_wiring [of sample_cfg "\<lparr>gc_name = ''g'', gc_strategy = ''least_connections'',
      gc_backends = [\<lparr>bc_host = ''a'', bc_port = 1\<rparr>, \<lparr>bc_host = ''b'', bc_port = 2\<rparr>]\<rparr>"
    "\<lparr>rc_pathPrefix = ''/'', rc_backendGroup = ''g'', rc_cacheable = True\<rparr>"]
  unfolding sample_gw_def list_ex_iff by (simp add: sample_cfg_def)

end
