(* ===== verification/EventLoop.thy ===== *)
theory EventLoop
  imports Descriptors
begin

text \<open>
  The epoll wrapper of include/core/EventLoop.hpp and src/core/EventLoop.cpp. Beside the members of
  the class the record holds what the kernel keeps for the epoll instance: the interest list.
  \<^verbatim>\<open>epoll_ctl\<close> answers from that list, as its manual page says (adding twice and modifying
  an unknown descriptor fail). That the kernel refuses a new descriptor for lack of resources is an
  argument; changing the events of a watched one is taken to need none. A callback is a value; what
  calling it does is the argument \<open>handler\<close> of \<open>poll\<close>.
\<close>

section \<open>State and operations\<close>

unbundle bit_operations_syntax

type_synonym events = "32 word"

definition EPOLLIN :: events where "EPOLLIN = 0x001"
definition EPOLLOUT :: events where "EPOLLOUT = 0x004"
definition EPOLLERR :: events where "EPOLLERR = 0x008"
definition EPOLLHUP :: events where "EPOLLHUP = 0x010"

definition has_event :: "events \<Rightarrow> events \<Rightarrow> bool" where
  "has_event evs m \<longleftrightarrow> evs AND m \<noteq> 0"

record 'cb EventLoop =
  el_epollFd :: fd
  el_callbacks :: "(fd, 'cb) umap"
  el_interest :: "(fd, events) umap"

definition EventLoop_init :: "fd \<Rightarrow> 'cb EventLoop outcome" where
  "EventLoop_init epollFd =
     (if epollFd < 0 then Throw
      else Ret \<lparr>el_epollFd = epollFd, el_callbacks = [], el_interest = []\<rparr>)"

definition add :: "bool \<Rightarrow> fd \<Rightarrow> events \<Rightarrow> 'cb \<Rightarrow> 'cb EventLoop \<Rightarrow> 'cb EventLoop outcome" where
  "add refused fd evs cb el =
     (if refused \<or> map_of (el_interest el) fd \<noteq> None then Throw
      else Ret (el\<lparr>el_interest := AList.update fd evs (el_interest el),
                   el_callbacks := AList.update fd cb (el_callbacks el)\<rparr>))"

definition modify :: "fd \<Rightarrow> events \<Rightarrow> 'cb EventLoop \<Rightarrow> 'cb EventLoop outcome" where
  "modify fd evs el =
     (if map_of (el_interest el) fd = None then Throw
      else Ret (el\<lparr>el_interest := AList.update fd evs (el_interest el)\<rparr>))"

definition remove :: "fd \<Rightarrow> 'cb EventLoop \<Rightarrow> 'cb EventLoop" where
  "remove fd el =
     el\<lparr>el_interest := AList.delete fd (el_interest el), el_callbacks := AList.delete fd (el_callbacks el)\<rparr>"

text \<open>What \<^verbatim>\<open>epoll_wait\<close> returns; each event carries the script its callback will need.\<close>

datatype 'io wait_result = WaitInterrupted | WaitFailed | Events "(fd \<times> events \<times> 'io) list"

text \<open>
  The object the callbacks work on contains the loop. \<open>lookup\<close> finds the callback of a descriptor
  at the moment its event is dispatched, so an event of a descriptor that an earlier callback of the
  same round removed is skipped.
\<close>

fun dispatch ::
  "('s \<Rightarrow> fd \<Rightarrow> 'cb option) \<Rightarrow> ('cb \<Rightarrow> events \<Rightarrow> 'io \<Rightarrow> 's \<Rightarrow> 's run) \<Rightarrow>
   (fd \<times> events \<times> 'io) list \<Rightarrow> 's \<Rightarrow> 's run" where
  "dispatch lookup handler [] s = Ran s"
| "dispatch lookup handler ((fd, evs, io) # es) s =
     (case lookup s fd of
        None \<Rightarrow> dispatch lookup handler es s
      | Some cb \<Rightarrow> bind_run (handler cb evs io s) (dispatch lookup handler es))"

definition poll ::
  "('s \<Rightarrow> fd \<Rightarrow> 'cb option) \<Rightarrow> ('cb \<Rightarrow> events \<Rightarrow> 'io \<Rightarrow> 's \<Rightarrow> 's run) \<Rightarrow> ('s \<Rightarrow> 's) \<Rightarrow>
   'io wait_result \<Rightarrow> 's \<Rightarrow> (nat \<times> 's) run" where
  "poll lookup handler tickCb wait s =
     (case wait of
        WaitInterrupted \<Rightarrow> Ran (0, s)
      | WaitFailed \<Rightarrow> Thrown
      | Events es \<Rightarrow> bind_run (dispatch lookup handler es s) (\<lambda>s. Ran (length es, tickCb s)))"

text \<open>The loop of a thread that owns an event loop: one entry per iteration, with the clock of its tick.\<close>

fun poll_rounds ::
  "('s \<Rightarrow> fd \<Rightarrow> 'cb option) \<Rightarrow> ('cb \<Rightarrow> events \<Rightarrow> 'io \<Rightarrow> 's \<Rightarrow> 's run) \<Rightarrow> ('t \<Rightarrow> 's \<Rightarrow> 's) \<Rightarrow>
   ('io wait_result \<times> 't) list \<Rightarrow> 's \<Rightarrow> 's run" where
  "poll_rounds lookup handler tick [] s = Ran s"
| "poll_rounds lookup handler tick ((wait, t) # rs) s =
     bind_run (poll lookup handler (tick t) wait s) (\<lambda>(n, s). poll_rounds lookup handler tick rs s)"

section \<open>Lemmas\<close>

text \<open>A descriptor has a callback exactly when the kernel watches it.\<close>

definition el_ok :: "'cb EventLoop \<Rightarrow> bool" where
  "el_ok el \<longleftrightarrow> distinct (map fst (el_interest el)) \<and> distinct (map fst (el_callbacks el)) \<and>
     dom (map_of (el_interest el)) = dom (map_of (el_callbacks el))"

definition watched :: "'cb EventLoop \<Rightarrow> fd set" where
  "watched el = dom (map_of (el_interest el))"

lemma EventLoop_init_ok: "EventLoop_init fd = Ret el \<Longrightarrow> el_ok el \<and> watched el = {}"
  by (auto simp: EventLoop_init_def el_ok_def watched_def split: if_splits)

lemma add_ok:
  assumes "el_ok el" and "fd \<notin> watched el"
  shows "\<exists>el'. add False fd evs cb el = Ret el' \<and> el_ok el' \<and> watched el' = insert fd (watched el) \<and>
    map_of (el_callbacks el') = (map_of (el_callbacks el))(fd \<mapsto> cb)"
proof -
  have "map_of (el_interest el) fd = None" using assms(2) by (auto simp: watched_def)
  then show ?thesis using assms
    by (auto simp: add_def el_ok_def watched_def distinct_keys_update)
qed

lemma modify_ok:
  assumes "el_ok el" and "fd \<in> watched el"
  shows "\<exists>el'. modify fd evs el = Ret el' \<and> el_ok el' \<and> watched el' = watched el \<and>
    el_callbacks el' = el_callbacks el \<and> map_of (el_interest el') fd = Some evs"
proof -
  have "insert fd (dom (map_of (el_interest el))) = dom (map_of (el_interest el))" "map_of (el_interest el) fd \<noteq> None"
    using assms(2) by (auto simp: watched_def)
  with assms(1) show ?thesis by (simp add: modify_def el_ok_def watched_def distinct_keys_update)
qed

lemma remove_ok:
  assumes "el_ok el"
  shows "el_ok (remove fd el)" and "watched (remove fd el) = watched el - {fd}"
    and "map_of (el_callbacks (remove fd el)) = (map_of (el_callbacks el))(fd := None)"
  using assms by (auto simp: remove_def el_ok_def watched_def distinct_keys_delete)

section \<open>The contract of a reactor\<close>

text \<open>
  What the loop relies on: a callback that is called on a state that satisfies an invariant, and
  gets answers the kernel can give, does not throw and keeps the invariant; so does the tick. Then
  no number of rounds throws or breaks it.
\<close>

fun dispatch_contract ::
  "('s \<Rightarrow> fd \<Rightarrow> 'cb option) \<Rightarrow> ('cb \<Rightarrow> events \<Rightarrow> 'io \<Rightarrow> 's \<Rightarrow> 's run) \<Rightarrow>
   ('cb \<Rightarrow> events \<Rightarrow> 'io \<Rightarrow> 's \<Rightarrow> bool) \<Rightarrow> (fd \<times> events \<times> 'io) list \<Rightarrow> 's \<Rightarrow> bool" where
  "dispatch_contract lookup handler contract [] s \<longleftrightarrow> True"
| "dispatch_contract lookup handler contract ((fd, evs, io) # es) s \<longleftrightarrow>
     (case lookup s fd of
        None \<Rightarrow> dispatch_contract lookup handler contract es s
      | Some cb \<Rightarrow>
          contract cb evs io s \<and>
          (case handler cb evs io s of Ran s' \<Rightarrow> dispatch_contract lookup handler contract es s' | _ \<Rightarrow> True))"

fun rounds_contract ::
  "('s \<Rightarrow> fd \<Rightarrow> 'cb option) \<Rightarrow> ('cb \<Rightarrow> events \<Rightarrow> 'io \<Rightarrow> 's \<Rightarrow> 's run) \<Rightarrow> ('t \<Rightarrow> 's \<Rightarrow> 's) \<Rightarrow>
   ('cb \<Rightarrow> events \<Rightarrow> 'io \<Rightarrow> 's \<Rightarrow> bool) \<Rightarrow> ('io wait_result \<times> 't) list \<Rightarrow> 's \<Rightarrow> bool" where
  "rounds_contract lookup handler tick contract [] s \<longleftrightarrow> True"
| "rounds_contract lookup handler tick contract ((wait, t) # rs) s \<longleftrightarrow>
     (case wait of
        WaitFailed \<Rightarrow> False
      | WaitInterrupted \<Rightarrow> rounds_contract lookup handler tick contract rs s
      | Events es \<Rightarrow>
          dispatch_contract lookup handler contract es s \<and>
          (case dispatch lookup handler es s of
             Ran s' \<Rightarrow> rounds_contract lookup handler tick contract rs (tick t s') | _ \<Rightarrow> True))"

locale reactor =
  fixes lookup :: "'s \<Rightarrow> fd \<Rightarrow> 'cb option"
    and handler :: "'cb \<Rightarrow> events \<Rightarrow> 'io \<Rightarrow> 's \<Rightarrow> 's run"
    and tick :: "'t \<Rightarrow> 's \<Rightarrow> 's"
    and inv :: "'s \<Rightarrow> bool"
    and contract :: "'cb \<Rightarrow> events \<Rightarrow> 'io \<Rightarrow> 's \<Rightarrow> bool"
  assumes safe: "inv s \<Longrightarrow> lookup s fd = Some cb \<Longrightarrow> contract cb evs io s \<Longrightarrow> handler cb evs io s \<noteq> Thrown"
    and keeps: "inv s \<Longrightarrow> lookup s fd = Some cb \<Longrightarrow> contract cb evs io s \<Longrightarrow> handler cb evs io s = Ran s' \<Longrightarrow> inv s'"
    and tick_keeps: "inv s \<Longrightarrow> inv (tick t s)"
begin

lemma dispatch_keeps:
  "inv s \<Longrightarrow> dispatch_contract lookup handler contract es s \<Longrightarrow>
   dispatch lookup handler es s \<noteq> Thrown \<and> (\<forall>s'. dispatch lookup handler es s = Ran s' \<longrightarrow> inv s')"
proof (induction es arbitrary: s)
  case (Cons e es)
  obtain fd evs io where e: "e = (fd, evs, io)" by (metis prod_cases3)
  show ?case
  proof (cases "lookup s fd")
    case (Some cb)
    have c: "contract cb evs io s" using Cons.prems(2) e Some by simp
    show ?thesis
    proof (cases "handler cb evs io s")
      case Pending
      then show ?thesis using e Some by simp
    next
      case Thrown
      with safe [OF Cons.prems(1) Some c] show ?thesis by simp
    next
      case (Ran s1)
      have "dispatch_contract lookup handler contract es s1" using Cons.prems(2) e Some Ran by simp
      from Cons.IH [OF keeps [OF Cons.prems(1) Some c Ran] this] show ?thesis using e Some Ran by simp
    qed
  next
    case None
    with Cons.prems e have "dispatch_contract lookup handler contract es s" by simp
    from Cons.IH [OF Cons.prems(1) this] show ?thesis using e None by simp
  qed
qed simp

lemma rounds_keep:
  "inv s \<Longrightarrow> rounds_contract lookup handler tick contract rs s \<Longrightarrow>
   poll_rounds lookup handler tick rs s \<noteq> Thrown \<and> (\<forall>s'. poll_rounds lookup handler tick rs s = Ran s' \<longrightarrow> inv s')"
proof (induction rs arbitrary: s)
  case (Cons r rs)
  obtain wait t where r: "r = (wait, t)" by fastforce
  show ?case
  proof (cases wait)
    case WaitInterrupted
    with Cons.prems(2) r have "rounds_contract lookup handler tick contract rs s" by simp
    from Cons.IH [OF Cons.prems(1) this] show ?thesis using r WaitInterrupted by (simp add: poll_def)
  next
    case WaitFailed
    with Cons.prems(2) r show ?thesis by simp
  next
    case (Events es)
    have "dispatch_contract lookup handler contract es s" using Cons.prems(2) r Events by simp
    note d = dispatch_keeps [OF Cons.prems(1) this]
    show ?thesis
    proof (cases "dispatch lookup handler es s")
      case Pending
      then show ?thesis using r Events by (simp add: poll_def)
    next
      case Thrown
      with d show ?thesis by simp
    next
      case (Ran s1)
      with d have "inv s1" by blast
      then have i: "inv (tick t s1)" by (rule tick_keeps)
      have "rounds_contract lookup handler tick contract rs (tick t s1)" using Cons.prems(2) r Events Ran by simp
      from Cons.IH [OF i this] show ?thesis using r Events Ran by (simp add: poll_def)
    qed
  qed
qed simp

end

end
