(* ===== verification/TcpServer.thy ===== *)
theory TcpServer
  imports Descriptors
begin

text \<open>
  The listening socket of include/network/TcpServer.hpp and src/network/TcpServer.cpp: the
  constructor and the accept loop. The answers of \<^verbatim>\<open>socket\<close>, \<^verbatim>\<open>bind\<close>,
  \<^verbatim>\<open>listen\<close>, \<^verbatim>\<open>accept\<close> and \<^verbatim>\<open>inet_pton\<close> are arguments. Socket options
  (\<^verbatim>\<open>SO_REUSEPORT\<close>, \<^verbatim>\<open>O_NONBLOCK\<close>, \<^verbatim>\<open>TCP_NODELAY\<close>) leave no trace in the state.
\<close>

section \<open>Construction\<close>

record TcpServer =
  ts_listenFd :: fd

record listen_io =
  li_socket :: fd
  li_bind :: int
  li_listen :: int

definition uint16 :: "int \<Rightarrow> int" where
  "uint16 port = port mod 65536"

text \<open>The address the socket is bound to, in host order; zero is \<^verbatim>\<open>INADDR_ANY\<close>.\<close>

definition bind_address :: "(string \<Rightarrow> 32 word option) \<Rightarrow> string \<Rightarrow> 32 word" where
  "bind_address inet_pton host =
     (if host = [] \<or> host = ''0.0.0.0'' then 0
      else case inet_pton host of Some a \<Rightarrow> a | None \<Rightarrow> 0)"

text \<open>
  When the constructor throws, the destructor does not run: a socket that was opened before stays
  open.
\<close>

definition TcpServer_init ::
  "(string \<Rightarrow> 32 word option) \<Rightarrow> string \<Rightarrow> int \<Rightarrow> listen_io \<Rightarrow> descs \<Rightarrow>
   (TcpServer \<times> 32 word \<times> int) outcome \<times> descs" where
  "TcpServer_init inet_pton host port io os =
     (let fd = li_socket io
      in if fd < 0 then (Throw, os)
         else
           (let os = open_fd fd os;
                addr = (bind_address inet_pton host, uint16 port)
            in if li_bind io < 0 then (Throw, os)
               else if li_listen io < 0 then (Throw, os)
               else (Ret (\<lparr>ts_listenFd = fd\<rparr>, addr), os)))"

definition TcpServer_close :: "TcpServer \<Rightarrow> descs \<Rightarrow> descs" where
  "TcpServer_close ts os = (if ts_listenFd ts \<ge> 0 then close_fd (ts_listenFd ts) os else os)"

section \<open>Accepting\<close>

datatype accept_result = Accepted fd string | AcceptAgain | AcceptInterrupted | AcceptFailed

text \<open>
  The loop hands every accepted connection to \<open>onAccept\<close> and stops when none is pending, when
  accept fails, or when the callback throws. The script has one entry per call of
  \<^verbatim>\<open>accept\<close>.
\<close>

fun acceptAll ::
  "(fd \<Rightarrow> string \<Rightarrow> 'io \<Rightarrow> 's \<Rightarrow> 's outcome) \<Rightarrow> (accept_result \<times> 'io) list \<Rightarrow> 's \<Rightarrow> 's run" where
  "acceptAll onAccept [] s = Pending"
| "acceptAll onAccept ((r, io) # rs) s =
     (case r of
        AcceptAgain \<Rightarrow> Ran s
      | AcceptInterrupted \<Rightarrow> acceptAll onAccept rs s
      | AcceptFailed \<Rightarrow> Ran s
      | Accepted fd ip \<Rightarrow> bind_run (run_outcome (onAccept fd ip io s)) (acceptAll onAccept rs))"

end
