(* ===== verification/Worker.thy ===== *)
theory Worker
  imports Forwarding EventLoop TcpServer HttpParser RequestId "HOL-Library.Signed_Division"
begin

text \<open>
  A worker thread, class \<^verbatim>\<open>Gateway::Worker\<close> of src/core/Gateway.cpp, and the client
  connection it keeps, include/core/Connection.hpp. A worker owns an event loop and a map of
  connections and shares the gateway object with the other workers; the state of a handler is the
  pair of both. Beside the members the worker records the bytes the kernel accepted from it for each
  client, in order. The answers of \<^verbatim>\<open>recv\<close>, \<^verbatim>\<open>send\<close>, \<^verbatim>\<open>accept\<close>, the clock
  and the random engine are scripts. An exception that leaves a handler ends the process
  (\<open>Thrown\<close>).
\<close>

section \<open>State\<close>

record ClientConnection =
  cc_fd :: fd
  cc_clientIp :: string
  cc_parser :: HttpParser
  cc_pendingWrite :: string
  cc_writeOffset :: nat
  cc_closeAfterWrite :: bool
  cc_lastActivity :: time_ns

definition ClientConnection_init :: "fd \<Rightarrow> string \<Rightarrow> time_ns \<Rightarrow> ClientConnection" where
  "ClientConnection_init fd ip now =
     \<lparr>cc_fd = fd, cc_clientIp = ip, cc_parser = HttpParser_init, cc_pendingWrite = [],
      cc_writeOffset = 0, cc_closeAfterWrite = False, cc_lastActivity = now\<rparr>"

definition hasPendingWrite :: "ClientConnection \<Rightarrow> bool" where
  "hasPendingWrite conn \<longleftrightarrow> cc_writeOffset conn < length (cc_pendingWrite conn)"

datatype callback = OnListen | OnClient fd

record Worker =
  wk_id :: int
  wk_loop :: "callback EventLoop"
  wk_conns :: "(fd, ClientConnection) umap"
  wk_wire :: "(fd \<times> string) list"

type_synonym node = "Gateway \<times> Worker"

section \<open>Requests\<close>

record request_io =
  hq_draw :: nat
  hq_start :: time_ns
  hq_uptimeAt :: time_ns
  hq_limitAt :: time_ns
  hq_cacheAt :: time_ns
  hq_attempts :: "attempt_io list"
  hq_putAt :: time_ns
  hq_end :: time_ns

definition recordLatency :: "time_ns \<Rightarrow> time_ns \<Rightarrow> Gateway \<Rightarrow> Gateway" where
  "recordLatency start now gw = metric (recordLatencyMicros (of_int ((now - start) sdiv 1000))) gw"

definition queueResponse ::
  "ClientConnection \<Rightarrow> HttpResponse \<Rightarrow> bool \<Rightarrow> Gateway \<Rightarrow> ClientConnection \<times> Gateway" where
  "queueResponse conn resp closeAfter gw =
     (conn\<lparr>cc_pendingWrite := cc_pendingWrite conn @ serialize resp (\<not> closeAfter),
           cc_closeAfterWrite := closeAfter\<rparr>,
      metric (recordResponse (rs_statusCode resp)) gw)"

definition answer ::
  "ClientConnection \<Rightarrow> HttpRequest \<Rightarrow> request_io \<Rightarrow> HttpResponse \<Rightarrow> Gateway \<Rightarrow> ClientConnection \<times> Gateway" where
  "answer conn req io resp gw =
     queueResponse conn resp (\<not> rq_keepAlive req) (recordLatency (hq_start io) (hq_end io) gw)"

definition to_cached :: "HttpResponse \<Rightarrow> CachedResponse" where
  "to_cached resp =
     \<lparr>cr_statusCode = rs_statusCode resp, cr_statusText = rs_statusText resp,
      cr_headers = rs_headers resp, cr_body = rs_body resp\<rparr>"

definition hit_response :: "CachedResponse \<Rightarrow> string \<Rightarrow> HttpResponse" where
  "hit_response cached requestId =
     (let resp = (HttpMessage.make (cr_statusCode cached) (cr_statusText cached) (cr_body cached))
                   \<lparr>rs_headers := cr_headers cached\<rparr>
      in setHeader (setHeader resp ''X-Cache'' ''HIT'') ''X-Request-Id'' requestId)"

definition cacheableRequest :: "Route \<Rightarrow> HttpRequest \<Rightarrow> bool" where
  "cacheableRequest route req \<longleftrightarrow> rt_cacheable route \<and> (rq_method req = ''GET'' \<or> rq_method req = ''HEAD'')"

text \<open>
  \<open>handleRequest\<close> in two parts: what it decides without a backend, and what it does with one. Every
  branch of the first part that answers ends with the same two calls, \<open>answer\<close>. \<open>None\<close> in the
  first part is undefined behaviour of the cache, which its invariant excludes; in the second part
  also a call of the forwarding that has not returned.
\<close>

datatype decision = Reply HttpResponse | Forward Route

definition lookupCache :: "HttpRequest \<Rightarrow> request_io \<Rightarrow> Route \<Rightarrow> Gateway \<Rightarrow> (decision \<times> Gateway) option" where
  "lookupCache req io route gw =
     (if cacheableRequest route req then
        (case LRUCache.get (gw_cache gw) (hq_cacheAt io) (cacheKey req) of
           None \<Rightarrow> None
         | Some (Some cached, cache) \<Rightarrow>
             Some (Reply (hit_response cached (rq_requestId req)), metric incCacheHit (gw\<lparr>gw_cache := cache\<rparr>))
         | Some (None, cache) \<Rightarrow> Some (Forward route, metric incCacheMiss (gw\<lparr>gw_cache := cache\<rparr>)))
      else Some (Forward route, gw))"

definition request_fields :: "ClientConnection \<Rightarrow> HttpRequest \<Rightarrow> string" where
  "request_fields conn req =
     quoted ''request_id'' @ '':'' @ quoted (rq_requestId req) @ '','' @ quoted ''method'' @ '':'' @
     quoted (rq_method req) @ '','' @ quoted ''path'' @ '':'' @ quoted (rq_path req) @ '','' @
     quoted ''client_ip'' @ '':'' @ quoted (cc_clientIp conn)"

definition metrics_response :: "(real \<Rightarrow> string) \<Rightarrow> request_io \<Rightarrow> Gateway \<Rightarrow> HttpResponse" where
  "metrics_response fmt io gw =
     (let uptime = real_of_int (hq_uptimeAt io - gw_startTime gw) / 10 ^ 9
      in setHeader (HttpMessage.make 200 ''OK'' (toPrometheusText fmt uptime (gw_metrics gw)))
           ''Content-Type'' ''text/plain; version=0.0.4'')"

definition health_response :: HttpResponse where
  "health_response = HttpMessage.make 200 ''OK'' (''{'' @ quoted ''status'' @ '':'' @ quoted ''ok'' @ ''}'')"

definition decide ::
  "(real \<Rightarrow> string) \<Rightarrow> ClientConnection \<Rightarrow> HttpRequest \<Rightarrow> request_io \<Rightarrow> Gateway \<Rightarrow> (decision \<times> Gateway) option" where
  "decide fmt conn req io gw =
     (let gw = log_event_gw INFO ''request received'' (request_fields conn req) (metric incRequests gw)
      in if rq_path req = ''/metrics'' then Some (Reply (metrics_response fmt io gw), gw)
         else if rq_path req = ''/gateway/health'' then Some (Reply health_response, gw)
         else
           (case allow (gw_rateLimiter gw) (hq_limitAt io) (cc_clientIp conn) 1 of
              (ok, rl) \<Rightarrow>
                (let gw = gw\<lparr>gw_rateLimiter := rl\<rparr>
                 in if \<not> ok then
                      Some (Reply (HttpMessage.make 429 ''Too Many Requests'' ''rate limit exceeded''),
                            metric incRateLimited gw)
                    else
                      (case match (gw_router gw) (rq_path req) of
                         None \<Rightarrow>
                           Some (Reply (HttpMessage.make 404 ''Not Found'' ''no matching route''), metric incErrors gw)
                       | Some route \<Rightarrow> lookupCache req io route gw))))"

definition storeResponse :: "HttpRequest \<Rightarrow> request_io \<Rightarrow> Route \<Rightarrow> HttpResponse \<Rightarrow> Gateway \<Rightarrow> (HttpResponse \<times> Gateway) option" where
  "storeResponse req io route resp gw =
     (let resp = setHeader resp ''X-Request-Id'' (rq_requestId req)
      in if cacheableRequest route req \<and> rs_statusCode resp = 200 then
           (let resp = setHeader resp ''X-Cache'' ''MISS''
            in case LRUCache.put (gw_cache gw) (hq_putAt io) (cacheKey req) (to_cached resp) of
                 None \<Rightarrow> None
               | Some cache \<Rightarrow> Some (resp, gw\<lparr>gw_cache := cache\<rparr>))
         else Some (resp, gw))"

definition forwardRequest ::
  "ClientConnection \<Rightarrow> HttpRequest \<Rightarrow> request_io \<Rightarrow> Route \<Rightarrow> Gateway \<Rightarrow> (ClientConnection \<times> Gateway) option" where
  "forwardRequest conn req io route gw =
     (case forwardWithResilience route req (hq_attempts io) gw of
        (None, gw) \<Rightarrow> None
      | (Some resp, gw) \<Rightarrow>
          (case storeResponse req io route resp gw of
             None \<Rightarrow> None
           | Some (resp, gw) \<Rightarrow>
               Some (answer conn req io resp (if rs_statusCode resp \<ge> 500 then metric incErrors gw else gw))))"

definition handleRequest ::
  "(real \<Rightarrow> string) \<Rightarrow> ClientConnection \<Rightarrow> HttpRequest \<Rightarrow> request_io \<Rightarrow> Gateway \<Rightarrow> (ClientConnection \<times> Gateway) option" where
  "handleRequest fmt conn req io gw =
     (case decide fmt conn req io gw of
        None \<Rightarrow> None
      | Some (Reply resp, gw) \<Rightarrow> Some (answer conn req io resp gw)
      | Some (Forward route, gw) \<Rightarrow> forwardRequest conn req io route gw)"

section \<open>Connections\<close>

definition closeConnection :: "fd \<Rightarrow> node \<Rightarrow> node" where
  "closeConnection fd s =
     (case s of (gw, wk) \<Rightarrow>
        (case map_of (wk_conns wk) fd of
           None \<Rightarrow> (gw, wk)
         | Some conn \<Rightarrow>
             (metric connectionClosed (gw\<lparr>gw_descs := close_fd fd (gw_descs gw)\<rparr>),
              wk\<lparr>wk_loop := remove fd (wk_loop wk), wk_conns := AList.delete fd (wk_conns wk)\<rparr>)))"

text \<open>Accepting opens the descriptor; registering it may be refused by the kernel.\<close>

record accept_io =
  ac_now :: time_ns
  ac_refused :: bool

definition onAccept :: "fd \<Rightarrow> string \<Rightarrow> accept_io \<Rightarrow> node \<Rightarrow> node outcome" where
  "onAccept fd ip io s =
     (case s of (gw, wk) \<Rightarrow>
        (let gw = metric connectionOpened (gw\<lparr>gw_descs := open_fd fd (gw_descs gw)\<rparr>);
             conn = ClientConnection_init fd ip (ac_now io)
         in case add (ac_refused io) fd EPOLLIN (OnClient fd) (wk_loop wk) of
              Throw \<Rightarrow> Throw
            | Ret el \<Rightarrow> Ret (gw, wk\<lparr>wk_conns := AList.update fd conn (wk_conns wk), wk_loop := el\<rparr>)))"

datatype flush_end = FlushedAll | FlushBlocked | FlushBroken | FlushWaiting

fun flush_loop :: "ClientConnection \<Rightarrow> sent_result list \<Rightarrow> flush_end \<times> ClientConnection \<times> string" where
  "flush_loop conn rs =
     (if hasPendingWrite conn then
        (case rs of
           [] \<Rightarrow> (FlushWaiting, conn, [])
         | r # rs \<Rightarrow>
             (case r of
                Sent n \<Rightarrow>
                  if n > 0 then
                    (case flush_loop (conn\<lparr>cc_writeOffset := cc_writeOffset conn + nat n\<rparr>) rs of
                       (e, conn', sent) \<Rightarrow>
                         (e, conn', take (nat n) (drop (cc_writeOffset conn) (cc_pendingWrite conn)) @ sent))
                  else (FlushBroken, conn, [])
              | WouldBlock \<Rightarrow> (FlushBlocked, conn, [])
              | SendError \<Rightarrow> (FlushBroken, conn, [])))
      else (FlushedAll, conn, []))"

declare flush_loop.simps [simp del]

definition watch :: "fd \<Rightarrow> events \<Rightarrow> node \<Rightarrow> node run" where
  "watch fd evs s =
     (case s of (gw, wk) \<Rightarrow>
        (case modify fd evs (wk_loop wk) of
           Throw \<Rightarrow> Thrown
         | Ret el \<Rightarrow> Ran (gw, wk\<lparr>wk_loop := el\<rparr>)))"

definition set_conn :: "fd \<Rightarrow> ClientConnection \<Rightarrow> Worker \<Rightarrow> Worker" where
  "set_conn fd conn wk = wk\<lparr>wk_conns := AList.update fd conn (wk_conns wk)\<rparr>"

definition flushIfPossible :: "fd \<Rightarrow> sent_result list \<Rightarrow> node \<Rightarrow> node run" where
  "flushIfPossible fd sends s =
     (case s of (gw, wk) \<Rightarrow>
        (case map_of (wk_conns wk) fd of
           None \<Rightarrow> Ran (gw, wk)
         | Some conn \<Rightarrow>
             if \<not> hasPendingWrite conn then Ran (gw, wk)
             else
               (case flush_loop conn sends of
                  (e, conn, sent) \<Rightarrow>
                    (let wk = (set_conn fd conn wk)\<lparr>wk_wire := wk_wire wk @ [(fd, sent)]\<rparr>
                     in case e of
                          FlushWaiting \<Rightarrow> Pending
                        | FlushBlocked \<Rightarrow> watch fd (EPOLLIN OR EPOLLOUT) (gw, wk)
                        | FlushBroken \<Rightarrow> Ran (closeConnection fd (gw, wk))
                        | FlushedAll \<Rightarrow>
                            (let wk = set_conn fd (conn\<lparr>cc_pendingWrite := [], cc_writeOffset := 0\<rparr>) wk
                             in if cc_closeAfterWrite conn then Ran (closeConnection fd (gw, wk))
                                else watch fd EPOLLIN (gw, wk))))))"

definition onWritable :: "fd \<Rightarrow> sent_result list \<Rightarrow> node \<Rightarrow> node run" where
  "onWritable fd sends s = flushIfPossible fd sends s"

datatype recv_result = Data string | PeerClosed | RecvAgain | RecvInterrupted | RecvFailed

datatype read_end = Drained | ReadClosed | ReadWaiting

fun read_loop :: "ClientConnection \<Rightarrow> (recv_result \<times> time_ns) list \<Rightarrow> read_end \<times> ClientConnection" where
  "read_loop conn [] = (ReadWaiting, conn)"
| "read_loop conn ((r, now) # rs) =
     (case r of
        Data buf \<Rightarrow>
          (let conn = conn\<lparr>cc_parser := HttpParser.append (cc_parser conn) buf, cc_lastActivity := now\<rparr>
           in if length buf < 16384 then (Drained, conn) else read_loop conn rs)
      | PeerClosed \<Rightarrow> (ReadClosed, conn)
      | RecvAgain \<Rightarrow> (Drained, conn)
      | RecvInterrupted \<Rightarrow> read_loop conn rs
      | RecvFailed \<Rightarrow> (ReadClosed, conn))"

text \<open>The loop over the buffered requests; each request takes one entry of the script.\<close>

fun drain ::
  "(real \<Rightarrow> string) \<Rightarrow> ClientConnection \<Rightarrow> request_io list \<Rightarrow> Gateway \<Rightarrow> (ClientConnection \<times> Gateway) option" where
  "drain fmt conn ios gw =
     (case parse (cc_parser conn) HttpRequest_init of
        (Incomplete, p, req) \<Rightarrow> Some (conn\<lparr>cc_parser := p\<rparr>, gw)
      | (Error, p, req) \<Rightarrow>
          Some (queueResponse (conn\<lparr>cc_parser := p\<rparr>) (HttpMessage.make 400 ''Bad Request'' ''malformed request'') True gw)
      | (Complete, p, req) \<Rightarrow>
          (case ios of
             [] \<Rightarrow> None
           | io # ios \<Rightarrow>
               (case next_id (gw_nextId gw) (hq_draw io) of
                  (requestId, counter) \<Rightarrow>
                    (case handleRequest fmt (conn\<lparr>cc_parser := p\<rparr>) (req\<lparr>rq_requestId := requestId\<rparr>) io
                            (gw\<lparr>gw_nextId := counter\<rparr>) of
                       None \<Rightarrow> None
                     | Some (conn, gw) \<Rightarrow>
                         if cc_closeAfterWrite conn then Some (conn, gw) else drain fmt conn ios gw))))"

declare drain.simps [simp del]

record client_io =
  ci_recvs :: "(recv_result \<times> time_ns) list"
  ci_requests :: "request_io list"
  ci_sends :: "sent_result list"
  ci_resends :: "sent_result list"

definition onReadable :: "(real \<Rightarrow> string) \<Rightarrow> fd \<Rightarrow> client_io \<Rightarrow> node \<Rightarrow> node run" where
  "onReadable fmt fd io s =
     (case s of (gw, wk) \<Rightarrow>
        (case map_of (wk_conns wk) fd of
           None \<Rightarrow> Ran (gw, wk)
         | Some conn \<Rightarrow>
             (case read_loop conn (ci_recvs io) of
                (ReadWaiting, conn) \<Rightarrow> Pending
              | (ReadClosed, conn) \<Rightarrow> Ran (closeConnection fd (gw, set_conn fd conn wk))
              | (Drained, conn) \<Rightarrow>
                  (case drain fmt conn (ci_requests io) gw of
                     None \<Rightarrow> Pending
                   | Some (conn, gw) \<Rightarrow> flushIfPossible fd (ci_sends io) (gw, set_conn fd conn wk)))))"

definition onEvent :: "(real \<Rightarrow> string) \<Rightarrow> fd \<Rightarrow> events \<Rightarrow> client_io \<Rightarrow> node \<Rightarrow> node run" where
  "onEvent fmt fd evs io s =
     (if has_event evs (EPOLLHUP OR EPOLLERR) then Ran (closeConnection fd s)
      else
        bind_run (if has_event evs EPOLLIN then onReadable fmt fd io s else Ran s)
          (\<lambda>s. if map_of (wk_conns (snd s)) fd = None then Ran s
               else if has_event evs EPOLLOUT then onWritable fd (ci_resends io) s else Ran s))"

definition kIdleTimeout :: time_ns where "kIdleTimeout = 60 * 10 ^ 9"

definition idle_fds :: "time_ns \<Rightarrow> Worker \<Rightarrow> fd list" where
  "idle_fds now wk =
     map fst (filter (\<lambda>(fd, conn). \<not> hasPendingWrite conn \<and> now - cc_lastActivity conn > kIdleTimeout) (wk_conns wk))"

definition sweepIdleConnections :: "time_ns \<Rightarrow> node \<Rightarrow> node" where
  "sweepIdleConnections now s = fold closeConnection (idle_fds now (snd s)) s"

section \<open>The thread\<close>

record event_io =
  ev_accepts :: "(accept_result \<times> accept_io) list"
  ev_client :: client_io

definition run_callback :: "(real \<Rightarrow> string) \<Rightarrow> callback \<Rightarrow> events \<Rightarrow> event_io \<Rightarrow> node \<Rightarrow> node run" where
  "run_callback fmt cb evs io s =
     (case cb of
        OnListen \<Rightarrow> acceptAll onAccept (ev_accepts io) s
      | OnClient fd \<Rightarrow> onEvent fmt fd evs (ev_client io) s)"

definition callback_of :: "node \<Rightarrow> fd \<Rightarrow> callback option" where
  "callback_of s fd = map_of (el_callbacks (wk_loop (snd s))) fd"

definition worker_rounds :: "(real \<Rightarrow> string) \<Rightarrow> (event_io wait_result \<times> time_ns) list \<Rightarrow> node \<Rightarrow> node run" where
  "worker_rounds fmt rounds s = poll_rounds callback_of (run_callback fmt) sweepIdleConnections rounds s"

definition worker_shutdown :: "node \<Rightarrow> node" where
  "worker_shutdown s = fold closeConnection (map fst (wk_conns (snd s))) s"

definition worker_start ::
  "(string \<Rightarrow> 32 word option) \<Rightarrow> listen_io \<Rightarrow> bool \<Rightarrow> node \<Rightarrow> (TcpServer \<times> node) run" where
  "worker_start inet_pton lio refused s =
     (case s of (gw, wk) \<Rightarrow>
        (case TcpServer_init inet_pton (cf_listenHost (gw_cfg gw)) (cf_listenPort (gw_cfg gw)) lio (gw_descs gw) of
           (Throw, os) \<Rightarrow> Thrown
         | (Ret (server, addr), os) \<Rightarrow>
             (case add refused (ts_listenFd server) EPOLLIN OnListen (wk_loop wk) of
                Throw \<Rightarrow> Thrown
              | Ret el \<Rightarrow>
                  Ran (server,
                       log_event_gw INFO ''worker started''
                         (quoted ''worker_id'' @ '':'' @ int_to_string (wk_id wk) @ '','' @ quoted ''port'' @ '':'' @
                          int_to_string (cf_listenPort (gw_cfg gw))) (gw\<lparr>gw_descs := os\<rparr>),
                       wk\<lparr>wk_loop := el\<rparr>))))"

definition worker_run ::
  "(real \<Rightarrow> string) \<Rightarrow> (string \<Rightarrow> 32 word option) \<Rightarrow> listen_io \<Rightarrow> bool \<Rightarrow>
   (event_io wait_result \<times> time_ns) list \<Rightarrow> node \<Rightarrow> node run" where
  "worker_run fmt inet_pton lio refused rounds s =
     bind_run (worker_start inet_pton lio refused s) (\<lambda>(server, s).
     bind_run (worker_rounds fmt rounds s) (\<lambda>s.
       case worker_shutdown s of
         (gw, wk) \<Rightarrow> Ran (gw\<lparr>gw_descs := TcpServer_close server (gw_descs gw)\<rparr>, wk)))"

section \<open>What a request leaves unchanged\<close>

abbreviation gauge :: "Gateway \<Rightarrow> int" where
  "gauge gw \<equiv> mt_activeConnections (gw_metrics gw)"

text \<open>
  The part of the gateway the connections of a worker depend on: it is well formed, the descriptors
  outside the pool are the same, and so is the number of connections it reports.
\<close>

definition gw_steady :: "Gateway \<Rightarrow> Gateway \<Rightarrow> bool" where
  "gw_steady gw gw' \<longleftrightarrow> (gw_wf gw \<longrightarrow> gw_wf gw') \<and> gauge gw' = gauge gw \<and>
     outside (gw_pool gw') (gw_descs gw') = outside (gw_pool gw) (gw_descs gw)"

lemma gw_steady_refl [simp]: "gw_steady gw gw"
  by (simp add: gw_steady_def)

lemma gw_steady_trans: "gw_steady a b \<Longrightarrow> gw_steady b c \<Longrightarrow> gw_steady a c"
  by (simp add: gw_steady_def)

lemma recordResponse_gauge [simp]: "mt_activeConnections (recordResponse c m) = mt_activeConnections m"
  by (simp add: recordResponse_def Let_def)

lemma answer_steady [simp]: "gw_steady gw (snd (answer conn req io resp gw))"
  by (simp add: gw_steady_def answer_def queueResponse_def recordLatency_def metric_def gw_wf_def
      recordLatencyMicros_def)

definition conn_kept :: "ClientConnection \<Rightarrow> ClientConnection \<Rightarrow> bool" where
  "conn_kept conn conn' \<longleftrightarrow> cc_fd conn' = cc_fd conn \<and> cc_writeOffset conn' = cc_writeOffset conn \<and>
     prefix (cc_pendingWrite conn) (cc_pendingWrite conn')"

lemma conn_kept_trans: "conn_kept a b \<Longrightarrow> conn_kept b c \<Longrightarrow> conn_kept a c"
  by (auto simp: conn_kept_def intro: prefix_order.trans)

lemma answer_kept [simp]: "conn_kept conn (fst (answer conn req io resp gw))"
  by (simp add: conn_kept_def answer_def queueResponse_def)

lemma cache_steady:
  "lru_inv c \<Longrightarrow> gw_steady gw (gw\<lparr>gw_cache := c\<rparr>)"
  by (simp add: gw_steady_def gw_wf_def)

lemma lookupCache_steady:
  assumes "gw_wf gw" and "lookupCache req io route gw = Some (d, gw')"
  shows "gw_steady gw gw' \<and> gw_router gw' = gw_router gw \<and> (\<forall>r. d = Forward r \<longrightarrow> r = route)"
proof (cases "cacheableRequest route req")
  case True
  obtain r c' where g: "LRUCache.get (gw_cache gw) (hq_cacheAt io) (cacheKey req) = Some (r, c')" "lru_inv c'"
    using get_refines [of "gw_cache gw"] assms(1) unfolding gw_wf_def by blast
  with True assms(2) cache_steady [OF g(2), of gw] show ?thesis
    by (auto simp: lookupCache_def gw_steady_def gw_wf_def metric_def incCacheHit_def incCacheMiss_def split: option.splits)
qed (use assms in \<open>auto simp: lookupCache_def\<close>)

lemma decide_steady:
  assumes "gw_wf gw" and "decide fmt conn req io gw = Some (d, gw')"
  shows "gw_steady gw gw'" and "d = Forward route \<Longrightarrow> rt_lb route < length (gw_balancers gw')"
proof -
  define gw1 where "gw1 = log_event_gw INFO ''request received'' (request_fields conn req) (metric incRequests gw)"
  have s1: "gw_steady gw (gw1\<lparr>gw_rateLimiter := rl\<rparr>)" "gw_wf (gw1\<lparr>gw_rateLimiter := rl\<rparr>)" "gw_steady gw gw1" for rl
    using assms(1) by (simp_all add: gw1_def gw_steady_def gw_wf_def log_event_gw_def metric_def incRequests_def)
  obtain ok rl where a: "allow (gw_rateLimiter gw1) (hq_limitAt io) (cc_clientIp conn) 1 = (ok, rl)" by fastforce
  let ?gw2 = "gw1\<lparr>gw_rateLimiter := rl\<rparr>"
  have s2: "gw_steady gw (metric incRateLimited ?gw2)" "gw_steady gw (metric incErrors ?gw2)"
    using s1(1) [of rl] by (auto simp: gw_steady_def gw_wf_def metric_def incRateLimited_def incErrors_def)
  consider (reply) "gw_steady gw gw'" "\<And>r. d \<noteq> Forward r"
    | (route) r where "match (gw_router ?gw2) (rq_path req) = Some r" "lookupCache req io r ?gw2 = Some (d, gw')"
    using assms(2) s1(3) s2 unfolding decide_def Let_def gw1_def [symmetric] a
    by (auto split: if_splits option.splits)
  then have "gw_steady gw gw' \<and> (d = Forward route \<longrightarrow> rt_lb route < length (gw_balancers gw'))"
  proof cases
    case (route r)
    note l = lookupCache_steady [OF s1(2) route(2)]
    have "r \<in> set (gw_router gw')" using route(1) l by (auto simp: match_def find_Some_iff)
    moreover have "gw_wf gw'" using l s1(2) by (auto simp: gw_steady_def)
    ultimately show ?thesis using l gw_steady_trans [OF s1(1)] by (auto simp: gw_wf_def)
  qed simp
  then show "gw_steady gw gw'" "d = Forward route \<Longrightarrow> rt_lb route < length (gw_balancers gw')" by simp_all
qed

lemma storeResponse_steady:
  assumes "gw_wf gw" and "storeResponse req io route resp gw = Some (resp', gw')"
  shows "gw_steady gw gw'"
proof -
  have "lru_inv c" if "LRUCache.put (gw_cache gw) t k v = Some c" for t k v c
    using put_refines [of "gw_cache gw" t k v] assms(1) that by (auto simp: gw_wf_def)
  with assms(2) cache_steady show ?thesis
    by (auto simp: storeResponse_def Let_def split: option.splits if_splits)
qed

lemma incErrors_steady: "gw_steady gw (if b then metric incErrors gw else gw)"
  by (simp add: gw_steady_def gw_wf_def metric_def incErrors_def)

lemma forwardRequest_steady:
  assumes "gw_wf gw" and "rt_lb route < length (gw_balancers gw)" and "fresh_run route req 0 (hq_attempts io) gw"
    and "forwardRequest conn req io route gw = Some (conn', gw')"
  shows "gw_steady gw gw' \<and> conn_kept conn conn'"
proof -
  obtain resp gw1 resp' gw2 where f: "forwardWithResilience route req (hq_attempts io) gw = (Some resp, gw1)"
    and st: "storeResponse req io route resp gw1 = Some (resp', gw2)"
    and an: "(conn', gw') = answer conn req io resp' (if rs_statusCode resp' \<ge> 500 then metric incErrors gw2 else gw2)"
    using assms(4) by (auto simp: forwardRequest_def split: prod.splits option.splits)
  have c: "gw_conserved gw gw1" using forward_loop_conserved [OF assms(1-3)] f by (simp add: forwardWithResilience_def)
  have "gw_steady gw gw1" using c by (auto simp: gw_conserved_def gw_steady_def gw_static_def)
  moreover have "gw_steady gw1 gw2" using storeResponse_steady [OF _ st] c by (simp add: gw_conserved_def)
  moreover have "gw_steady gw2 gw'" "conn_kept conn conn'"
    using an answer_steady answer_kept incErrors_steady by (metis fst_conv snd_conv gw_steady_trans)+
  ultimately show ?thesis using gw_steady_trans by blast
qed

text \<open>The kernel contract of a request: sockets it returns are not open.\<close>

definition fresh_request :: "(real \<Rightarrow> string) \<Rightarrow> ClientConnection \<Rightarrow> HttpRequest \<Rightarrow> request_io \<Rightarrow> Gateway \<Rightarrow> bool" where
  "fresh_request fmt conn req io gw =
     (case decide fmt conn req io gw of
        Some (Forward route, gw) \<Rightarrow> fresh_run route req 0 (hq_attempts io) gw | _ \<Rightarrow> True)"

lemma handleRequest_steady:
  assumes "gw_wf gw" and "fresh_request fmt conn req io gw"
    and "handleRequest fmt conn req io gw = Some (conn', gw')"
  shows "gw_steady gw gw' \<and> conn_kept conn conn'"
proof -
  obtain d gw1 where d: "decide fmt conn req io gw = Some (d, gw1)"
    using assms(3) by (auto simp: handleRequest_def split: option.splits)
  note st = decide_steady [OF assms(1) d]
  show ?thesis
  proof (cases d)
    case (Reply resp)
    then have "(conn', gw') = answer conn req io resp gw1" using assms(3) d by (simp add: handleRequest_def)
    then show ?thesis using st(1) answer_steady [of gw1 conn req io resp] answer_kept [of conn req io resp gw1]
      by (metis fst_conv snd_conv gw_steady_trans)
  next
    case (Forward route)
    have "gw_wf gw1" using st(1) assms(1) by (simp add: gw_steady_def)
    with forwardRequest_steady [of gw1 route req io conn conn' gw'] st(2) [OF Forward] assms(2,3) d Forward st(1)
    show ?thesis by (auto simp: fresh_request_def handleRequest_def dest: gw_steady_trans)
  qed
qed

fun fresh_drain :: "(real \<Rightarrow> string) \<Rightarrow> ClientConnection \<Rightarrow> request_io list \<Rightarrow> Gateway \<Rightarrow> bool" where
  "fresh_drain fmt conn [] gw \<longleftrightarrow> True"
| "fresh_drain fmt conn (io # ios) gw \<longleftrightarrow>
     (case parse (cc_parser conn) HttpRequest_init of
        (Complete, p, req) \<Rightarrow>
          (case next_id (gw_nextId gw) (hq_draw io) of
             (requestId, counter) \<Rightarrow>
               fresh_request fmt (conn\<lparr>cc_parser := p\<rparr>) (req\<lparr>rq_requestId := requestId\<rparr>) io (gw\<lparr>gw_nextId := counter\<rparr>) \<and>
               (case handleRequest fmt (conn\<lparr>cc_parser := p\<rparr>) (req\<lparr>rq_requestId := requestId\<rparr>) io
                       (gw\<lparr>gw_nextId := counter\<rparr>) of
                  Some (conn, gw) \<Rightarrow> fresh_drain fmt conn ios gw | None \<Rightarrow> True))
      | _ \<Rightarrow> True)"

lemma conn_kept_parser [simp]:
  "conn_kept (conn\<lparr>cc_parser := p\<rparr>) conn' \<longleftrightarrow> conn_kept conn conn'"
  "conn_kept conn (conn\<lparr>cc_parser := p\<rparr>)"
  by (simp_all add: conn_kept_def)

lemma queueResponse_frame:
  "queueResponse (conn\<lparr>cc_parser := p\<rparr>) resp b gw = (conn', gw') \<Longrightarrow> gw_steady gw gw' \<and> conn_kept conn conn'"
  by (auto simp: queueResponse_def gw_steady_def gw_wf_def metric_def conn_kept_def)

lemma drain_unfold:
  "parse (cc_parser conn) HttpRequest_init = (Incomplete, p, req) \<Longrightarrow> drain fmt conn ios gw = Some (conn\<lparr>cc_parser := p\<rparr>, gw)"
  "parse (cc_parser conn) HttpRequest_init = (Error, p, req) \<Longrightarrow> drain fmt conn ios gw =
     Some (queueResponse (conn\<lparr>cc_parser := p\<rparr>) (HttpMessage.make 400 ''Bad Request'' ''malformed request'') True gw)"
  "parse (cc_parser conn) HttpRequest_init = (Complete, p, req) \<Longrightarrow> drain fmt conn [] gw = None"
  "parse (cc_parser conn) HttpRequest_init = (Complete, p, req) \<Longrightarrow> next_id (gw_nextId gw) (hq_draw io) = (rid, n) \<Longrightarrow>
   drain fmt conn (io # ios) gw =
     (case handleRequest fmt (conn\<lparr>cc_parser := p\<rparr>) (req\<lparr>rq_requestId := rid\<rparr>) io (gw\<lparr>gw_nextId := n\<rparr>) of
        None \<Rightarrow> None
      | Some (conn, gw) \<Rightarrow> if cc_closeAfterWrite conn then Some (conn, gw) else drain fmt conn ios gw)"
  by (subst drain.simps, simp)+

lemma counter_steady [simp]: "gw_steady (gw\<lparr>gw_nextId := n\<rparr>) gw' \<longleftrightarrow> gw_steady gw gw'" "gw_wf (gw\<lparr>gw_nextId := n\<rparr>) = gw_wf gw"
  by (simp_all add: gw_steady_def gw_wf_def)

lemma drain_steady:
  "gw_wf gw \<Longrightarrow> fresh_drain fmt conn ios gw \<Longrightarrow> drain fmt conn ios gw = Some (conn', gw') \<Longrightarrow>
   gw_steady gw gw' \<and> conn_kept conn conn'"
proof (induction ios arbitrary: conn gw)
  case Nil
  obtain st p req where parse: "parse (cc_parser conn) HttpRequest_init = (st, p, req)" by (metis prod_cases3)
  show ?case
  proof (cases st)
    case Error
    with Nil.prems(3) parse queueResponse_frame show ?thesis by (simp add: drain_unfold(2))
  qed (use Nil.prems(3) parse in \<open>auto simp: drain_unfold(1,3)\<close>)
next
  case (Cons io ios)
  obtain st p req where parse: "parse (cc_parser conn) HttpRequest_init = (st, p, req)" by (metis prod_cases3)
  show ?case
  proof (cases st)
    case Complete
    obtain rid n where id: "next_id (gw_nextId gw) (hq_draw io) = (rid, n)" by fastforce
    note un = drain_unfold(4) [OF parse [unfolded Complete] id]
    let ?h = "handleRequest fmt (conn\<lparr>cc_parser := p\<rparr>) (req\<lparr>rq_requestId := rid\<rparr>) io (gw\<lparr>gw_nextId := n\<rparr>)"
    obtain conn1 gw1 where h: "?h = Some (conn1, gw1)" using Cons.prems(3) by (auto simp: un split: option.splits)
    have k: "gw_steady gw gw1 \<and> conn_kept conn conn1"
      using handleRequest_steady [OF _ _ h] Cons.prems(1,2) parse Complete id by simp
    then have wf1: "gw_wf gw1" using Cons.prems(1) by (simp add: gw_steady_def)
    have f1: "fresh_drain fmt conn1 ios gw1" using Cons.prems(2) parse Complete id h by simp
    show ?thesis
    proof (cases "cc_closeAfterWrite conn1")
      case True
      with Cons.prems(3) h k show ?thesis by (simp add: un)
    next
      case False
      with Cons.prems(3) h have "drain fmt conn1 ios gw1 = Some (conn', gw')" by (simp add: un)
      from Cons.IH [OF wf1 f1 this] k show ?thesis using gw_steady_trans conn_kept_trans by blast
    qed
  next
    case Error
    with Cons.prems(3) parse queueResponse_frame show ?thesis by (simp add: drain_unfold(2))
  next
    case Incomplete
    with Cons.prems(3) parse show ?thesis by (auto simp: drain_unfold(1))
  qed
qed

section \<open>The invariant of a worker\<close>

text \<open>
  \<open>L\<close> is the listening descriptor, \<open>F\<close> the descriptors that belong to others, \<open>base\<close> the
  connections others count. The callbacks are exactly the listener's and one per connection, each
  open descriptor outside the pool is accounted for, and the gauge counts the connections.
\<close>

definition conn_ok :: "fd \<Rightarrow> ClientConnection \<Rightarrow> bool" where
  "conn_ok fd conn \<longleftrightarrow> cc_fd conn = fd \<and> cc_writeOffset conn \<le> length (cc_pendingWrite conn)"

definition callbacks_of :: "fd \<Rightarrow> fd set \<Rightarrow> fd \<Rightarrow> callback option" where
  "callbacks_of L C fd = (if fd = L then Some OnListen else if fd \<in> C then Some (OnClient fd) else None)"

definition node_ok :: "fd \<Rightarrow> fd set \<Rightarrow> int \<Rightarrow> node \<Rightarrow> bool" where
  "node_ok L F base s \<longleftrightarrow>
     (case s of (gw, wk) \<Rightarrow>
        (let C = dom (map_of (wk_conns wk))
         in gw_wf gw \<and> el_ok (wk_loop wk) \<and> distinct (map fst (wk_conns wk)) \<and>
            map_of (el_callbacks (wk_loop wk)) = callbacks_of L C \<and>
            outside (gw_pool gw) (gw_descs gw) = insert L F \<union> C \<and> C \<inter> insert L F = {} \<and>
            (\<forall>(fd, conn) \<in> set (wk_conns wk). 0 \<le> fd \<and> conn_ok fd conn) \<and>
            gauge gw = base + int (length (wk_conns wk))))"

lemma node_okI:
  assumes "gw_wf gw" "el_ok (wk_loop wk)" "distinct (map fst (wk_conns wk))" "dom (map_of (wk_conns wk)) = C"
    "map_of (el_callbacks (wk_loop wk)) = callbacks_of L C"
    "outside (gw_pool gw) (gw_descs gw) = insert L F \<union> C" "C \<inter> insert L F = {}"
    "\<forall>(fd, conn) \<in> set (wk_conns wk). 0 \<le> fd \<and> conn_ok fd conn"
    "gauge gw = base + int (length (wk_conns wk))"
  shows "node_ok L F base (gw, wk)"
  using assms by (simp add: node_ok_def)

lemma node_okD:
  assumes "node_ok L F base (gw, wk)"
  shows "gw_wf gw" "el_ok (wk_loop wk)" "distinct (map fst (wk_conns wk))"
    "map_of (el_callbacks (wk_loop wk)) = callbacks_of L (dom (map_of (wk_conns wk)))"
    "outside (gw_pool gw) (gw_descs gw) = insert L F \<union> dom (map_of (wk_conns wk))"
    "dom (map_of (wk_conns wk)) \<inter> insert L F = {}"
    "\<forall>(fd, conn) \<in> set (wk_conns wk). 0 \<le> fd \<and> conn_ok fd conn"
    "gauge gw = base + int (length (wk_conns wk))"
  using assms by (simp_all add: node_ok_def Let_def)

lemma node_ok_steady: "node_ok L F base (gw, wk) \<Longrightarrow> gw_steady gw gw' \<Longrightarrow> node_ok L F base (gw', wk)"
  by (simp add: node_ok_def gw_steady_def Let_def)

lemma node_ok_wire [simp]: "node_ok L F base (gw, wk\<lparr>wk_wire := w\<rparr>) = node_ok L F base (gw, wk)"
  by (simp add: node_ok_def)

lemma node_ok_conn:
  assumes "node_ok L F base (gw, wk)" and "map_of (wk_conns wk) fd = Some conn"
  shows "0 \<le> fd" "conn_ok fd conn" "fd \<in> watched (wk_loop wk)"
    "fd \<in> outside (gw_pool gw) (gw_descs gw)" "fd \<notin> insert L F"
proof -
  have m: "(fd, conn) \<in> set (wk_conns wk)" "fd \<in> dom (map_of (wk_conns wk))"
    using assms(2) by (auto dest: map_of_SomeD)
  then show "0 \<le> fd" "conn_ok fd conn" "fd \<in> outside (gw_pool gw) (gw_descs gw)" "fd \<notin> insert L F"
    using assms(1) by (auto simp: node_ok_def Let_def)
  have "map_of (el_callbacks (wk_loop wk)) fd \<noteq> None" using assms(1) m(2) by (auto simp: node_ok_def Let_def callbacks_of_def)
  then show "fd \<in> watched (wk_loop wk)" using assms(1) by (auto simp: node_ok_def Let_def el_ok_def watched_def)
qed

lemma set_conn_ok:
  assumes "node_ok L F base (gw, wk)" and "map_of (wk_conns wk) fd = Some conn0" and "conn_ok fd conn"
  shows "node_ok L F base (gw, set_conn fd conn wk)" and "map_of (wk_conns (set_conn fd conn wk)) fd = Some conn"
proof -
  have "insert fd (dom (map_of (wk_conns wk))) = dom (map_of (wk_conns wk))" using assms(2) by auto
  moreover have old: "\<forall>(f, c) \<in> set (wk_conns wk). 0 \<le> f \<and> conn_ok f c"
    using assms(1) by (simp add: node_ok_def Let_def)
  have "\<forall>(f, c) \<in> set (AList.update fd conn (wk_conns wk)). 0 \<le> f \<and> conn_ok f c"
  proof
    fix x assume "x \<in> set (AList.update fd conn (wk_conns wk))"
    then have "x = (fd, conn) \<or> x \<in> set (wk_conns wk)" by (rule set_update_subset)
    with old assms(3) node_ok_conn(1) [OF assms(1,2)] show "case x of (f, c) \<Rightarrow> 0 \<le> f \<and> conn_ok f c" by blast
  qed
  ultimately show "node_ok L F base (gw, set_conn fd conn wk)"
    using assms(1) length_update_old [OF assms(2), of conn]
    by (simp add: node_ok_def set_conn_def Let_def distinct_keys_update)
  show "map_of (wk_conns (set_conn fd conn wk)) fd = Some conn" by (simp add: set_conn_def)
qed

lemma delete_absent: "map_of m k = None \<Longrightarrow> AList.delete k m = m"
  by (simp add: map_of_eq_None_iff)

lemma length_delete_conn:
  "distinct (map fst m) \<Longrightarrow> map_of m k = Some v \<Longrightarrow> Suc (length (AList.delete k m)) = length m"
proof (induction m)
  case (Cons a m)
  show ?case
  proof (cases "fst a = k")
    case True
    with Cons.prems(1) have "AList.delete k m = m" by (intro delete_id) auto
    with True show ?thesis by (cases a) simp
  qed (use Cons in \<open>auto simp: AList.delete_eq\<close>)
qed simp

lemma closeConnection_conns:
  "wk_conns (snd (closeConnection fd s)) = AList.delete fd (wk_conns (snd s))"
  by (cases s; cases "map_of (wk_conns (snd s)) fd") (simp_all add: closeConnection_def delete_absent)

lemma closeConnection_ok:
  assumes "node_ok L F base s"
  shows "node_ok L F base (closeConnection fd s)"
proof -
  obtain gw wk where s: "s = (gw, wk)" by fastforce
  note ok = node_okD [OF assms [unfolded s]]
  show ?thesis
  proof (cases "map_of (wk_conns wk) fd")
    case (Some conn)
    note c = node_ok_conn [OF assms [unfolded s] Some]
    let ?C = "dom (map_of (wk_conns wk))"
    let ?gw = "metric connectionClosed (gw\<lparr>gw_descs := close_fd fd (gw_descs gw)\<rparr>)"
    let ?wk = "wk\<lparr>wk_loop := remove fd (wk_loop wk), wk_conns := AList.delete fd (wk_conns wk)\<rparr>"
    have pool: "pool_ok (gw_pool gw) (gw_descs gw)" using ok(1) by (simp add: gw_wf_def)
    have d: "discard fd (gw_descs gw) = close_fd fd (gw_descs gw)" using c(1) by (simp add: discard_def)
    note dis = discard_owner [OF pool c(1,4), unfolded d]
    note el = remove_ok [OF ok(2), of fd]
    have "node_ok L F base (?gw, ?wk)"
    proof (rule node_okI [where C = "?C - {fd}"])
      show "gw_wf ?gw" using ok(1) dis(1) by (simp add: gw_wf_def metric_def)
      show "map_of (el_callbacks (wk_loop ?wk)) = callbacks_of L (?C - {fd})"
        using c(5) el(3) ok(4) by (auto simp: callbacks_of_def fun_eq_iff)
      show "outside (gw_pool ?gw) (gw_descs ?gw) = insert L F \<union> (?C - {fd})"
        using dis(2) ok(5) c(5) by (auto simp: metric_def)
      show "\<forall>(fd, conn) \<in> set (wk_conns ?wk). 0 \<le> fd \<and> conn_ok fd conn"
        using ok(7) by (auto simp: AList.delete_eq)
      show "gauge ?gw = base + int (length (wk_conns ?wk))"
        using ok(8) length_delete_conn [OF ok(3) Some] by (simp add: metric_def connectionClosed_def)
    qed (use ok el in \<open>auto simp: distinct_keys_delete\<close>)
    then show ?thesis using Some by (simp add: s closeConnection_def)
  qed (use assms s in \<open>simp add: closeConnection_def\<close>)
qed

subsection \<open>Writing\<close>

text \<open>The kernel accepts at most the bytes it is offered.\<close>

fun sends_ok :: "nat \<Rightarrow> sent_result list \<Rightarrow> bool" where
  "sends_ok remaining [] \<longleftrightarrow> True"
| "sends_ok remaining (Sent n # rs) \<longleftrightarrow> n \<le> int remaining \<and> sends_ok (remaining - nat n) rs"
| "sends_ok remaining (r # rs) \<longleftrightarrow> True"

definition unsent :: "ClientConnection \<Rightarrow> string" where
  "unsent conn = drop (cc_writeOffset conn) (cc_pendingWrite conn)"

lemma flush_loop_spec:
  "sends_ok (length (unsent conn)) rs \<Longrightarrow> cc_writeOffset conn \<le> length (cc_pendingWrite conn) \<Longrightarrow>
   flush_loop conn rs = (e, conn', sent) \<Longrightarrow>
   conn' = conn\<lparr>cc_writeOffset := cc_writeOffset conn + length sent\<rparr> \<and> unsent conn = sent @ unsent conn' \<and>
   cc_writeOffset conn' \<le> length (cc_pendingWrite conn') \<and> (e = FlushedAll \<longrightarrow> unsent conn' = [])"
proof (induction rs arbitrary: conn e conn' sent)
  case Nil
  then show ?case by (auto simp: flush_loop.simps hasPendingWrite_def unsent_def split: if_splits)
next
  case (Cons r rs)
  show ?case
  proof (cases "hasPendingWrite conn \<and> (\<exists>n > 0. r = Sent n)")
    case True
    then obtain n where n: "r = Sent n" "0 < n" by blast
    let ?c = "conn\<lparr>cc_writeOffset := cc_writeOffset conn + nat n\<rparr>"
    obtain e1 c1 s1 where rec: "flush_loop ?c rs = (e1, c1, s1)" by (metis prod_cases3)
    have "n \<le> int (length (unsent conn))" using Cons.prems(1) n by simp
    then have le: "nat n \<le> length (unsent conn)" by linarith
    have drop: "unsent ?c = drop (nat n) (unsent conn)" by (simp add: unsent_def add.commute)
    have off: "cc_writeOffset ?c \<le> length (cc_pendingWrite ?c)" using le Cons.prems(2) by (simp add: unsent_def)
    have "sends_ok (length (unsent ?c)) rs" using Cons.prems(1) n by (simp add: drop)
    note IH = Cons.IH [OF this off rec]
    have out: "e = e1" "conn' = c1" "sent = take (nat n) (unsent conn) @ s1"
      using Cons.prems(3) True n rec by (auto simp: flush_loop.simps [of conn] unsent_def)
    have "c1 = conn\<lparr>cc_writeOffset := cc_writeOffset conn + length (take (nat n) (unsent conn) @ s1)\<rparr>"
      using IH [THEN conjunct1] le by (simp add: add.assoc)
    moreover have "unsent conn = (take (nat n) (unsent conn) @ s1) @ unsent c1"
      using IH drop by (metis append_assoc append_take_drop_id)
    ultimately show ?thesis unfolding out using IH by blast
  next
    case False
    with Cons.prems show ?thesis
      by (auto simp: flush_loop.simps [of conn] hasPendingWrite_def unsent_def split: if_splits sent_result.splits)
  qed
qed

lemma watch_ok:
  assumes "node_ok L F base (gw, wk)" and "map_of (wk_conns wk) fd = Some conn"
  shows "\<exists>el. watch fd evs (gw, wk) = Ran (gw, wk\<lparr>wk_loop := el\<rparr>) \<and> node_ok L F base (gw, wk\<lparr>wk_loop := el\<rparr>)"
proof -
  note ok = node_okD [OF assms(1)]
  obtain el where "modify fd evs (wk_loop wk) = Ret el" "el_ok el" "el_callbacks el = el_callbacks (wk_loop wk)"
    using modify_ok [OF ok(2) node_ok_conn(3) [OF assms]] by blast
  then show ?thesis using assms(1) by (auto simp: watch_def node_ok_def Let_def)
qed

definition sane_flush :: "fd \<Rightarrow> sent_result list \<Rightarrow> node \<Rightarrow> bool" where
  "sane_flush fd sends s =
     (case map_of (wk_conns (snd s)) fd of None \<Rightarrow> True | Some conn \<Rightarrow> sends_ok (length (unsent conn)) sends)"

lemma flush_ok:
  assumes "node_ok L F base s" and "sane_flush fd sends s"
  shows "flushIfPossible fd sends s \<noteq> Thrown" and "flushIfPossible fd sends s = Ran s' \<Longrightarrow> node_ok L F base s'"
proof -
  obtain gw wk where s: "s = (gw, wk)" by fastforce
  have "flushIfPossible fd sends s \<noteq> Thrown \<and> (\<forall>s'. flushIfPossible fd sends s = Ran s' \<longrightarrow> node_ok L F base s')"
  proof (cases "\<exists>conn. map_of (wk_conns wk) fd = Some conn \<and> hasPendingWrite conn")
    case True
    then obtain conn where c: "map_of (wk_conns wk) fd = Some conn" "hasPendingWrite conn" by blast
    obtain e conn1 sent where fl: "flush_loop conn sends = (e, conn1, sent)" by (metis prod_cases3)
    have co: "conn_ok fd conn" by (rule node_ok_conn(2) [OF assms(1) [unfolded s] c(1)])
    have "sends_ok (length (unsent conn)) sends" "cc_writeOffset conn \<le> length (cc_pendingWrite conn)"
      using assms(2) c(1) co by (simp_all add: sane_flush_def s conn_ok_def)
    note sp = flush_loop_spec [OF this fl]
    from sp [THEN conjunct1] have "cc_fd conn1 = cc_fd conn" by simp
    with sp co have spec: "conn_ok fd conn1" by (auto simp: conn_ok_def)
    let ?wk1 = "(set_conn fd conn1 wk)\<lparr>wk_wire := wk_wire wk @ [(fd, sent)]\<rparr>"
    have ok1: "node_ok L F base (gw, ?wk1)" "map_of (wk_conns ?wk1) fd = Some conn1"
      using set_conn_ok [OF assms(1) [unfolded s] c(1) spec] by simp_all
    let ?c2 = "conn1\<lparr>cc_pendingWrite := [], cc_writeOffset := 0\<rparr>"
    have "conn_ok fd ?c2" using spec by (simp add: conn_ok_def)
    note ok2 = set_conn_ok [OF ok1 this]
    have "flushIfPossible fd sends s =
      (case e of FlushWaiting \<Rightarrow> Pending | FlushBlocked \<Rightarrow> watch fd (EPOLLIN OR EPOLLOUT) (gw, ?wk1)
       | FlushBroken \<Rightarrow> Ran (closeConnection fd (gw, ?wk1))
       | FlushedAll \<Rightarrow> if cc_closeAfterWrite conn1 then Ran (closeConnection fd (gw, set_conn fd ?c2 ?wk1))
                       else watch fd EPOLLIN (gw, set_conn fd ?c2 ?wk1))"
      using c fl by (simp add: flushIfPossible_def s Let_def cong: flush_end.case_cong)
    then show ?thesis
      using watch_ok [OF ok1, of "EPOLLIN OR EPOLLOUT"] watch_ok [OF ok2, of EPOLLIN]
        closeConnection_ok [OF ok1(1), of fd] closeConnection_ok [OF ok2(1), of fd] by (cases e) (auto split: if_splits)
  qed (use assms(1) s in \<open>auto simp: flushIfPossible_def split: option.splits\<close>)
  then show "flushIfPossible fd sends s \<noteq> Thrown" "flushIfPossible fd sends s = Ran s' \<Longrightarrow> node_ok L F base s'"
    by simp_all
qed

subsection \<open>Events\<close>

lemma read_loop_ok: "read_loop conn rs = (e, conn') \<Longrightarrow> conn_ok fd conn \<Longrightarrow> conn_ok fd conn'"
  by (induction conn rs rule: read_loop.induct) (auto simp: conn_ok_def Let_def split: recv_result.splits if_splits)

lemma conn_kept_ok: "conn_kept conn conn' \<Longrightarrow> conn_ok fd conn \<Longrightarrow> conn_ok fd conn'"
  by (auto simp: conn_kept_def conn_ok_def dest: prefix_length_le)

text \<open>What the kernel promises a handler: fresh sockets, and no send accepts more than it was given.\<close>

definition read_contract :: "(real \<Rightarrow> string) \<Rightarrow> fd \<Rightarrow> client_io \<Rightarrow> node \<Rightarrow> bool" where
  "read_contract fmt fd io s =
     (case s of (gw, wk) \<Rightarrow>
        (case map_of (wk_conns wk) fd of
           None \<Rightarrow> True
         | Some conn \<Rightarrow>
             (case read_loop conn (ci_recvs io) of
                (Drained, conn) \<Rightarrow>
                  fresh_drain fmt conn (ci_requests io) gw \<and>
                  (case drain fmt conn (ci_requests io) gw of
                     None \<Rightarrow> True | Some (conn, gw) \<Rightarrow> sends_ok (length (unsent conn)) (ci_sends io))
              | _ \<Rightarrow> True)))"

definition event_contract :: "(real \<Rightarrow> string) \<Rightarrow> fd \<Rightarrow> events \<Rightarrow> client_io \<Rightarrow> node \<Rightarrow> bool" where
  "event_contract fmt fd evs io s \<longleftrightarrow>
     read_contract fmt fd io s \<and>
     (case (if has_event evs EPOLLIN then onReadable fmt fd io s else Ran s) of
        Ran s' \<Rightarrow> sane_flush fd (ci_resends io) s' | _ \<Rightarrow> True)"

lemma onReadable_ok:
  assumes "node_ok L F base s" and "read_contract fmt fd io s"
  shows "onReadable fmt fd io s \<noteq> Thrown \<and> (\<forall>s'. onReadable fmt fd io s = Ran s' \<longrightarrow> node_ok L F base s')"
proof -
  obtain gw wk where s: "s = (gw, wk)" by fastforce
  show ?thesis
  proof (cases "map_of (wk_conns wk) fd")
    case (Some conn)
    note ok = assms(1) [unfolded s]
    obtain e conn1 where rd: "read_loop conn (ci_recvs io) = (e, conn1)" by fastforce
    have co: "conn_ok fd conn1" by (rule read_loop_ok [OF rd node_ok_conn(2) [OF ok Some]])
    show ?thesis
    proof (cases "\<exists>conn2 gw2. e = Drained \<and> drain fmt conn1 (ci_requests io) gw = Some (conn2, gw2)")
      case True
      then obtain conn2 gw2 where e: "e = Drained" and d: "drain fmt conn1 (ci_requests io) gw = Some (conn2, gw2)" by blast
      have "fresh_drain fmt conn1 (ci_requests io) gw" "sends_ok (length (unsent conn2)) (ci_sends io)"
        using assms(2) Some rd e d by (simp_all add: read_contract_def s)
      note st = drain_steady [OF node_okD(1) [OF ok] this(1) d]
      have "conn_ok fd conn2" using st co conn_kept_ok by blast
      note set = set_conn_ok [OF node_ok_steady [OF ok st [THEN conjunct1]] Some this]
      have "sane_flush fd (ci_sends io) (gw2, set_conn fd conn2 wk)"
        using \<open>sends_ok _ _\<close> set(2) by (simp add: sane_flush_def)
      from flush_ok [OF set(1) this] show ?thesis using Some rd e d by (simp add: onReadable_def s)
    next
      case False
      with Some rd closeConnection_ok [OF set_conn_ok(1) [OF ok Some co], of fd] show ?thesis
        by (cases e) (auto simp: onReadable_def s split: option.splits)
    qed
  qed (use assms(1) s in \<open>auto simp: onReadable_def\<close>)
qed

lemma onEvent_ok:
  assumes "node_ok L F base s" and "event_contract fmt fd evs io s"
  shows "onEvent fmt fd evs io s \<noteq> Thrown" and "onEvent fmt fd evs io s = Ran s' \<Longrightarrow> node_ok L F base s'"
proof -
  let ?r = "if has_event evs EPOLLIN then onReadable fmt fd io s else Ran s"
  have r: "?r \<noteq> Thrown \<and> (\<forall>s1. ?r = Ran s1 \<longrightarrow> node_ok L F base s1)"
    using onReadable_ok [OF assms(1), of fmt fd io] assms by (auto simp: event_contract_def)
  have "onEvent fmt fd evs io s \<noteq> Thrown \<and> (\<forall>s'. onEvent fmt fd evs io s = Ran s' \<longrightarrow> node_ok L F base s')"
  proof (cases ?r)
    case (Ran s1)
    with r have ok1: "node_ok L F base s1" by simp
    have "sane_flush fd (ci_resends io) s1" using assms(2) Ran by (simp add: event_contract_def)
    from flush_ok [OF ok1 this] ok1 closeConnection_ok [OF assms(1), of fd] show ?thesis
      unfolding onEvent_def Ran by (auto simp: onWritable_def)
  qed (use r closeConnection_ok [OF assms(1), of fd] in \<open>auto simp: onEvent_def\<close>)
  then show "onEvent fmt fd evs io s \<noteq> Thrown" "onEvent fmt fd evs io s = Ran s' \<Longrightarrow> node_ok L F base s'" by simp_all
qed

lemma onAccept_ok:
  assumes "node_ok L F base (gw, wk)" and "0 \<le> fd" and "fd \<notin> set (gw_descs gw)"
  shows "onAccept fd ip io (gw, wk) = Throw \<longleftrightarrow> ac_refused io"
    and "onAccept fd ip io (gw, wk) = Ret s' \<Longrightarrow> node_ok L F base s'"
proof -
  note ok = node_okD [OF assms(1)]
  let ?C = "dom (map_of (wk_conns wk))" and ?conn = "ClientConnection_init fd ip (ac_now io)"
  have new: "fd \<notin> insert L F \<union> ?C" using ok(5) assms(3) by (auto simp: outside_def)
  have "map_of (el_callbacks (wk_loop wk)) fd = None" using new ok(4) by (auto simp: callbacks_of_def)
  then have "fd \<notin> watched (wk_loop wk)" using ok(2) by (auto simp: watched_def el_ok_def)
  from add_ok [OF ok(2) this, of EPOLLIN "OnClient fd"] obtain el where
    el: "add False fd EPOLLIN (OnClient fd) (wk_loop wk) = Ret el" "el_ok el"
      "map_of (el_callbacks el) = (map_of (el_callbacks (wk_loop wk)))(fd \<mapsto> OnClient fd)" by blast
  let ?gw = "metric connectionOpened (gw\<lparr>gw_descs := open_fd fd (gw_descs gw)\<rparr>)"
  let ?wk = "wk\<lparr>wk_conns := AList.update fd ?conn (wk_conns wk), wk_loop := el\<rparr>"
  have pool: "pool_ok (gw_pool gw) (gw_descs gw)" using ok(1) by (simp add: gw_wf_def)
  then have own: "fd \<notin> set (owned (gw_pool gw))" using assms(3) by (auto simp: pool_ok_def)
  have "node_ok L F base (?gw, ?wk)"
  proof (rule node_okI [where C = "insert fd ?C"])
    show "gw_wf ?gw" using ok(1) by (auto simp: gw_wf_def metric_def pool_ok_def)
    show "map_of (el_callbacks (wk_loop ?wk)) = callbacks_of L (insert fd ?C)"
      using el(3) ok(4) new by (auto simp: callbacks_of_def fun_eq_iff)
    show "outside (gw_pool ?gw) (gw_descs ?gw) = insert L F \<union> insert fd ?C"
      using ok(5) own by (auto simp: outside_def metric_def)
    show "\<forall>(f, c) \<in> set (wk_conns ?wk). 0 \<le> f \<and> conn_ok f c"
      using ok(7) assms(2) by (auto simp: conn_ok_def ClientConnection_init_def dest!: set_update_subset)
    have "map_of (wk_conns wk) fd = None" using new by auto
    then show "gauge ?gw = base + int (length (wk_conns ?wk))"
      using ok(8) by (simp add: metric_def connectionOpened_def length_update_new)
  qed (use ok el new in \<open>auto simp: distinct_keys_update\<close>)
  then show "onAccept fd ip io (gw, wk) = Ret s' \<Longrightarrow> node_ok L F base s'"
    using el(1) by (cases "ac_refused io") (auto simp: onAccept_def Let_def add_def split: outcome.splits if_splits)
  show "onAccept fd ip io (gw, wk) = Throw \<longleftrightarrow> ac_refused io"
    using el(1) by (cases "ac_refused io") (auto simp: onAccept_def Let_def add_def split: outcome.splits if_splits)
qed

lemma close_all_ok: "node_ok L F base s \<Longrightarrow> node_ok L F base (fold closeConnection fds s)"
  by (induction fds arbitrary: s) (simp_all add: closeConnection_ok)

lemma close_all_conns:
  "wk_conns (snd (fold closeConnection fds s)) = filter (\<lambda>(fd, conn). fd \<notin> set fds) (wk_conns (snd s))"
proof (induction fds arbitrary: s)
  case (Cons fd fds)
  show ?case by (simp add: Cons.IH closeConnection_conns AList.delete_eq) (auto intro: filter_cong)
qed simp

section \<open>The thread keeps its invariant\<close>

text \<open>
  Accepted descriptors are not open already. The kernel may also refuse to watch one: that is the
  only way in which a callback throws.
\<close>

fun accepts_contract :: "(accept_result \<times> accept_io) list \<Rightarrow> node \<Rightarrow> bool" where
  "accepts_contract [] s \<longleftrightarrow> True"
| "accepts_contract ((r, io) # rs) s \<longleftrightarrow>
     (case r of
        Accepted fd ip \<Rightarrow>
          0 \<le> fd \<and> fd \<notin> set (gw_descs (fst s)) \<and>
          (case onAccept fd ip io s of Ret s' \<Rightarrow> accepts_contract rs s' | Throw \<Rightarrow> True)
      | AcceptInterrupted \<Rightarrow> accepts_contract rs s
      | _ \<Rightarrow> True)"

definition refusing :: "(accept_result \<times> accept_io) list \<Rightarrow> bool" where
  "refusing rs \<longleftrightarrow> list_ex (\<lambda>(r, io). (case r of Accepted fd ip \<Rightarrow> ac_refused io | _ \<Rightarrow> False)) rs"

lemma acceptAll_ok:
  "node_ok L F base s \<Longrightarrow> accepts_contract rs s \<Longrightarrow>
   (acceptAll onAccept rs s = Thrown \<longrightarrow> refusing rs) \<and> (\<forall>s'. acceptAll onAccept rs s = Ran s' \<longrightarrow> node_ok L F base s')"
proof (induction rs arbitrary: s)
  case (Cons a rs)
  obtain r io where a: "a = (r, io)" by fastforce
  show ?case
  proof (cases r)
    case (Accepted fd ip)
    obtain gw wk where s: "s = (gw, wk)" by fastforce
    have c: "0 \<le> fd" "fd \<notin> set (gw_descs gw)" using Cons.prems(2) a Accepted s by simp_all
    note acc = onAccept_ok [OF Cons.prems(1) [unfolded s] c, of ip io]
    show ?thesis
    proof (cases "onAccept fd ip io (gw, wk)")
      case Throw
      with acc(1) a Accepted s show ?thesis by (simp add: refusing_def)
    next
      case (Ret s1)
      from Cons.IH [OF acc(2) [OF Ret]] Cons.prems(2) a Accepted s Ret show ?thesis by (auto simp: refusing_def)
    qed
  qed (use Cons a in \<open>auto simp: refusing_def\<close>)
qed simp

text \<open>The contract of the kernel, and the same without refusals.\<close>

definition kernel_contract :: "(real \<Rightarrow> string) \<Rightarrow> callback \<Rightarrow> events \<Rightarrow> event_io \<Rightarrow> node \<Rightarrow> bool" where
  "kernel_contract fmt cb evs io s =
     (case cb of
        OnListen \<Rightarrow> accepts_contract (ev_accepts io) s
      | OnClient fd \<Rightarrow> event_contract fmt fd evs (ev_client io) s)"

definition callback_contract :: "(real \<Rightarrow> string) \<Rightarrow> callback \<Rightarrow> events \<Rightarrow> event_io \<Rightarrow> node \<Rightarrow> bool" where
  "callback_contract fmt cb evs io s \<longleftrightarrow> kernel_contract fmt cb evs io s \<and> (cb = OnListen \<longrightarrow> \<not> refusing (ev_accepts io))"

lemma run_callback_kernel:
  assumes "node_ok L F base s" and "kernel_contract fmt cb evs io s"
  shows "run_callback fmt cb evs io s = Thrown \<Longrightarrow> cb = OnListen \<and> refusing (ev_accepts io)"
    and "run_callback fmt cb evs io s = Ran s' \<Longrightarrow> node_ok L F base s'"
proof -
  have "(run_callback fmt cb evs io s = Thrown \<longrightarrow> cb = OnListen \<and> refusing (ev_accepts io)) \<and>
    (\<forall>s'. run_callback fmt cb evs io s = Ran s' \<longrightarrow> node_ok L F base s')"
  proof (cases cb)
    case OnListen
    with acceptAll_ok [OF assms(1), of "ev_accepts io"] assms(2) show ?thesis
      by (simp add: run_callback_def kernel_contract_def)
  next
    case (OnClient fd)
    with onEvent_ok [OF assms(1), of fmt fd evs "ev_client io"] assms(2) show ?thesis
      by (simp add: run_callback_def kernel_contract_def)
  qed
  then show "run_callback fmt cb evs io s = Thrown \<Longrightarrow> cb = OnListen \<and> refusing (ev_accepts io)"
    "run_callback fmt cb evs io s = Ran s' \<Longrightarrow> node_ok L F base s'" by blast+
qed

lemma run_callback_ok:
  assumes "node_ok L F base s" and "callback_contract fmt cb evs io s"
  shows "run_callback fmt cb evs io s \<noteq> Thrown" and "run_callback fmt cb evs io s = Ran s' \<Longrightarrow> node_ok L F base s'"
  using run_callback_kernel [OF assms(1), of fmt cb evs io] assms(2) unfolding callback_contract_def by blast+

interpretation thread: reactor callback_of "run_callback fmt" sweepIdleConnections "node_ok L F base" "callback_contract fmt"
  for fmt L F base
proof (unfold_locales, goal_cases)
  case (1 s fd cb evs io)
  show ?case by (rule run_callback_ok(1) [OF 1(1,3)])
next
  case (2 s fd cb evs io s')
  show ?case by (rule run_callback_ok(2) [OF 2(1,3,4)])
next
  case (3 s t)
  then show ?case unfolding sweepIdleConnections_def by (rule close_all_ok)
qed

definition run_contract :: "(real \<Rightarrow> string) \<Rightarrow> (event_io wait_result \<times> time_ns) list \<Rightarrow> node \<Rightarrow> bool" where
  "run_contract fmt rounds s =
     rounds_contract callback_of (run_callback fmt) sweepIdleConnections (callback_contract fmt) rounds s"

text \<open>A worker as its constructor leaves it.\<close>

definition worker_new :: "Worker \<Rightarrow> bool" where
  "worker_new wk \<longleftrightarrow> wk_conns wk = [] \<and> el_callbacks (wk_loop wk) = [] \<and> el_interest (wk_loop wk) = []"

lemma worker_start_ok:
  assumes "gw_wf gw" and "worker_new wk" and "li_socket lio \<notin> set (gw_descs gw)"
    and "worker_start pton lio refused (gw, wk) = Ran (server, s)"
  shows "node_ok (li_socket lio) (outside (gw_pool gw) (gw_descs gw)) (gauge gw) s"
    and "ts_listenFd server = li_socket lio" and "0 \<le> li_socket lio"
proof -
  let ?L = "li_socket lio"
  have L: "0 \<le> ?L" and srv: "ts_listenFd server = ?L"
    using assms(4) by (auto simp: worker_start_def TcpServer_init_def Let_def split: if_splits outcome.splits)
  have new: "el_ok (wk_loop wk)" "?L \<notin> watched (wk_loop wk)" "wk_conns wk = []" "map_of (el_callbacks (wk_loop wk)) = Map.empty"
    using assms(2) by (simp_all add: worker_new_def el_ok_def watched_def)
  obtain el where el: "add refused ?L EPOLLIN OnListen (wk_loop wk) = Ret el"
    and s: "gw_steady (gw\<lparr>gw_descs := open_fd ?L (gw_descs gw)\<rparr>) (fst s)" "snd s = wk\<lparr>wk_loop := el\<rparr>"
    using assms(4)
    by (auto simp: worker_start_def TcpServer_init_def Let_def gw_steady_def gw_wf_def log_event_gw_def
        split: if_splits outcome.splits)
  have elok: "el_ok el" "map_of (el_callbacks el) = [?L \<mapsto> OnListen]"
    using el add_ok [OF new(1,2), of EPOLLIN OnListen] new(4) by (auto simp: add_def split: if_splits)
  have own: "?L \<notin> set (owned (gw_pool gw))" using assms(1,3) by (auto simp: gw_wf_def pool_ok_def)
  let ?gw = "gw\<lparr>gw_descs := open_fd ?L (gw_descs gw)\<rparr>"
  have "node_ok ?L (outside (gw_pool gw) (gw_descs gw)) (gauge gw) (?gw, wk\<lparr>wk_loop := el\<rparr>)"
  proof (rule node_okI [where C = "{}"])
    show "gw_wf ?gw" using assms(1) by (auto simp: gw_wf_def pool_ok_def)
    show "outside (gw_pool ?gw) (gw_descs ?gw) = insert ?L (outside (gw_pool gw) (gw_descs gw)) \<union> {}"
      using own by (auto simp: outside_def)
  qed (use elok new in \<open>auto simp: callbacks_of_def fun_eq_iff\<close>)
  from node_ok_steady [OF this s(1)] s(2) show "node_ok ?L (outside (gw_pool gw) (gw_descs gw)) (gauge gw) s"
    by (metis prod.collapse)
  show "ts_listenFd server = ?L" "0 \<le> ?L" by (fact srv L)+
qed

lemma worker_shutdown_ok:
  assumes "node_ok L F base s"
  shows "node_ok L F base (worker_shutdown s)" and "wk_conns (snd (worker_shutdown s)) = []"
  using close_all_ok [OF assms] unfolding worker_shutdown_def
  by (auto simp: close_all_conns filter_empty_conv image_iff)

end
