(* ===== verification/Serving.thy ===== *)
theory Serving
  imports Worker
begin

text \<open>
  The properties of writing, of the idle sweep and of the whole life of a worker thread, over the
  definitions of \<open>Worker\<close>. What a worker answers is the subject of \<open>Requests\<close>.
\<close>

section \<open>The life of a worker\<close>

lemma worker_run_steps:
  assumes "worker_run fmt pton lio refused rounds s = Ran (gw', wk')"
  obtains server s1 s2 where "worker_start pton lio refused s = Ran (server, s1)" "worker_rounds fmt rounds s1 = Ran s2"
    "wk' = snd (worker_shutdown s2)"
    "gw' = (fst (worker_shutdown s2))\<lparr>gw_descs := TcpServer_close server (gw_descs (fst (worker_shutdown s2)))\<rparr>"
proof -
  obtain server s1 s2 where st: "worker_start pton lio refused s = Ran (server, s1)" "worker_rounds fmt rounds s1 = Ran s2"
    and fin: "(case worker_shutdown s2 of (gw, wk) \<Rightarrow> Ran (gw\<lparr>gw_descs := TcpServer_close server (gw_descs gw)\<rparr>, wk)) = Ran (gw', wk')"
    using assms by (auto simp: worker_run_def bind_run_Ran)
  from fin have "wk' = snd (worker_shutdown s2)"
    "gw' = (fst (worker_shutdown s2))\<lparr>gw_descs := TcpServer_close server (gw_descs (fst (worker_shutdown s2)))\<rparr>"
    by (auto split: prod.splits)
  with st that show ?thesis by blast
qed

lemma close_listener:
  assumes "node_ok L F base (gw, wk)" and "wk_conns wk = []" and "L \<notin> F" and "0 \<le> L" and "ts_listenFd server = L"
  shows "outside (gw_pool gw) (TcpServer_close server (gw_descs gw)) = F"
    and "gw_wf (gw\<lparr>gw_descs := TcpServer_close server (gw_descs gw)\<rparr>)"
proof -
  note ok = node_okD [OF assms(1)]
  have out: "outside (gw_pool gw) (gw_descs gw) = insert L F" using ok(5) assms(2) by simp
  have pool: "pool_ok (gw_pool gw) (gw_descs gw)" using ok(1) by (simp add: gw_wf_def)
  have "L \<in> outside (gw_pool gw) (gw_descs gw)" using out by simp
  note dis = discard_owner [OF pool assms(4) this]
  have d: "TcpServer_close server (gw_descs gw) = discard L (gw_descs gw)"
    using assms(4,5) by (simp add: TcpServer_close_def discard_def)
  show "outside (gw_pool gw) (TcpServer_close server (gw_descs gw)) = F"
    unfolding d dis(2) out using assms(3) by blast
  show "gw_wf (gw\<lparr>gw_descs := TcpServer_close server (gw_descs gw)\<rparr>)"
    unfolding d using ok(1) dis(1) by (simp add: gw_wf_def)
qed

definition start_contract ::
  "(real \<Rightarrow> string) \<Rightarrow> (string \<Rightarrow> 32 word option) \<Rightarrow> listen_io \<Rightarrow> bool \<Rightarrow>
   (event_io wait_result \<times> time_ns) list \<Rightarrow> node \<Rightarrow> bool" where
  "start_contract fmt pton lio refused rounds s =
     (case worker_start pton lio refused s of Ran (server, s1) \<Rightarrow> run_contract fmt rounds s1 | _ \<Rightarrow> True)"

subsection \<open>A sample worker\<close>

definition sample_wk :: Worker where
  "sample_wk = \<lparr>wk_id = 0, wk_loop = \<lparr>el_epollFd = 4, el_callbacks = [], el_interest = []\<rparr>, wk_conns = [], wk_wire = []\<rparr>"

definition no_fmt :: "real \<Rightarrow> string" where "no_fmt x = []"

definition no_pton :: "string \<Rightarrow> 32 word option" where "no_pton h = None"

definition sample_listen :: listen_io where
  "sample_listen = \<lparr>li_socket = 3, li_bind = 0, li_listen = 0\<rparr>"

definition quiet :: client_io where
  "quiet = \<lparr>ci_recvs = [], ci_requests = [], ci_sends = [], ci_resends = []\<rparr>"

definition plain_io :: request_io where
  "plain_io = \<lparr>hq_draw = 1, hq_start = 0, hq_uptimeAt = 0, hq_limitAt = 1, hq_cacheAt = 0, hq_attempts = [],
     hq_putAt = 0, hq_end = 0\<rparr>"

definition sample_accepts :: "(accept_result \<times> accept_io) list" where
  "sample_accepts =
     [(Accepted 5 ''10.0.0.1'', \<lparr>ac_now = 1, ac_refused = False\<rparr>), (AcceptInterrupted, \<lparr>ac_now = 1, ac_refused = False\<rparr>),
      (Accepted 6 ''10.0.0.2'', \<lparr>ac_now = 1, ac_refused = False\<rparr>), (AcceptAgain, \<lparr>ac_now = 1, ac_refused = False\<rparr>)]"

definition sample_rounds :: "(event_io wait_result \<times> time_ns) list" where
  "sample_rounds =
     [(Events [(3, EPOLLIN, \<lparr>ev_accepts = sample_accepts, ev_client = quiet\<rparr>)], 2),
      (Events [(5, EPOLLIN, \<lparr>ev_accepts = [],
          ev_client = quiet\<lparr>ci_recvs := [(Data (''GET /gateway/health HTTP/1.1'' @ CRLF @ CRLF), 3)],
            ci_requests := [plain_io], ci_sends := [Sent 10, WouldBlock]\<rparr>\<rparr>),
        (6, EPOLLIN, \<lparr>ev_accepts = [], ev_client = quiet\<lparr>ci_recvs := [(PeerClosed, 3)]\<rparr>\<rparr>)], 4)]"

lemma sample_start: "worker_new sample_wk" "li_socket sample_listen \<notin> set (gw_descs sample_gw)"
  by (simp_all add: worker_new_def sample_wk_def sample_sizes)

text \<open>The worker after the two clients connected.\<close>

definition sample_node :: node where
  "sample_node =
     (case worker_start no_pton sample_listen False (sample_gw, sample_wk) of
        Ran (server, s) \<Rightarrow> (case acceptAll onAccept sample_accepts s of Ran s' \<Rightarrow> s' | _ \<Rightarrow> s)
      | _ \<Rightarrow> (sample_gw, sample_wk))"

lemma sample_node_ok: "node_ok 3 {} 0 sample_node"
proof -
  let ?st = "worker_start no_pton sample_listen False (sample_gw, sample_wk)"
  have "case ?st of Ran (server, s) \<Rightarrow> accepts_contract sample_accepts s \<and>
      (case acceptAll onAccept sample_accepts s of Ran s' \<Rightarrow> True | _ \<Rightarrow> False) | _ \<Rightarrow> False" by code_simp
  then obtain server s where st: "?st = Ran (server, s)" and c: "accepts_contract sample_accepts s"
    and r: "case acceptAll onAccept sample_accepts s of Ran s' \<Rightarrow> True | _ \<Rightarrow> False"
    by (cases ?st) auto
  from r obtain s' where a: "acceptAll onAccept sample_accepts s = Ran s'"
    by (cases "acceptAll onAccept sample_accepts s") auto
  have "gauge sample_gw = 0" by code_simp
  then have "node_ok 3 {} 0 s"
    using worker_start_ok(1) [OF sample_wf(1) sample_start st] by (simp add: sample_sizes outside_def sample_listen_def)
  with acceptAll_ok [OF _ c] a have "node_ok 3 {} 0 s'" by blast
  then show ?thesis by (simp add: sample_node_def st a)
qed

definition sample_conn :: ClientConnection where
  "sample_conn = (ClientConnection_init 5 ''10.0.0.1'' 1)\<lparr>cc_pendingWrite := ''hello''\<rparr>"

definition sample_writing :: Worker where
  "sample_writing = set_conn 5 sample_conn (snd sample_node)"

lemma sample_writing_ok: "node_ok 3 {} 0 (fst sample_node, sample_writing)" "map_of (wk_conns sample_writing) 5 = Some sample_conn"
proof -
  have "map_of (wk_conns (snd sample_node)) 5 \<noteq> None" by code_simp
  then obtain c where c: "map_of (wk_conns (snd sample_node)) 5 = Some c" by blast
  have "conn_ok 5 sample_conn" by code_simp
  from set_conn_ok [OF _ c this, of 3 "{}" 0 "fst sample_node"] sample_node_ok
  show "node_ok 3 {} 0 (fst sample_node, sample_writing)" "map_of (wk_conns sample_writing) 5 = Some sample_conn"
    by (simp_all add: sample_writing_def)
qed

lemma map_of_filter_keep: "map_of (filter (\<lambda>(k, v). P k) xs) k = (if P k then map_of xs k else None)"
  by (induction xs) auto

section \<open>Properties\<close>

text \<open>
  C9: A worker leaks nothing over its whole life: whatever arrives in whatever order, when its loop
  ends no client connection is left, every descriptor it opened outside the pool is closed and none
  of anybody else is, the gauge of active connections is back where it was, and the shared gateway
  is well formed.
\<close>

theorem worker_no_leak:
  assumes "gw_wf gw" and "worker_new wk" and "li_socket lio \<notin> set (gw_descs gw)"
    and "start_contract fmt pton lio refused rounds (gw, wk)"
    and "worker_run fmt pton lio refused rounds (gw, wk) = Ran (gw', wk')"
  shows "wk_conns wk' = [] \<and> outside (gw_pool gw') (gw_descs gw') = outside (gw_pool gw) (gw_descs gw) \<and>
    gauge gw' = gauge gw \<and> gw_wf gw'"
proof (rule worker_run_steps [OF assms(5)])
  fix server s1 s2
  assume st: "worker_start pton lio refused (gw, wk) = Ran (server, s1)" and rd: "worker_rounds fmt rounds s1 = Ran s2"
    and wk': "wk' = snd (worker_shutdown s2)"
    and gw': "gw' = (fst (worker_shutdown s2))\<lparr>gw_descs := TcpServer_close server (gw_descs (fst (worker_shutdown s2)))\<rparr>"
  let ?F = "outside (gw_pool gw) (gw_descs gw)" and ?L = "li_socket lio"
  note s1 = worker_start_ok [OF assms(1-3) st]
  have "run_contract fmt rounds s1" using assms(4) st by (simp add: start_contract_def)
  from thread.rounds_keep [OF s1(1) this [unfolded run_contract_def]] rd
  have s2: "node_ok ?L ?F (gauge gw) s2" unfolding worker_rounds_def by blast
  obtain gw3 wk3 where s3: "worker_shutdown s2 = (gw3, wk3)" by fastforce
  note ok3 = worker_shutdown_ok [OF s2, unfolded s3]
  have "?L \<notin> ?F" using assms(3) by (simp add: outside_def)
  note cl = close_listener [OF ok3(1) _ this s1(3,2)]
  show ?thesis using cl ok3(2) node_okD(8) [OF ok3(1)] by (simp add: wk' gw' s3)
qed

theorem worker_no_leak_witness:
  "\<exists>gw' wk'. worker_run no_fmt no_pton sample_listen False sample_rounds (sample_gw, sample_wk) = Ran (gw', wk') \<and>
     wk_conns wk' = [] \<and> outside (gw_pool gw') (gw_descs gw') = outside (gw_pool sample_gw) (gw_descs sample_gw) \<and>
     gauge gw' = gauge sample_gw \<and> gw_wf gw'"
proof -
  let ?run = "worker_run no_fmt no_pton sample_listen False sample_rounds (sample_gw, sample_wk)"
  have c: "start_contract no_fmt no_pton sample_listen False sample_rounds (sample_gw, sample_wk)" by code_simp
  have "case ?run of Ran s \<Rightarrow> True | _ \<Rightarrow> False" by code_simp
  then obtain gw' wk' where r: "?run = Ran (gw', wk')" by (cases ?run) auto
  from worker_no_leak [OF sample_wf(1) sample_start c r] r show ?thesis by blast
qed

text \<open>
  A worker that could bind its socket is never brought down by an exception, as long as the
  kernel does not refuse to watch a descriptor: no handler modifies a descriptor that is not
  watched or registers one twice, in any order of events.
\<close>

theorem worker_never_throws:
  assumes "gw_wf gw" and "worker_new wk" and "li_socket lio \<notin> set (gw_descs gw)"
    and "0 \<le> li_socket lio" and "0 \<le> li_bind lio" and "0 \<le> li_listen lio"
    and "start_contract fmt pton lio False rounds (gw, wk)"
  shows "worker_run fmt pton lio False rounds (gw, wk) \<noteq> Thrown"
proof -
  obtain server s1 where st: "worker_start pton lio False (gw, wk) = Ran (server, s1)"
    using assms(2,4-6) by (auto simp: worker_start_def TcpServer_init_def Let_def add_def worker_new_def)
  note s1 = worker_start_ok [OF assms(1-3) st]
  have "run_contract fmt rounds s1" using assms(7) st by (simp add: start_contract_def)
  then have "worker_rounds fmt rounds s1 \<noteq> Thrown"
    using thread.rounds_keep [OF s1(1)] by (simp add: run_contract_def worker_rounds_def)
  then show ?thesis unfolding worker_run_def st
    by (cases "worker_rounds fmt rounds s1") (auto split: prod.split)
qed

theorem worker_never_throws_witness:
  "worker_run no_fmt no_pton sample_listen False sample_rounds (sample_gw, sample_wk) \<noteq> Thrown"
proof (rule worker_never_throws [OF sample_wf(1) sample_start])
  show "start_contract no_fmt no_pton sample_listen False sample_rounds (sample_gw, sample_wk)" by code_simp
qed (simp_all add: sample_listen_def)

text \<open>
  C20: Writing neither loses, repeats nor reorders bytes, and never forgets to come back: the bytes
  handed to the kernel are the next bytes of the pending responses, what is not yet written stays
  pending in order, and a connection that still has pending bytes and was not closed is watched
  for writability.
\<close>

theorem flush_keeps_stream:
  assumes "node_ok L F base (gw, wk)" and "map_of (wk_conns wk) fd = Some conn" and "hasPendingWrite conn"
    and "sends_ok (length (unsent conn)) sends"
    and "flushIfPossible fd sends (gw, wk) = Ran (gw', wk')"
  shows "\<exists>sent rest. wk_wire wk' = wk_wire wk @ [(fd, sent)] \<and> unsent conn = sent @ rest \<and>
    (case map_of (wk_conns wk') fd of
       None \<Rightarrow> True
     | Some conn' \<Rightarrow> unsent conn' = rest \<and>
         (rest = [] \<or> map_of (el_interest (wk_loop wk')) fd = Some (EPOLLIN OR EPOLLOUT)))"
proof -
  obtain e conn1 sent where fl: "flush_loop conn sends = (e, conn1, sent)" by (metis prod_cases3)
  have "cc_writeOffset conn \<le> length (cc_pendingWrite conn)"
    using node_ok_conn(2) [OF assms(1,2)] by (simp add: conn_ok_def)
  note spec = flush_loop_spec [OF assms(4) this fl]
  let ?wk1 = "(set_conn fd conn1 wk)\<lparr>wk_wire := wk_wire wk @ [(fd, sent)]\<rparr>"
  let ?wk2 = "set_conn fd (conn1\<lparr>cc_pendingWrite := [], cc_writeOffset := 0\<rparr>) ?wk1"
  have closed: "wk_wire wk' = wk_wire wk @ [(fd, sent)] \<and> map_of (wk_conns wk') fd = None"
    if "(gw', wk') = closeConnection fd (gw, w)" "wk_wire w = wk_wire wk @ [(fd, sent)]" "map_of (wk_conns w) fd \<noteq> None" for w
    using that by (auto simp: closeConnection_def)
  have watch: "wk_wire wk' = wk_wire w \<and> wk_conns wk' = wk_conns w \<and> map_of (el_interest (wk_loop wk')) fd = Some evs"
    if "watch fd evs (gw, w) = Ran (gw', wk')" for w evs
    using that by (auto simp: watch_def modify_def split: outcome.splits if_splits)
  have r: "(case e of FlushWaiting \<Rightarrow> Pending | FlushBlocked \<Rightarrow> watch fd (EPOLLIN OR EPOLLOUT) (gw, ?wk1)
       | FlushBroken \<Rightarrow> Ran (closeConnection fd (gw, ?wk1))
       | FlushedAll \<Rightarrow> if cc_closeAfterWrite conn1 then Ran (closeConnection fd (gw, ?wk2))
                       else watch fd EPOLLIN (gw, ?wk2)) = Ran (gw', wk')"
    using assms(2,3,5) fl by (simp add: flushIfPossible_def Let_def cong: flush_end.case_cong)
  have "wk_wire wk' = wk_wire wk @ [(fd, sent)] \<and>
    (case map_of (wk_conns wk') fd of None \<Rightarrow> True
     | Some c \<Rightarrow> unsent c = unsent conn1 \<and> (unsent conn1 = [] \<or> map_of (el_interest (wk_loop wk')) fd = Some (EPOLLIN OR EPOLLOUT)))"
  proof (cases e)
    case FlushedAll
    then have "unsent conn1 = []" using spec by blast
    moreover have "unsent (conn1\<lparr>cc_pendingWrite := [], cc_writeOffset := 0\<rparr>) = []" by (simp add: unsent_def)
    ultimately show ?thesis
      using r FlushedAll closed [of ?wk2] watch [of EPOLLIN ?wk2] by (auto simp: set_conn_def split: if_splits)
  next
    case FlushBlocked
    then show ?thesis using r watch [of "EPOLLIN OR EPOLLOUT" ?wk1] by (auto simp: set_conn_def)
  next
    case FlushBroken
    then show ?thesis using r closed [of ?wk1] by (auto simp: set_conn_def)
  qed (use r in simp)
  with spec show ?thesis by (intro exI [of _ sent] exI [of _ "unsent conn1"]) simp
qed

theorem flush_keeps_stream_witness:
  "\<exists>gw' wk' sent rest. flushIfPossible 5 [Sent 2, WouldBlock] (fst sample_node, sample_writing) = Ran (gw', wk') \<and>
     wk_wire wk' = wk_wire sample_writing @ [(5, sent)] \<and> unsent sample_conn = sent @ rest \<and>
     (case map_of (wk_conns wk') 5 of
        None \<Rightarrow> True
      | Some conn' \<Rightarrow> unsent conn' = rest \<and>
          (rest = [] \<or> map_of (el_interest (wk_loop wk')) 5 = Some (EPOLLIN OR EPOLLOUT)))"
proof -
  let ?f = "flushIfPossible 5 [Sent 2, WouldBlock] (fst sample_node, sample_writing)"
  have "case ?f of Ran s \<Rightarrow> True | _ \<Rightarrow> False" by code_simp
  then obtain gw' wk' where f: "?f = Ran (gw', wk')" by (cases ?f) auto
  have "hasPendingWrite sample_conn" "sends_ok (length (unsent sample_conn)) [Sent 2, WouldBlock]" by code_simp+
  from flush_keeps_stream [OF sample_writing_ok this f] f show ?thesis by blast
qed

text \<open>
  C28: The sweep after every round closes exactly the connections that have sent nothing for more
  than 60 seconds and have nothing left to be written: each of them loses its descriptor, its
  callback and its place in the gauge, every other connection is untouched. A client that does not
  read its response is never swept.
\<close>

theorem idle_sweep:
  assumes "node_ok L F base (gw, wk)" and "sweepIdleConnections now (gw, wk) = (gw', wk')"
  shows "map_of (wk_conns wk') =
      (\<lambda>fd. case map_of (wk_conns wk) fd of
         None \<Rightarrow> None
       | Some conn \<Rightarrow> if hasPendingWrite conn \<or> now - cc_lastActivity conn \<le> kIdleTimeout then Some conn else None) \<and>
    outside (gw_pool gw') (gw_descs gw') =
      outside (gw_pool gw) (gw_descs gw) - (dom (map_of (wk_conns wk)) - dom (map_of (wk_conns wk'))) \<and>
    dom (map_of (el_callbacks (wk_loop wk'))) = insert L (dom (map_of (wk_conns wk'))) \<and>
    gauge gw' = gauge gw - int (card (dom (map_of (wk_conns wk)) - dom (map_of (wk_conns wk'))))"
proof -
  let ?C = "dom (map_of (wk_conns wk))" and ?C' = "dom (map_of (wk_conns wk'))"
  have s': "(gw', wk') = fold closeConnection (idle_fds now wk) (gw, wk)"
    using assms(2) by (simp add: sweepIdleConnections_def)
  then have ok': "node_ok L F base (gw', wk')" using close_all_ok [OF assms(1)] by simp
  note ok = node_okD [OF assms(1)] and ok' = node_okD [OF ok']
  have conns: "wk_conns wk' = filter (\<lambda>(fd, conn). fd \<notin> set (idle_fds now wk)) (wk_conns wk)"
    using close_all_conns [of "idle_fds now wk" "(gw, wk)"] arg_cong [OF s', of snd] by simp
  have idle: "fd \<in> set (idle_fds now wk) \<longleftrightarrow> \<not> hasPendingWrite conn \<and> now - cc_lastActivity conn > kIdleTimeout"
    if "map_of (wk_conns wk) fd = Some conn" for fd conn
    using map_of_SomeD [OF that] eq_key_imp_eq_value [OF ok(3)] by (auto simp: idle_fds_def image_iff)
  have m: "map_of (wk_conns wk') fd = (case map_of (wk_conns wk) fd of None \<Rightarrow> None
       | Some conn \<Rightarrow> if hasPendingWrite conn \<or> now - cc_lastActivity conn \<le> kIdleTimeout then Some conn else None)" for fd
  proof (cases "map_of (wk_conns wk) fd")
    case (Some conn)
    then show ?thesis
      using idle [OF Some] map_of_filter_keep [of "\<lambda>fd. fd \<notin> set (idle_fds now wk)" "wk_conns wk" fd] by (auto simp: conns)
  qed (use map_of_filter_keep [of "\<lambda>fd. fd \<notin> set (idle_fds now wk)" "wk_conns wk" fd] in \<open>auto simp: conns\<close>)
  then have sub: "?C' \<subseteq> ?C" by (auto split: option.splits)
  have "length (wk_conns wk) = card ?C" "length (wk_conns wk') = card ?C'"
    using distinct_card [OF ok(3)] distinct_card [OF ok'(3)] by (simp_all add: dom_map_of_conv_image_fst)
  moreover have "card (?C - ?C') = card ?C - card ?C'" "card ?C' \<le> card ?C"
    using sub by (simp_all add: card_Diff_subset card_mono finite_dom_map_of finite_subset)
  ultimately have "gauge gw' = gauge gw - int (card (?C - ?C'))" using ok(8) ok'(8) by simp
  moreover have "outside (gw_pool gw') (gw_descs gw') = outside (gw_pool gw) (gw_descs gw) - (?C - ?C')"
    unfolding ok(5) ok'(5) using sub ok(6) by auto
  moreover have "dom (map_of (el_callbacks (wk_loop wk'))) = insert L ?C'"
    unfolding ok'(4) by (auto simp: callbacks_of_def split: if_splits)
  ultimately show ?thesis using m by blast
qed

theorem idle_sweep_witness:
  "\<exists>gw' wk'. sweepIdleConnections 100000000000 (fst sample_node, sample_writing) = (gw', wk') \<and>
     map_of (wk_conns wk') 5 = Some sample_conn \<and> map_of (wk_conns wk') 6 = None \<and>
     outside (gw_pool gw') (gw_descs gw') = outside (gw_pool (fst sample_node)) (gw_descs (fst sample_node)) -
       (dom (map_of (wk_conns sample_writing)) - dom (map_of (wk_conns wk')))"
proof -
  obtain gw' wk' where s: "sweepIdleConnections 100000000000 (fst sample_node, sample_writing) = (gw', wk')" by fastforce
  have "hasPendingWrite sample_conn" by code_simp
  moreover have "case map_of (wk_conns sample_writing) 6 of
      Some conn \<Rightarrow> \<not> hasPendingWrite conn \<and> \<not> 100000000000 - cc_lastActivity conn \<le> kIdleTimeout | None \<Rightarrow> False"
    by code_simp
  ultimately show ?thesis
    using idle_sweep [OF sample_writing_ok(1) s] s sample_writing_ok(2) by (auto split: option.splits)
qed

end
