(* ===== verification/Requests.thy ===== *)
theory Requests
  imports Serving
begin

text \<open>
  What clients observe of the request handling of a worker: pipelined requests are answered one
  by one and in order, the checks in front of a backend, and the response cache.
\<close>

section \<open>Pipelining\<close>

text \<open>The requests a parser holds up to the first that ends the connection, and whether bad bytes follow.\<close>

inductive pipelined :: "HttpParser \<Rightarrow> HttpRequest list \<Rightarrow> bool \<Rightarrow> bool" where
  no_more: "parse p HttpRequest_init = (Incomplete, p', req) \<Longrightarrow> pipelined p [] False"
| malformed: "parse p HttpRequest_init = (Error, p', req) \<Longrightarrow> pipelined p [] True"
| next_request: "parse p HttpRequest_init = (Complete, p', req) \<Longrightarrow> rq_keepAlive req \<Longrightarrow>
    pipelined p' reqs bad \<Longrightarrow> pipelined p (req # reqs) bad"
| last_request: "parse p HttpRequest_init = (Complete, p', req) \<Longrightarrow> \<not> rq_keepAlive req \<Longrightarrow> pipelined p [req] False"

inductive_cases pipelinedE: "pipelined p reqs bad"

lemma pipelined_det: "pipelined p reqs bad \<Longrightarrow> pipelined p reqs' bad' \<Longrightarrow> reqs' = reqs \<and> bad' = bad"
proof (induction arbitrary: reqs' rule: pipelined.induct)
  case (next_request p p' req reqs bad)
  from next_request.prems show ?case by (rule pipelinedE) (use next_request.hyps next_request.IH in auto)
qed (erule pipelinedE; simp)+

definition responds :: "(real \<Rightarrow> string) \<Rightarrow> string \<Rightarrow> HttpRequest \<Rightarrow> HttpResponse \<Rightarrow> bool" where
  "responds fmt ip req resp \<longleftrightarrow>
     (\<exists>conn rid io gw conn' gw'. cc_clientIp conn = ip \<and>
        handleRequest fmt conn (req\<lparr>rq_requestId := rid\<rparr>) io gw = Some (conn', gw') \<and>
        cc_pendingWrite conn' = cc_pendingWrite conn @ serialize resp (rq_keepAlive req))"

definition responses :: "HttpRequest list \<Rightarrow> HttpResponse list \<Rightarrow> string" where
  "responses reqs resps = concat (map2 (\<lambda>req resp. serialize resp (rq_keepAlive req)) reqs resps)"

definition bad_request :: HttpResponse where
  "bad_request = HttpMessage.make 400 ''Bad Request'' ''malformed request''"

lemma answer_conn:
  "answer conn req io resp gw =
     (conn\<lparr>cc_pendingWrite := cc_pendingWrite conn @ serialize resp (rq_keepAlive req), cc_closeAfterWrite := \<not> rq_keepAlive req\<rparr>,
      metric (recordResponse (rs_statusCode resp)) (recordLatency (hq_start io) (hq_end io) gw))"
  by (simp add: answer_def queueResponse_def)

lemma handleRequest_one_response:
  assumes "handleRequest fmt conn req io gw = Some (conn', gw')"
  shows "\<exists>resp. conn' = conn\<lparr>cc_pendingWrite := cc_pendingWrite conn @ serialize resp (rq_keepAlive req),
    cc_closeAfterWrite := \<not> rq_keepAlive req\<rparr>"
  using assms
  by (auto simp: handleRequest_def forwardRequest_def answer_conn split: option.splits decision.splits prod.splits)

text \<open>What the loop over the buffered requests has queued when it ends.\<close>

definition drained :: "(real \<Rightarrow> string) \<Rightarrow> ClientConnection \<Rightarrow> ClientConnection \<Rightarrow> bool" where
  "drained fmt conn conn' \<longleftrightarrow>
     (\<exists>reqs bad resps. pipelined (cc_parser conn) reqs bad \<and>
        list_all2 (responds fmt (cc_clientIp conn)) reqs resps \<and>
        cc_pendingWrite conn' =
          cc_pendingWrite conn @ responses reqs resps @ (if bad then serialize bad_request False else []) \<and>
        (cc_closeAfterWrite conn' \<longleftrightarrow>
           bad \<or> (if reqs = [] then cc_closeAfterWrite conn else \<not> rq_keepAlive (last reqs))))"

lemma drained_one:
  assumes "parse (cc_parser conn) HttpRequest_init = (Complete, p, req)"
    and "responds fmt (cc_clientIp conn) req resp"
    and conn1: "conn1 = conn\<lparr>cc_parser := p,
      cc_pendingWrite := cc_pendingWrite conn @ serialize resp (rq_keepAlive req), cc_closeAfterWrite := \<not> rq_keepAlive req\<rparr>"
  shows "\<not> rq_keepAlive req \<Longrightarrow> drained fmt conn conn1"
    and "rq_keepAlive req \<Longrightarrow> drained fmt conn1 conn' \<Longrightarrow> drained fmt conn conn'"
proof -
  show "drained fmt conn conn1" if "\<not> rq_keepAlive req"
    unfolding drained_def using last_request [OF assms(1) that] that assms(2)
    by (intro exI [of _ "[req]"] exI [of _ False] exI [of _ "[resp]"]) (simp add: conn1 responses_def)
  assume k: "rq_keepAlive req" and "drained fmt conn1 conn'"
  then obtain reqs bad resps where r: "pipelined (cc_parser conn1) reqs bad" "list_all2 (responds fmt (cc_clientIp conn1)) reqs resps"
    "cc_pendingWrite conn' = cc_pendingWrite conn1 @ responses reqs resps @ (if bad then serialize bad_request False else [])"
    "cc_closeAfterWrite conn' \<longleftrightarrow> bad \<or> (if reqs = [] then cc_closeAfterWrite conn1 else \<not> rq_keepAlive (last reqs))"
    unfolding drained_def by blast
  then have "pipelined p reqs bad" by (simp add: conn1)
  note next_request [OF assms(1) k this]
  with r(2-4) k assms(2) show "drained fmt conn conn'"
    unfolding drained_def
    by (intro exI [of _ "req # reqs"] exI [of _ bad] exI [of _ "resp # resps"]) (simp add: conn1 responses_def)
qed

lemma drained_none:
  "parse (cc_parser conn) HttpRequest_init = (Incomplete, p, req) \<Longrightarrow> drained fmt conn (conn\<lparr>cc_parser := p\<rparr>)"
  "parse (cc_parser conn) HttpRequest_init = (Error, p, req) \<Longrightarrow>
   drained fmt conn (fst (queueResponse (conn\<lparr>cc_parser := p\<rparr>) bad_request True gw))"
proof -
  show "drained fmt conn (conn\<lparr>cc_parser := p\<rparr>)" if "parse (cc_parser conn) HttpRequest_init = (Incomplete, p, req)"
    unfolding drained_def using no_more [OF that]
    by (intro exI [of _ "[]"] exI [of _ False]) (simp add: responses_def)
  show "drained fmt conn (fst (queueResponse (conn\<lparr>cc_parser := p\<rparr>) bad_request True gw))"
    if "parse (cc_parser conn) HttpRequest_init = (Error, p, req)"
    unfolding drained_def using malformed [OF that]
    by (intro exI [of _ "[]"] exI [of _ True]) (simp add: responses_def queueResponse_def)
qed

lemma drain_drained:
  "drain fmt conn ios gw = Some (conn', gw') \<Longrightarrow> drained fmt conn conn'"
proof (induction ios arbitrary: conn gw)
  case (Cons io ios)
  obtain st p req where parse: "parse (cc_parser conn) HttpRequest_init = (st, p, req)" by (metis prod_cases3)
  show ?case
  proof (cases st)
    case Complete
    obtain rid n where id: "next_id (gw_nextId gw) (hq_draw io) = (rid, n)" by fastforce
    note parse = parse [unfolded Complete] and un = drain_unfold(4) [OF parse [unfolded Complete] id]
    obtain conn1 gw1 where
      h: "handleRequest fmt (conn\<lparr>cc_parser := p\<rparr>) (req\<lparr>rq_requestId := rid\<rparr>) io (gw\<lparr>gw_nextId := n\<rparr>) = Some (conn1, gw1)"
      using Cons.prems by (auto simp: un split: option.splits)
    obtain resp where conn1: "conn1 = conn\<lparr>cc_parser := p,
      cc_pendingWrite := cc_pendingWrite conn @ serialize resp (rq_keepAlive req), cc_closeAfterWrite := \<not> rq_keepAlive req\<rparr>"
      using handleRequest_one_response [OF h] by auto
    have "responds fmt (cc_clientIp conn) req resp"
      unfolding responds_def using h conn1 by (intro exI [of _ "conn\<lparr>cc_parser := p\<rparr>"] exI) auto
    note step = drained_one [OF parse this conn1]
    show ?thesis
    proof (cases "rq_keepAlive req")
      case True
      with Cons.prems h conn1 have "drain fmt conn1 ios gw1 = Some (conn', gw')" by (simp add: un)
      with Cons.IH step(2) True show ?thesis by blast
    next
      case False
      with Cons.prems h conn1 step(1) show ?thesis by (simp add: un)
    qed
  next
    case Incomplete
    with Cons.prems parse drained_none(1) [of conn p req fmt] show ?thesis by (simp add: drain_unfold)
  next
    case Error
    with Cons.prems parse drained_none(2) [of conn p req fmt gw] show ?thesis
      by (simp add: drain_unfold flip: bad_request_def)
  qed
next
  case Nil
  obtain st p req where parse: "parse (cc_parser conn) HttpRequest_init = (st, p, req)" by (metis prod_cases3)
  show ?case
  proof (cases st)
    case Incomplete
    with Nil parse drained_none(1) [of conn p req fmt] show ?thesis by (simp add: drain_unfold)
  next
    case Error
    with Nil parse drained_none(2) [of conn p req fmt gw] show ?thesis
      by (simp add: drain_unfold flip: bad_request_def)
  next
    case Complete
    with Nil parse show ?thesis by (simp add: drain_unfold)
  qed
qed

section \<open>The response cache\<close>

text \<open>
  A visit is a request handled on a connection: the connection before, the request, what the
  outside answered, the connection after. A history is a sequence of visits starting with an empty
  cache; between two of them everything but the cache may change.
\<close>

type_synonym visit = "ClientConnection \<times> HttpRequest \<times> request_io \<times> ClientConnection"

inductive history :: "(real \<Rightarrow> string) \<Rightarrow> visit list \<Rightarrow> Gateway \<Rightarrow> bool" for fmt where
  empty_cache: "lru_inv (gw_cache gw) \<Longrightarrow> cache_size (gw_cache gw) = 0 \<Longrightarrow> history fmt [] gw"
| handled: "history fmt hist gw \<Longrightarrow> request_ok req \<Longrightarrow> handleRequest fmt conn req io gw = Some (conn', gw') \<Longrightarrow>
    history fmt (hist @ [(conn, req, io, conn')]) gw'"
| elsewhere: "history fmt hist gw \<Longrightarrow> gw_cache gw' = gw_cache gw \<Longrightarrow> history fmt hist gw'"

text \<open>The answer of a visit was a response to GET or HEAD with status 200, and it was stored as given.\<close>

definition stored_as :: "visit \<Rightarrow> CachedResponse \<Rightarrow> bool" where
  "stored_as visit cached =
     (case visit of (conn, req, io, conn') \<Rightarrow>
        (rq_method req = ''GET'' \<or> rq_method req = ''HEAD'') \<and>
        (\<exists>resp. cached = to_cached resp \<and> rs_statusCode resp = 200 \<and>
           cc_pendingWrite conn' = cc_pendingWrite conn @ serialize resp (rq_keepAlive req)))"

lemma cacheKey_target:
  assumes "request_ok r" and "request_ok q" and "cacheKey r = cacheKey q"
  shows "rq_method r = rq_method q \<and> rq_path r = rq_path q \<and> rq_query r = rq_query q"
proof -
  have "\<not> method_char SP" by code_simp
  then have ok: "SP \<notin> set (rq_method x)" "CHR ''?'' \<notin> set (rq_path x)" if "request_ok x" for x
    using that unfolding request_ok_def line_ok_def list_all_iff by blast+
  show ?thesis by (rule cacheKey_inj [OF assms(3) ok(1) [OF assms(1)] ok(1) [OF assms(2)] ok(2) [OF assms(1)] ok(2) [OF assms(2)]])
qed

lemma map_le_Some: "m \<subseteq>\<^sub>m m' \<Longrightarrow> m k = Some x \<Longrightarrow> m' k = Some x"
  by (metis domI map_le_def)

lemma lookupCache_cache:
  assumes "lru_inv (gw_cache gw)" and "lookupCache req io route gw = Some (d, gw')"
  shows "lru_inv (gw_cache gw')" and "lc_ttl (gw_cache gw') = lc_ttl (gw_cache gw)"
    and "lru_holds (gw_cache gw') \<subseteq>\<^sub>m lru_holds (gw_cache gw)" and "d = Forward r \<Longrightarrow> r = route"
    and "d = Reply resp \<Longrightarrow> \<exists>v t. lru_holds (gw_cache gw) (cacheKey req) = Some (v, t) \<and>
      \<not> expired (lc_ttl (gw_cache gw)) (hq_cacheAt io) t \<and> resp = hit_response v (rq_requestId req)"
proof -
  let ?c = "gw_cache gw"
  have v: "lru_valid (lc_ttl ?c) ?c" using assms(1) by (simp add: lru_valid_def)
  obtain x c' where g: "LRUCache.get ?c (hq_cacheAt io) (cacheKey req) = Some (x, c')" "lru_inv c'" "same_limits ?c c'"
    using get_refines [OF assms(1)] by blast
  note hit = lru_lookup [OF v g(1)]
  have c': "gw_cache gw' = c' \<or> gw_cache gw' = ?c"
    using assms(2) g(1) by (auto simp: lookupCache_def metric_def split: if_splits option.splits)
  with assms(1) g(2,3) hit(1) show "lru_inv (gw_cache gw')" "lc_ttl (gw_cache gw') = lc_ttl ?c"
    "lru_holds (gw_cache gw') \<subseteq>\<^sub>m lru_holds ?c" by (auto simp: same_limits_def)
  show "d = Forward r \<Longrightarrow> r = route"
    using assms(2) by (auto simp: lookupCache_def split: if_splits option.splits)
  assume "d = Reply resp"
  with assms(2) g(1) obtain v where "x = Some v" "resp = hit_response v (rq_requestId req)"
    by (auto simp: lookupCache_def split: if_splits option.splits)
  with hit(2) show "\<exists>v t. lru_holds ?c (cacheKey req) = Some (v, t) \<and>
      \<not> expired (lc_ttl ?c) (hq_cacheAt io) t \<and> resp = hit_response v (rq_requestId req)" by blast
qed

lemma decide_cache:
  assumes "lru_inv (gw_cache gw)" and "decide fmt conn req io gw = Some (d, gw')"
  shows "lru_inv (gw_cache gw') \<and> lc_ttl (gw_cache gw') = lc_ttl (gw_cache gw) \<and>
    lru_holds (gw_cache gw') \<subseteq>\<^sub>m lru_holds (gw_cache gw)"
proof -
  define gw1 where "gw1 = log_event_gw INFO ''request received'' (request_fields conn req) (metric incRequests gw)"
  have c1: "gw_cache gw1 = gw_cache gw" by (simp add: gw1_def log_event_gw_def metric_def)
  obtain ok rl where a: "allow (gw_rateLimiter gw1) (hq_limitAt io) (cc_clientIp conn) 1 = (ok, rl)" by fastforce
  let ?gw2 = "gw1\<lparr>gw_rateLimiter := rl\<rparr>"
  consider (same) "gw_cache gw' = gw_cache gw" | (route) r where "lookupCache req io r ?gw2 = Some (d, gw')"
    using assms(2) c1 unfolding decide_def Let_def gw1_def [symmetric] a
    by (auto simp: metric_def split: if_splits option.splits)
  then show ?thesis
  proof cases
    case (route r)
    have c2: "gw_cache ?gw2 = gw_cache gw" using c1 by simp
    show ?thesis using lookupCache_cache(1-3) [OF _ route] assms(1) unfolding c2 by blast
  next
    case same
    show ?thesis unfolding same using assms(1) by simp
  qed
qed

lemma storeResponse_cache:
  assumes "lru_inv (gw_cache gw)" and "storeResponse req io route resp gw = Some (resp', gw')"
  shows "lru_inv (gw_cache gw') \<and> lc_ttl (gw_cache gw') = lc_ttl (gw_cache gw)"
    and "lru_holds (gw_cache gw') k = Some (v, t) \<Longrightarrow> lru_holds (gw_cache gw) k = Some (v, t) \<or>
      (k = cacheKey req \<and> t = hq_putAt io \<and> cacheableRequest route req \<and> rs_statusCode resp' = 200 \<and> v = to_cached resp')"
proof -
  let ?c = "gw_cache gw" and ?r = "setHeader (setHeader resp ''X-Request-Id'' (rq_requestId req)) ''X-Cache'' ''MISS''"
  have v: "lru_valid (lc_ttl ?c) ?c" using assms(1) by (simp add: lru_valid_def)
  obtain c' where p: "LRUCache.put ?c (hq_putAt io) (cacheKey req) (to_cached ?r) = Some c'" "lru_inv c'" "same_limits ?c c'"
    using put_refines [OF assms(1)] by blast
  have cs: "gw' = gw \<or> (resp' = ?r \<and> gw_cache gw' = c' \<and> cacheableRequest route req \<and> rs_statusCode resp = 200)"
    using assms(2) p(1) by (auto simp: storeResponse_def Let_def split: if_splits)
  then have "gw_cache gw' = ?c \<or> gw_cache gw' = c'" by blast
  then show "lru_inv (gw_cache gw') \<and> lc_ttl (gw_cache gw') = lc_ttl ?c"
    using assms(1) p(2,3) unfolding same_limits_def by (elim disjE) simp_all
  assume h: "lru_holds (gw_cache gw') k = Some (v, t)"
  have "lru_holds c' k = Some (v, t) \<Longrightarrow> ((lru_holds ?c)(cacheKey req \<mapsto> (to_cached ?r, hq_putAt io))) k = Some (v, t)"
    using lru_store [OF v p(1)] by (rule map_le_Some)
  with h cs have "lru_holds ?c k = Some (v, t) \<or> (resp' = ?r \<and> cacheableRequest route req \<and> rs_statusCode resp = 200 \<and>
      ((lru_holds ?c)(cacheKey req \<mapsto> (to_cached ?r, hq_putAt io))) k = Some (v, t))" by (elim disjE) auto
  then show "lru_holds ?c k = Some (v, t) \<or>
      (k = cacheKey req \<and> t = hq_putAt io \<and> cacheableRequest route req \<and> rs_statusCode resp' = 200 \<and> v = to_cached resp')"
    by (auto split: if_splits)
qed

text \<open>What a handled request does to the cache: entries go, or the response just sent comes.\<close>

lemma handleRequest_cache:
  assumes "lru_inv (gw_cache gw)" and "handleRequest fmt conn req io gw = Some (conn', gw')"
  shows "lru_inv (gw_cache gw') \<and> lc_ttl (gw_cache gw') = lc_ttl (gw_cache gw)"
    and "lru_holds (gw_cache gw') k = Some (v, t) \<Longrightarrow> lru_holds (gw_cache gw) k = Some (v, t) \<or>
      (k = cacheKey req \<and> t = hq_putAt io \<and> stored_as (conn, req, io, conn') v)"
proof -
  obtain d gw1 where d: "decide fmt conn req io gw = Some (d, gw1)"
    using assms(2) by (auto simp: handleRequest_def split: option.splits)
  note c1 = decide_cache [OF assms(1) d]
  have "(lru_inv (gw_cache gw') \<and> lc_ttl (gw_cache gw') = lc_ttl (gw_cache gw)) \<and>
    (lru_holds (gw_cache gw') k = Some (v, t) \<longrightarrow> lru_holds (gw_cache gw1) k = Some (v, t) \<or>
      (k = cacheKey req \<and> t = hq_putAt io \<and> stored_as (conn, req, io, conn') v))"
  proof (cases d)
    case (Reply resp)
    with assms(2) d have "gw_cache gw' = gw_cache gw1"
      by (auto simp: handleRequest_def answer_conn recordLatency_def metric_def)
    with c1 show ?thesis by simp
  next
    case (Forward route)
    then have f: "forwardRequest conn req io route gw1 = Some (conn', gw')" using assms(2) d by (simp add: handleRequest_def)
    obtain resp gw2 where fw: "forwardWithResilience route req (hq_attempts io) gw1 = (Some resp, gw2)"
      using f by (auto simp: forwardRequest_def split: prod.splits option.splits)
    have c2: "gw_cache gw2 = gw_cache gw1"
      using forward_loop_rest [OF fw [unfolded forwardWithResilience_def]] by (simp add: gw_rest_def)
    obtain resp' gw3 where st: "storeResponse req io route resp gw2 = Some (resp', gw3)"
      using f fw by (auto simp: forwardRequest_def split: option.splits)
    have c3: "gw_cache gw' = gw_cache gw3"
      and conn': "cc_pendingWrite conn' = cc_pendingWrite conn @ serialize resp' (rq_keepAlive req)"
      using f fw st by (auto simp: forwardRequest_def answer_conn recordLatency_def metric_def)
    have i2: "lru_inv (gw_cache gw2)" using c1 c2 by simp
    have "lru_inv (gw_cache gw') \<and> lc_ttl (gw_cache gw') = lc_ttl (gw_cache gw)"
      using storeResponse_cache(1) [OF i2 st] c1 unfolding c2 c3 by simp
    moreover have "stored_as (conn, req, io, conn') (to_cached resp')" if "cacheableRequest route req" "rs_statusCode resp' = 200"
      using that conn' by (auto simp: stored_as_def cacheableRequest_def)
    ultimately show ?thesis
      using storeResponse_cache(2) [OF i2 st, of k v t] unfolding c2 c3 by blast
  qed
  with c1 map_le_Some [of "lru_holds (gw_cache gw1)" "lru_holds (gw_cache gw)" k "(v, t)"]
  show "lru_inv (gw_cache gw') \<and> lc_ttl (gw_cache gw') = lc_ttl (gw_cache gw)"
    and "lru_holds (gw_cache gw') k = Some (v, t) \<Longrightarrow> lru_holds (gw_cache gw) k = Some (v, t) \<or>
      (k = cacheKey req \<and> t = hq_putAt io \<and> stored_as (conn, req, io, conn') v)"
    by blast+
qed

lemma history_cache:
  assumes "history fmt hist gw"
  shows "lru_inv (gw_cache gw)"
    and "lru_holds (gw_cache gw) k = Some (v, t) \<Longrightarrow> \<exists>conn req io conn'. (conn, req, io, conn') \<in> set hist \<and>
      request_ok req \<and> k = cacheKey req \<and> t = hq_putAt io \<and> stored_as (conn, req, io, conn') v"
proof -
  have "lru_inv (gw_cache gw) \<and> (lru_holds (gw_cache gw) k = Some (v, t) \<longrightarrow> (\<exists>conn req io conn'. (conn, req, io, conn') \<in> set hist \<and>
      request_ok req \<and> k = cacheKey req \<and> t = hq_putAt io \<and> stored_as (conn, req, io, conn') v))"
    using assms
  proof (induction rule: history.induct)
    case (empty_cache gw)
    then have "recency (gw_cache gw) = []"
      using linked_length [of "lc_list (gw_cache gw)" "lc_index (gw_cache gw)"]
      by (simp add: lru_inv_def cache_size_def recency_def)
    with empty_cache show ?case by (simp add: lru_holds_def)
  next
    case (handled hist gw req conn io conn' gw')
    note step = handleRequest_cache [OF _ handled.hyps(3)]
    show ?case using step(1) step(2) [of k v t] handled.IH handled.hyps(2) unfolding set_append by fastforce
  next
    case (elsewhere hist gw gw')
    then show ?case by simp
  qed
  then show "lru_inv (gw_cache gw)"
    and "lru_holds (gw_cache gw) k = Some (v, t) \<Longrightarrow> \<exists>conn req io conn'. (conn, req, io, conn') \<in> set hist \<and>
      request_ok req \<and> k = cacheKey req \<and> t = hq_putAt io \<and> stored_as (conn, req, io, conn') v" by blast+
qed

text \<open>A response just stored is found again: it is the most recent entry.\<close>

lemma put_get:
  assumes "lru_inv c" and "0 < lc_capacity c" and "LRUCache.put c now k v = Some c1" and "\<not> expired (lc_ttl c) now' now"
  shows "\<exists>c2. LRUCache.get c1 now' k = Some (Some v, c2)"
proof -
  have p: "lru_inv c1" "lc_ttl c1 = lc_ttl c" "recency c1 = spec_put (lc_capacity c) now k v (recency c)"
    using put_refines [OF assms(1), of now k v] assms(3) by (auto simp: same_limits_def)
  obtain n where "lc_capacity c = Suc n" using assms(2) gr0_implies_Suc by blast
  then have "fst (spec_get (lc_ttl c1) now' k (recency c1)) = Some v"
    using assms(4) p(2,3) by (simp add: spec_put_def spec_get_def)
  with get_refines [OF p(1), of now' k] show ?thesis by auto
qed

section \<open>Admission\<close>

definition builtin :: "HttpRequest \<Rightarrow> bool" where
  "builtin req \<longleftrightarrow> rq_path req = ''/metrics'' \<or> rq_path req = ''/gateway/health''"

text \<open>Nothing behind the admission checks was used: no backend, balancer, connection or cache entry.\<close>

definition shielded :: "Gateway \<Rightarrow> Gateway \<Rightarrow> bool" where
  "shielded gw gw' \<longleftrightarrow> untouched gw gw' \<and> gw_balancers gw' = gw_balancers gw \<and> gw_cache gw' = gw_cache gw"

definition queued :: "ClientConnection \<Rightarrow> HttpRequest \<Rightarrow> HttpResponse \<Rightarrow> ClientConnection \<Rightarrow> bool" where
  "queued conn req resp conn' \<longleftrightarrow>
     conn' = conn\<lparr>cc_pendingWrite := cc_pendingWrite conn @ serialize resp (rq_keepAlive req),
                  cc_closeAfterWrite := \<not> rq_keepAlive req\<rparr>"

lemmas handler_frames = answer_conn queued_def shielded_def untouched_def log_event_gw_def metric_def recordLatency_def
  incRequests_def incRateLimited_def incErrors_def recordLatencyMicros_def recordResponse_def Let_def

lemma admitted_lookup:
  assumes "\<not> builtin req" and "allow (gw_rateLimiter gw) (hq_limitAt io) (cc_clientIp conn) 1 = (True, rl)"
    and "match (gw_router gw) (rq_path req) = Some route"
  shows "\<exists>gw1. decide fmt conn req io gw = lookupCache req io route gw1 \<and> gw_rateLimiter gw1 = rl \<and> shielded gw gw1"
  using assms
  by (intro exI [of _ "(log_event_gw INFO ''request received'' (request_fields conn req) (metric incRequests gw))\<lparr>gw_rateLimiter := rl\<rparr>"])
    (simp add: decide_def builtin_def handler_frames)

lemma lookup_hit:
  assumes "cacheableRequest route req" and "LRUCache.get (gw_cache gw) (hq_cacheAt io) (cacheKey req) = Some (Some cached, c)"
  shows "lookupCache req io route gw = Some (Reply (hit_response cached (rq_requestId req)), metric incCacheHit (gw\<lparr>gw_cache := c\<rparr>))"
  using assms by (simp add: lookupCache_def)

lemma admission_cases:
  assumes "handleRequest fmt conn req io gw = Some (conn', gw')"
    and "allow (gw_rateLimiter gw) (hq_limitAt io) (cc_clientIp conn) 1 = (ok, rl)"
  shows "builtin req \<Longrightarrow> shielded gw gw' \<and> gw_rateLimiter gw' = gw_rateLimiter gw \<and>
      (\<exists>resp. queued conn req resp conn' \<and> rs_statusCode resp = 200)"
    and "\<not> builtin req \<Longrightarrow> \<not> ok \<Longrightarrow> shielded gw gw' \<and> gw_rateLimiter gw' = rl \<and>
      queued conn req (HttpMessage.make 429 ''Too Many Requests'' ''rate limit exceeded'') conn' \<and>
      mt_rateLimited (gw_metrics gw') = mt_rateLimited (gw_metrics gw) + 1"
    and "\<not> builtin req \<Longrightarrow> ok \<Longrightarrow> match (gw_router gw) (rq_path req) = None \<Longrightarrow>
      shielded gw gw' \<and> gw_rateLimiter gw' = rl \<and>
      queued conn req (HttpMessage.make 404 ''Not Found'' ''no matching route'') conn' \<and>
      mt_rateLimited (gw_metrics gw') = mt_rateLimited (gw_metrics gw)"
proof -
  assume b: "builtin req"
  have "rs_statusCode (metrics_response fmt io g) = 200" "rs_statusCode health_response = 200" for g
    by (simp_all add: metrics_response_def health_response_def Let_def)
  with assms(1) b show "shielded gw gw' \<and> gw_rateLimiter gw' = gw_rateLimiter gw \<and>
      (\<exists>resp. queued conn req resp conn' \<and> rs_statusCode resp = 200)"
    unfolding handleRequest_def decide_def builtin_def
    by (auto simp: handler_frames split: if_splits)
next
  assume "\<not> builtin req" and "\<not> ok"
  with assms show "shielded gw gw' \<and> gw_rateLimiter gw' = rl \<and>
      queued conn req (HttpMessage.make 429 ''Too Many Requests'' ''rate limit exceeded'') conn' \<and>
      mt_rateLimited (gw_metrics gw') = mt_rateLimited (gw_metrics gw) + 1"
    by (auto simp: handleRequest_def decide_def builtin_def handler_frames)
next
  assume "\<not> builtin req" and "ok" and "match (gw_router gw) (rq_path req) = None"
  with assms show "shielded gw gw' \<and> gw_rateLimiter gw' = rl \<and>
      queued conn req (HttpMessage.make 404 ''Not Found'' ''no matching route'') conn' \<and>
      mt_rateLimited (gw_metrics gw') = mt_rateLimited (gw_metrics gw)"
    by (auto simp: handleRequest_def decide_def builtin_def handler_frames)
qed

text \<open>Concrete requests: one followed by malformed bytes, and one a backend answers with 200.\<close>

definition sample_pipeline :: ClientConnection where
  "sample_pipeline = (ClientConnection_init 5 ''10.0.0.1'' 1)
     \<lparr>cc_parser := append HttpParser_init
        (''GET / HTTP/1.1'' @ CRLF @ CRLF @ ''X'' @ CRLF)\<rparr>"

definition routeless_gw :: Gateway where "routeless_gw = sample_gw\<lparr>gw_router := []\<rparr>"

definition sample_client :: ClientConnection where
  "sample_client = ClientConnection_init 6 ''10.0.0.2'' 1"

definition sample_get :: HttpRequest where
  "sample_get = sample_req\<lparr>rq_version := ''HTTP/1.1''\<rparr>"

definition answered_io :: request_io where
  "answered_io = plain_io\<lparr>hq_attempts :=
     [sample_io 7 [\<lparr>si_ready = 1, si_result = Sent 500\<rparr>]
        [\<lparr>ri_remainingMs = 9, ri_ready = 1,
          ri_data = Some (''HTTP/1.1 200 OK'' @ CRLF @ ''Content-Length: 2'' @ CRLF @ CRLF @ ''hi'')\<rparr>]]\<rparr>"

section \<open>Properties\<close>

text \<open>
  C5: Pipelined requests are answered one by one, in the order in which they arrived, each by
  the handling of that very request: the bytes queued for the client are the serialized responses
  to exactly the requests its bytes contain, up to the first one that asks to close, with a 400 at
  the end if what follows is malformed. The connection is closed after the last response exactly
  if that request or malformed bytes ask for it.
\<close>

theorem pipeline_order:
  assumes "drain fmt conn ios gw = Some (conn', gw')"
  shows "\<exists>reqs bad resps. pipelined (cc_parser conn) reqs bad \<and>
    list_all2 (responds fmt (cc_clientIp conn)) reqs resps \<and>
    cc_pendingWrite conn' = cc_pendingWrite conn @ responses reqs resps @ (if bad then serialize bad_request False else []) \<and>
    (cc_closeAfterWrite conn' \<longleftrightarrow> bad \<or> (if reqs = [] then cc_closeAfterWrite conn else \<not> rq_keepAlive (last reqs)))"
  using drain_drained [OF assms] unfolding drained_def .

theorem pipeline_order_witness:
  "\<exists>conn' gw' reqs bad resps. drain no_fmt sample_pipeline [plain_io] routeless_gw = Some (conn', gw') \<and>
     pipelined (cc_parser sample_pipeline) reqs bad \<and> list_all2 (responds no_fmt ''10.0.0.1'') reqs resps \<and>
     cc_pendingWrite conn' = responses reqs resps @ (if bad then serialize bad_request False else []) \<and> cc_closeAfterWrite conn'"
proof -
  let ?d = "drain no_fmt sample_pipeline [plain_io] routeless_gw"
  have "case ?d of Some (conn', gw') \<Rightarrow> cc_closeAfterWrite conn' | None \<Rightarrow> False" by code_simp
  then obtain conn' gw' where d: "?d = Some (conn', gw')" "cc_closeAfterWrite conn'" by (cases ?d) auto
  have s: "cc_pendingWrite sample_pipeline = []" "cc_clientIp sample_pipeline = ''10.0.0.1''" by code_simp+
  from pipeline_order [OF d(1), unfolded s List.append_Nil] d show ?thesis by blast
qed

text \<open>
  C37: The request to close is forgotten. When a response that should end the connection could not
  be written at once, requests that arrive meanwhile are answered as well, and a keep-alive one
  among them takes the request to close back: the connection stays open.
\<close>

theorem close_request_forgotten:
  assumes "cc_closeAfterWrite conn" and "pipelined (cc_parser conn) reqs False"
    and "reqs \<noteq> []" and "rq_keepAlive (last reqs)" and "drain fmt conn ios gw = Some (conn', gw')"
  shows "\<not> cc_closeAfterWrite conn' \<and>
    (\<exists>resps. length resps = length reqs \<and> cc_pendingWrite conn' = cc_pendingWrite conn @ responses reqs resps)"
proof -
  obtain reqs' bad resps where d: "pipelined (cc_parser conn) reqs' bad" "list_all2 (responds fmt (cc_clientIp conn)) reqs' resps"
    "cc_pendingWrite conn' = cc_pendingWrite conn @ responses reqs' resps @ (if bad then serialize bad_request False else [])"
    "cc_closeAfterWrite conn' \<longleftrightarrow> bad \<or> (if reqs' = [] then cc_closeAfterWrite conn else \<not> rq_keepAlive (last reqs'))"
    using drain_drained [OF assms(5)] unfolding drained_def by blast
  have "reqs' = reqs" "bad = False" using pipelined_det [OF assms(2) d(1)] by auto
  with d(2-4) assms(3,4) show ?thesis by (intro conjI exI [of _ resps]) (auto dest: list_all2_lengthD)
qed

text \<open>A connection about to be closed, still with a byte to write, on which a further request arrived.\<close>

definition sample_close :: ClientConnection where
  "sample_close = (ClientConnection_init 5 ''10.0.0.1'' 1)
     \<lparr>cc_parser := append HttpParser_init (''GET / HTTP/1.1'' @ CRLF @ CRLF),
      cc_pendingWrite := ''x'', cc_closeAfterWrite := True\<rparr>"

theorem close_request_forgotten_witness:
  "\<exists>conn' gw'. cc_closeAfterWrite sample_close \<and> drain no_fmt sample_close [plain_io] routeless_gw = Some (conn', gw') \<and>
     \<not> cc_closeAfterWrite conn'"
proof -
  let ?d = "drain no_fmt sample_close [plain_io] routeless_gw" and ?p = "parse (cc_parser sample_close) HttpRequest_init"
  have "?d \<noteq> None" by code_simp
  then obtain conn' gw' where d: "?d = Some (conn', gw')" by auto
  have "case ?p of (s, p, req) \<Rightarrow> s = Complete \<and> rq_keepAlive req \<and> fst (parse p HttpRequest_init) = Incomplete" by code_simp
  then obtain p req where p: "?p = (Complete, p, req)" and k: "rq_keepAlive req"
    and p': "fst (parse p HttpRequest_init) = Incomplete" by (auto split: prod.splits)
  have "pipelined p [] False" using p' by (cases "parse p HttpRequest_init") (auto intro: no_more)
  moreover have c: "cc_closeAfterWrite sample_close" by code_simp
  ultimately show ?thesis using close_request_forgotten [OF c next_request [OF p k] _ _ d] k d by auto
qed

text \<open>
  C8: A request is checked before anything behind the gateway is used. The built-in endpoints are
  answered without the rate limiter; a client over its limit gets a 429 and an unknown path a 404,
  with no backend, balancer, pooled connection or cache entry touched, and only the first of the
  two counts as rate limited. The limiter is charged once for every other request.
\<close>

theorem admission_control:
  assumes "handleRequest fmt conn req io gw = Some (conn', gw')"
    and "allow (gw_rateLimiter gw) (hq_limitAt io) (cc_clientIp conn) 1 = (ok, rl)"
  shows "(builtin req \<longrightarrow> shielded gw gw' \<and> gw_rateLimiter gw' = gw_rateLimiter gw \<and>
      (\<exists>resp. queued conn req resp conn' \<and> rs_statusCode resp = 200)) \<and>
    (\<not> builtin req \<and> \<not> ok \<longrightarrow> shielded gw gw' \<and> gw_rateLimiter gw' = rl \<and>
      queued conn req (HttpMessage.make 429 ''Too Many Requests'' ''rate limit exceeded'') conn' \<and>
      mt_rateLimited (gw_metrics gw') = mt_rateLimited (gw_metrics gw) + 1) \<and>
    (\<not> builtin req \<and> ok \<and> match (gw_router gw) (rq_path req) = None \<longrightarrow>
      shielded gw gw' \<and> gw_rateLimiter gw' = rl \<and>
      queued conn req (HttpMessage.make 404 ''Not Found'' ''no matching route'') conn' \<and>
      mt_rateLimited (gw_metrics gw') = mt_rateLimited (gw_metrics gw))"
  using admission_cases [OF assms] by blast

theorem admission_control_witness:
  "\<exists>conn' gw'. handleRequest no_fmt sample_client sample_get plain_io (sample_gw\<lparr>gw_rateLimiter := TokenBucketRateLimiter 0 0\<rparr>) =
       Some (conn', gw') \<and> shielded (sample_gw\<lparr>gw_rateLimiter := TokenBucketRateLimiter 0 0\<rparr>) gw' \<and>
     queued sample_client sample_get (HttpMessage.make 429 ''Too Many Requests'' ''rate limit exceeded'') conn'"
proof -
  let ?gw = "sample_gw\<lparr>gw_rateLimiter := TokenBucketRateLimiter 0 0\<rparr>"
  let ?h = "handleRequest no_fmt sample_client sample_get plain_io ?gw"
    and ?a = "allow (gw_rateLimiter ?gw) (hq_limitAt plain_io) (cc_clientIp sample_client) 1"
  have "?h \<noteq> None" "\<not> fst ?a" "\<not> builtin sample_get" by code_simp+
  then obtain conn' gw' rl where h: "?h = Some (conn', gw')" and a: "?a = (False, rl)" and b: "\<not> builtin sample_get"
    by (cases ?a) auto
  from admission_control [OF h a] b h show ?thesis by blast
qed

text \<open>
  C2: What the cache serves was sent before. In any history of the gateway, a reply made from the
  cache repeats a response with status 200 that an earlier GET or HEAD for the same method, path
  and query received and that is not older than the configured time to live: status, reason, body
  and every header except X-Cache and X-Request-Id are the same.
\<close>

theorem cache_provenance:
  assumes "history fmt hist gw" and "request_ok req" and "lookupCache req io route gw = Some (Reply hit, gw')"
  shows "\<exists>conn0 req0 io0 conn0' resp. (conn0, req0, io0, conn0') \<in> set hist \<and>
    (rq_method req0 = ''GET'' \<or> rq_method req0 = ''HEAD'') \<and>
    rq_method req = rq_method req0 \<and> rq_path req = rq_path req0 \<and> rq_query req = rq_query req0 \<and>
    cc_pendingWrite conn0' = cc_pendingWrite conn0 @ serialize resp (rq_keepAlive req0) \<and>
    \<not> expired (lc_ttl (gw_cache gw)) (hq_cacheAt io) (hq_putAt io0) \<and>
    rs_statusCode resp = 200 \<and> rs_statusCode hit = 200 \<and> rs_statusText hit = rs_statusText resp \<and> rs_body hit = rs_body resp \<and>
    map_of (rs_headers hit) =
      (map_of (rs_headers resp))(''X-Cache'' \<mapsto> ''HIT'', ''X-Request-Id'' \<mapsto> rq_requestId req)"
proof -
  obtain v t where v: "lru_holds (gw_cache gw) (cacheKey req) = Some (v, t)"
    "\<not> expired (lc_ttl (gw_cache gw)) (hq_cacheAt io) t" "hit = hit_response v (rq_requestId req)"
    using lookupCache_cache(5) [OF history_cache(1) [OF assms(1)] assms(3) refl] by blast
  obtain conn0 req0 io0 conn0' where h: "(conn0, req0, io0, conn0') \<in> set hist" "request_ok req0"
    "cacheKey req = cacheKey req0" "t = hq_putAt io0" "stored_as (conn0, req0, io0, conn0') v"
    using history_cache(2) [OF assms(1) v(1)] by blast
  then obtain resp where "v = to_cached resp" "rs_statusCode resp = 200" "rq_method req0 = ''GET'' \<or> rq_method req0 = ''HEAD''"
    "cc_pendingWrite conn0' = cc_pendingWrite conn0 @ serialize resp (rq_keepAlive req0)"
    by (auto simp: stored_as_def)
  with h(1,4) v(2,3) cacheKey_target [OF assms(2) h(2,3)] show ?thesis
    by (intro exI [of _ conn0] exI [of _ req0] exI [of _ io0] exI [of _ conn0'] exI [of _ resp])
      (simp add: hit_response_def to_cached_def Let_def)
qed

theorem cache_provenance_witness:
  "\<exists>conn' gw' hit gw2 resp. handleRequest no_fmt sample_client sample_get answered_io sample_gw = Some (conn', gw') \<and>
     lookupCache sample_get plain_io sample_route gw' = Some (Reply hit, gw2) \<and>
     cc_pendingWrite conn' = cc_pendingWrite sample_client @ serialize resp True \<and>
     rs_statusCode resp = 200 \<and> rs_body hit = rs_body resp"
proof -
  let ?h = "handleRequest no_fmt sample_client sample_get answered_io sample_gw"
  have "case ?h of Some (conn', gw') \<Rightarrow>
      (case lookupCache sample_get plain_io sample_route gw' of Some (Reply hit, gw2) \<Rightarrow> True | _ \<Rightarrow> False)
    | None \<Rightarrow> False" by code_simp
  then obtain conn' gw' d gw2 where h: "?h = Some (conn', gw')"
    and l: "lookupCache sample_get plain_io sample_route gw' = Some (d, gw2)" and "case d of Reply hit \<Rightarrow> True | _ \<Rightarrow> False"
    by (auto split: option.splits)
  then obtain hit where l: "lookupCache sample_get plain_io sample_route gw' = Some (Reply hit, gw2)" by (cases d) auto
  have ok: "request_ok sample_get" and k: "rq_keepAlive sample_get" by code_simp+
  have "lru_inv (gw_cache sample_gw)" using sample_wf(1) by (simp add: gw_wf_def)
  moreover have "cache_size (gw_cache sample_gw) = 0" by code_simp
  ultimately have "history no_fmt [] sample_gw" by (rule empty_cache)
  from handled [OF this ok h] have "history no_fmt [(sample_client, sample_get, answered_io, conn')] gw'" by simp
  from cache_provenance [OF this ok l] k h l show ?thesis by auto
qed



end
