(* ===== verification/BackendServer.thy ===== *)
theory BackendServer
  imports Relay HealthChecker Config TcpServer
begin

text \<open>
  The small backend of backends/backend_server.cpp that the repository ships to have something to
  proxy to. \<open>handleClient\<close> reads once, answers once and closes; the command line and the accept
  loop follow \<^verbatim>\<open>main\<close>. The random deviate and the answers of the socket calls are
  arguments. Connections are handled one after the other: the threads of the program share only
  the request counter. At the end the backend is put behind the gateway's exchange.
\<close>

section \<open>Requests\<close>

record backend_args =
  ba_port :: int
  ba_latencyMs :: int
  ba_failRate :: real
  ba_name :: string

definition requestPath :: "string \<Rightarrow> string" where
  "requestPath request =
     (let sp1 = str_find request '' '' 0;
          sp2 = str_find request '' '' (uadd (pos_val sp1) 1)
      in case (sp1, sp2) of
           (Some i, Some j) \<Rightarrow> substr request (i + 1) (usub (usub j i) 1)
         | _ \<Rightarrow> ''/'')"

definition shouldFail :: "string \<Rightarrow> real \<Rightarrow> real \<Rightarrow> bool" where
  "shouldFail path failRate draw \<longleftrightarrow> path \<noteq> ''/health'' \<and> failRate > 0 \<and> draw < failRate"

definition quote :: "string \<Rightarrow> string" where
  "quote s = DQUOTE # s @ [DQUOTE]"

definition backendBody :: "backend_args \<Rightarrow> string \<Rightarrow> 64 word \<Rightarrow> bool \<Rightarrow> string" where
  "backendBody a path count failing =
     (let backend = ba_name a @ '':'' @ int_to_string (ba_port a)
      in if failing
         then ''{'' @ quote ''error'' @ '':'' @ quote ''simulated failure'' @ '','' @ quote ''backend'' @ '':'' @
              quote backend @ ''}''
         else ''{'' @ quote ''backend'' @ '':'' @ quote backend @ '','' @ quote ''path'' @ '':'' @ quote path @
              '','' @ quote ''request_count'' @ '':'' @ nat_to_string (unat count) @ ''}'')"

definition backendReply :: "int \<Rightarrow> string \<Rightarrow> string \<Rightarrow> string" where
  "backendReply status statusText body =
     ''HTTP/1.1 '' @ int_to_string status @ '' '' @ statusText @ CRLF @
     ''Content-Type: application/json'' @ CRLF @
     ''Content-Length: '' @ nat_to_string (length body) @ CRLF @
     ''Connection: close'' @ CRLF @ CRLF @ body"

text \<open>
  \<open>None\<close> is a failed \<^verbatim>\<open>recv\<close> and the empty string a closed peer. The result is what
  is sent, the counter and the open descriptors.
\<close>

definition handleClient ::
  "backend_args \<Rightarrow> fd \<Rightarrow> string option \<Rightarrow> real \<Rightarrow> 64 word \<Rightarrow> descs \<Rightarrow> string option \<times> 64 word \<times> descs" where
  "handleClient a fd buf draw count os =
     (case buf of
        None \<Rightarrow> (None, count, close_fd fd os)
      | Some [] \<Rightarrow> (None, count, close_fd fd os)
      | Some buf \<Rightarrow>
          (let request = c_str (take 8191 buf);
               path = requestPath request;
               count = count + 1;
               failing = shouldFail path (ba_failRate a) draw;
               status = (if failing then 500 else 200);
               statusText = (if failing then ''Internal Server Error'' else ''OK'')
           in (Some (backendReply status statusText (backendBody a path count failing)), count, close_fd fd os)))"

section \<open>The program\<close>

definition atof :: "string \<Rightarrow> real" where
  "atof s = (case strtod (c_str s) of None \<Rightarrow> 0 | Some v \<Rightarrow> v)"

function parse_args :: "string list \<Rightarrow> backend_args \<Rightarrow> backend_args" where
  "parse_args [] a = a"
| "parse_args [arg] a = a"
| "parse_args (arg # v # rest) a =
     (if arg = ''--latency-ms'' then parse_args rest (a\<lparr>ba_latencyMs := atoi v\<rparr>)
      else if arg = ''--fail-rate'' then parse_args rest (a\<lparr>ba_failRate := atof v\<rparr>)
      else if arg = ''--name'' then parse_args rest (a\<lparr>ba_name := v\<rparr>)
      else parse_args (v # rest) a)"
  by pat_completeness auto
termination by (relation "measure (\<lambda>(args, a). length args)") auto

text \<open>One accepted connection: its descriptor, negative when \<^verbatim>\<open>accept\<close> failed, what arrives, the deviate.\<close>

fun accept_loop ::
  "backend_args \<Rightarrow> (fd \<times> string option \<times> real) list \<Rightarrow> 64 word \<Rightarrow> descs \<Rightarrow> (fd \<times> string) list \<times> 64 word \<times> descs" where
  "accept_loop a [] count os = ([], count, os)"
| "accept_loop a ((fd, buf, draw) # cs) count os =
     (if fd < 0 then accept_loop a cs count os
      else (case handleClient a fd buf draw count (open_fd fd os) of
              (reply, count, os) \<Rightarrow>
                (case accept_loop a cs count os of
                   (replies, count, os) \<Rightarrow>
                     ((case reply of None \<Rightarrow> [] | Some r \<Rightarrow> [(fd, r)]) @ replies, count, os))))"

text \<open>The exit code, if the program ends, and what the accept loop did; the listening socket stays open.\<close>

definition backend_main ::
  "string list \<Rightarrow> fd \<Rightarrow> int \<Rightarrow> (fd \<times> string option \<times> real) list \<Rightarrow> descs \<Rightarrow>
   int option \<times> (fd \<times> string) list \<times> descs" where
  "backend_main argv listenFd bound cs os =
     (case argv of
        prog # port # args \<Rightarrow>
          (let a = parse_args args
                     \<lparr>ba_port = atoi port, ba_latencyMs = 0, ba_failRate = 0, ba_name = ''backend''\<rparr>;
               os = (if listenFd < 0 then os else open_fd listenFd os)
           in if bound < 0 then (Some 1, [], os)
              else (case accept_loop a cs 0 os of (replies, count, os) \<Rightarrow> (None, replies, os)))
      | _ \<Rightarrow> (Some 1, [], os))"

section \<open>Lemmas\<close>

lemma c_str_prefix: "CHR 0x00 \<notin> set a \<Longrightarrow> c_str (a @ b) = a @ c_str b"
  by (induction a) (auto simp: c_str_def)

lemma requestPath_line:
  assumes "SP \<notin> set m" and "SP \<notin> set t" and "length m + length t + 2 < 2 ^ 64"
  shows "requestPath (m @ SP # t @ SP # rest) = t"
proof -
  let ?r = "m @ SP # t @ SP # rest"
  have 1: "str_find ?r '' '' 0 = Some (length m)"
    using find_sub_char [OF assms(1), of "t @ SP # rest"] by (simp add: str_find_def)
  have 2: "str_find ?r '' '' (Suc (length m)) = Some (Suc (length m + length t))"
    using find_sub_char [OF assms(2), of rest] by (simp add: str_find_def)
  have "uadd (length m) 1 = Suc (length m)" using assms(3) by (simp add: uadd_def)
  moreover have "usub (usub (Suc (length m + length t)) (length m)) 1 = length t"
    using assms(3) usub_le [of "length m" "Suc (length m + length t)"] usub_le [of 1 "Suc (length t)"] by simp
  ultimately show ?thesis by (simp add: requestPath_def Let_def 1 2 pos_val_def substr_def)
qed

definition backend_response :: "int \<Rightarrow> string \<Rightarrow> string \<Rightarrow> HttpResponse" where
  "backend_response status text body =
     \<lparr>rs_statusCode = status, rs_statusText = text, rs_headers = [(''Content-Type'', ''application/json'')], rs_body = body\<rparr>"

text \<open>The reply is what the gateway's own messages would write.\<close>

lemma backendReply_serialize: "backendReply status text body = serialize (backend_response status text body) False"
  by (simp add: backendReply_def serialize_def backend_response_def header_line_def has_name_def)

lemma backend_response_plain:
  "line_free text \<Longrightarrow> int_range status \<Longrightarrow> plain_response (backend_response status text body)"
proof -
  have "relayable (''Content-Type'', ''application/json'')" by code_simp
  then show "line_free text \<Longrightarrow> int_range status \<Longrightarrow> plain_response (backend_response status text body)"
    by (simp add: plain_response_def backend_response_def)
qed

lemma backend_reply_size:
  assumes "length body < 2 ^ 64" and "length (int_to_string status @ text) \<le> 100"
  shows "length (serialize (backend_response status text body) False) \<le> 24577 + length body"
proof -
  have "length body < 10 ^ Suc 19" using assms(1) by simp
  then have "length (nat_to_string (length body)) \<le> 20" using length_nat_to_string [of "length body" 19] by simp
  with assms(2) show ?thesis by (simp add: backend_response_def serialize_def header_line_def has_name_def)
qed

lemma handleClient_request:
  assumes "SP \<notin> set m" and "SP \<notin> set t" and "CHR 0x00 \<notin> set (m @ t)" and "length m + length t + 2 \<le> n" and "n \<le> 8191"
  shows "handleClient a fd (Some (take n (m @ SP # t @ SP # rest))) draw count os =
    (let failing = shouldFail t (ba_failRate a) draw
     in (Some (backendReply (if failing then 500 else 200) (if failing then ''Internal Server Error'' else ''OK'')
           (backendBody a t (count + 1) failing)), count + 1, close_fd fd os))"
proof -
  let ?buf = "take n (m @ SP # t @ SP # rest)"
  have b: "?buf = m @ SP # t @ SP # take (n - (length m + length t + 2)) rest"
    using assms(4) by (simp add: take_Cons' Suc_diff_le)
  then obtain c cs where c: "?buf = c # cs" by (cases ?buf) auto
  have "c_str ?buf = m @ SP # t @ SP # c_str (take (n - (length m + length t + 2)) rest)"
    unfolding b using assms(3) c_str_prefix [of "m @ SP # t @ [SP]"] by simp
  moreover have "take 8191 ?buf = ?buf" using assms(5) by (intro take_all) simp
  ultimately have "requestPath (c_str (take 8191 ?buf)) = t"
    using requestPath_line [OF assms(1,2)] assms(4,5) by (simp only:) simp
  then show ?thesis unfolding handleClient_def c by (simp add: Let_def)
qed

text \<open>
  Every accepted connection on which something arrives gets one reply, in order of acceptance, is
  counted once and is closed again.
\<close>

lemma accept_loop_replies:
  assumes "\<forall>(fd, buf, draw) \<in> set cs. fd \<notin> set os" and "accept_loop a cs count os = (replies, count', os')"
  shows "os' = os \<and> count' = count + of_nat (length replies) \<and>
    map fst replies = map fst (filter (\<lambda>(fd, buf, draw). 0 \<le> fd \<and> buf \<noteq> None \<and> buf \<noteq> Some []) cs)"
  using assms
proof (induction cs arbitrary: count replies)
  case (Cons c cs)
  obtain fd buf draw where c: "c = (fd, buf, draw)" by (metis prod_cases3)
  show ?case
  proof (cases "fd < 0")
    case False
    have keep: "close_fd fd (open_fd fd os) = os" using Cons.prems(1) c by simp
    consider "buf = None" | "buf = Some []" | b bs where "buf = Some (b # bs)" by (metis list.exhaust option.exhaust)
    then show ?thesis
    proof cases
      case (3 b bs)
      let ?h = "handleClient a fd buf draw count (open_fd fd os)"
      obtain r where h: "?h = (Some r, count + 1, os)" using 3 keep by (simp add: handleClient_def Let_def)
      obtain rs where rs: "accept_loop a cs (count + 1) os = (rs, count', os')" "replies = (fd, r) # rs"
        using Cons.prems(2) c False h by (auto split: prod.splits)
      with Cons.IH [OF _ rs(1)] Cons.prems(1) c 3 False show ?thesis by (auto simp: add.assoc)
    qed (use Cons.IH [of count replies] Cons.prems c False keep in \<open>auto simp: handleClient_def\<close>)
  qed (use Cons.IH [of count replies] Cons.prems c in auto)
qed simp

section \<open>Properties\<close>

definition target :: "HttpRequest \<Rightarrow> string" where
  "target req = rq_path req @ (if rq_query req = [] then [] else ''?'' @ rq_query req)"

lemma request_starts: "\<exists>rest. buildBackendRequest req be = rq_method req @ SP # target req @ SP # rest"
  by (simp add: buildBackendRequest_def target_def)

text \<open>
  C27: The gateway and the shipped backend understand each other. When the backend has read at
  least the request line of the request the gateway wrote and the gateway receives the reply in
  any chunks, the exchange succeeds with status 200, or 500 for a simulated failure, the content
  type, and the body that names the path and query the client asked for; the connection is not
  reused.
\<close>

theorem backend_exchange:
  assumes "SP \<notin> set (rq_method req)" and "SP \<notin> set (target req)" and "CHR 0x00 \<notin> set (rq_method req @ target req)"
    and "length (rq_method req) + length (target req) + 2 \<le> n" and "n \<le> 8191"
    and "handleClient a fd (Some (take n (buildBackendRequest req be))) draw count os = (Some reply, count', os')"
    and "fst (send_loop (buildBackendRequest req be) 0 sends) = SendDone" and "good_reads recvs" and "received recvs = reply"
    and "failing = shouldFail (target req) (ba_failRate a) draw"
    and "length (backendBody a (target req) (count + 1) failing) \<le> maxBody" and "maxBody < 2 ^ 64"
  shows "sendAndReceive (buildBackendRequest req be) maxBody sends recvs =
    Answered \<lparr>rs_statusCode = if failing then 500 else 200,
      rs_statusText = if failing then ''Internal Server Error'' else ''OK'',
      rs_headers = [(''content-type'', ''application/json'')], rs_body = backendBody a (target req) (count + 1) failing\<rparr> False"
proof -
  let ?status = "if failing then 500 else 200 :: int" and ?text = "if failing then ''Internal Server Error'' else ''OK''"
  let ?body = "backendBody a (target req) (count + 1) failing"
  let ?resp = "backend_response ?status ?text ?body"
  obtain rest where rq: "buildBackendRequest req be = rq_method req @ SP # target req @ SP # rest"
    using request_starts by blast
  have "handleClient a fd (Some (take n (buildBackendRequest req be))) draw count os =
      (Some (serialize ?resp False), count + 1, close_fd fd os)"
    using handleClient_request [OF assms(1-5), of a fd rest draw count os]
    unfolding rq Let_def backendReply_serialize assms(10) .
  from trans [OF sym [OF this] assms(6)] have "reply = serialize ?resp False"
    unfolding prod.inject option.inject by blast
  moreover have "int_range ?status" "line_free ?text" "length (int_to_string ?status @ ?text) \<le> 100"
    by (cases failing; simp; code_simp)+
  moreover have "map relayed (rs_headers ?resp) = [(''content-type'', ''application/json'')]"
    unfolding backend_response_def HttpResponse.simps by code_simp
  moreover have "rs_body ?resp = ?body" by (simp add: backend_response_def)
  ultimately show ?thesis
    using relay_serialized [OF backend_response_plain, of ?text ?status ?body maxBody False "buildBackendRequest req be" sends recvs]
      backend_reply_size [of ?body ?status ?text] assms(7-9,11,12)
    by (simp add: backend_response_def)
qed

definition sample_args :: backend_args where
  "sample_args = parse_args [''--fail-rate'', ''0.5'', ''--name'', ''b'', ''--fast'', ''--latency-ms'']
     \<lparr>ba_port = 1, ba_latencyMs = 0, ba_failRate = 0, ba_name = ''backend''\<rparr>"

definition sample_request :: HttpRequest where
  "sample_request = HttpRequest_init\<lparr>rq_method := ''GET'', rq_path := ''/x''\<rparr>"

definition sample_backend :: Backend where
  "sample_backend = Backend_init ''a'' 1 (CircuitBreaker_init 1 1 1)"

theorem backend_exchange_witness:
  "\<exists>reply. fst (handleClient sample_args 4 (Some (take 10 (buildBackendRequest sample_request sample_backend))) (3 / 4) 0 [4]) = Some reply \<and>
     sendAndReceive (buildBackendRequest sample_request sample_backend) 200 [\<lparr>si_ready = 1, si_result = Sent 500\<rparr>]
       [\<lparr>ri_remainingMs = 50, ri_ready = 1, ri_data = Some reply\<rparr>] =
     Answered \<lparr>rs_statusCode = 200, rs_statusText = ''OK'', rs_headers = [(''content-type'', ''application/json'')],
       rs_body = backendBody sample_args ''/x'' 1 False\<rparr> False"
proof -
  let ?w = "buildBackendRequest sample_request sample_backend" and ?s = "[\<lparr>si_ready = 1, si_result = Sent 500\<rparr>]"
  have m: "SP \<notin> set (rq_method sample_request)" "SP \<notin> set (target sample_request)"
    "CHR 0x00 \<notin> set (rq_method sample_request @ target sample_request)"
    "length (rq_method sample_request) + length (target sample_request) + 2 \<le> 10" by code_simp+
  have t: "target sample_request = ''/x''" by code_simp
  have f: "shouldFail (target sample_request) (ba_failRate sample_args) (3 / 4) = False" by code_simp
  have b: "length (backendBody sample_args (target sample_request) (0 + 1) False) \<le> 200" by code_simp
  have s: "fst (send_loop ?w 0 ?s) = SendDone" by code_simp
  let ?h = "handleClient sample_args 4 (Some (take 10 ?w)) (3 / 4) 0 [4]"
  have "case fst ?h of None \<Rightarrow> False | Some reply \<Rightarrow> reply \<noteq> [] \<and> length reply \<le> 8192" by code_simp
  then obtain reply count os where h: "?h = (Some reply, count, os)" and r: "reply \<noteq> []" "length reply \<le> 8192"
    by (cases ?h) (auto split: option.splits)
  let ?r = "[\<lparr>ri_remainingMs = 50, ri_ready = 1, ri_data = Some reply\<rparr>]"
  have "good_reads ?r" "received ?r = reply" using r by (simp_all add: good_reads_def received_def)
  from backend_exchange [OF m _ h s this f [symmetric] b] h show ?thesis by (simp add: t)
qed

end
