(* ===== verification/Process.thy ===== *)
theory Process
  imports Serving HealthChecker
begin

text \<open>
  The process: \<open>Gateway::run\<close>, \<open>stop\<close> and the metrics server of src/core/Gateway.cpp, and
  \<^verbatim>\<open>main\<close> of src/main.cpp. The threads take turns: a step is one callback or one tick of a
  worker, one batch of the metrics server, one sweep of the health checker, the start or the end
  of a thread, or \<open>stop\<close>. Steps of different threads come in any order.
\<close>

section \<open>The metrics server\<close>

record metrics_io =
  mi_uptimeAt :: time_ns
  mi_sends :: "int list"

definition metricsReply :: "(real \<Rightarrow> string) \<Rightarrow> time_ns \<Rightarrow> Gateway \<Rightarrow> string" where
  "metricsReply fmt now gw =
     (let uptime = real_of_int (now - gw_startTime gw) / 10 ^ 9;
          response = HttpMessage.make 200 ''OK'' (toPrometheusText fmt uptime (gw_metrics gw));
          response = setHeader response ''Content-Type'' ''text/plain; version=0.0.4; charset=utf-8'';
          response = setHeader response ''Connection'' ''close''
      in serialize response False)"

text \<open>
  The socket does not block: every \<^verbatim>\<open>send\<close> answers, and an answer that is not positive ends
  the loop. A script that ends stands for a send that would block. The result is what was sent.
\<close>

fun sendMetrics :: "string \<Rightarrow> nat \<Rightarrow> int list \<Rightarrow> string" where
  "sendMetrics wire sent ns =
     (if sent < length wire then
        (case ns of
           [] \<Rightarrow> take sent wire
         | n # ns \<Rightarrow> if n \<le> 0 then take sent wire else sendMetrics wire (sent + nat n) ns)
      else take sent wire)"

declare sendMetrics.simps [simp del]

definition metricsClient ::
  "(real \<Rightarrow> string) \<Rightarrow> fd \<Rightarrow> string \<Rightarrow> metrics_io \<Rightarrow> Gateway \<times> (fd \<times> string) list \<Rightarrow> (Gateway \<times> (fd \<times> string) list) outcome" where
  "metricsClient fmt fd ip io s =
     (case s of (gw, sent) \<Rightarrow>
        (let os = open_fd fd (gw_descs gw);
             wire = metricsReply fmt (mi_uptimeAt io) gw
         in Ret (gw\<lparr>gw_descs := close_fd fd os\<rparr>, sent @ [(fd, sendMetrics wire 0 (mi_sends io))])))"

section \<open>Threads\<close>

datatype worker_thread = WorkerNew | WorkerServing TcpServer fd Worker | WorkerDone

datatype metrics_thread = MetricsNew | MetricsServing TcpServer | MetricsDone

datatype crash = StartFailed | HandlerThrew | PollFailed

text \<open>
  \<open>ps_lost\<close> are the descriptors that no object owns any more, \<open>ps_scraped\<close> what the metrics
  server sent.
\<close>

record Process =
  ps_gw :: Gateway
  ps_workers :: "worker_thread list"
  ps_metrics :: metrics_thread
  ps_health :: bool
  ps_finished :: bool
  ps_crash :: "crash option"
  ps_lost :: "fd list"
  ps_scraped :: "(fd \<times> string) list"

text \<open>\<open>HealthChecker::start\<close> and \<open>HealthChecker::stop\<close>: the thread runs while the flag is set, and \<open>stop\<close> joins it.\<close>

definition health_start :: "Process \<Rightarrow> Process" where
  "health_start P = P\<lparr>ps_health := True\<rparr>"

definition health_stop :: "Process \<Rightarrow> Process" where
  "health_stop P = P\<lparr>ps_health := False\<rparr>"

definition run_begin :: "time_ns \<Rightarrow> Gateway \<Rightarrow> Process" where
  "run_begin now gw =
     health_start
     \<lparr>ps_gw = log_event_gw INFO ''gateway starting''
        (quoted ''port'' @ '':'' @ int_to_string (cf_listenPort (gw_cfg gw)) @ '','' @ quoted ''workers'' @ '':'' @
         int_to_string (cf_workerThreads (gw_cfg gw))) (gw\<lparr>gw_running := True, gw_startTime := now\<rparr>),
      ps_workers = replicate (nat (cf_workerThreads (gw_cfg gw))) WorkerNew, ps_metrics = MetricsNew,
      ps_health = False, ps_finished = False, ps_crash = None, ps_lost = [], ps_scraped = []\<rparr>"

definition stop :: "Process \<Rightarrow> Process" where
  "stop P =
     (if gw_running (ps_gw P) then health_stop (P\<lparr>ps_gw := (ps_gw P)\<lparr>gw_running := False\<rparr>\<rparr>) else P)"

definition run_end :: "Process \<Rightarrow> Process" where
  "run_end P =
     (case closeAll (gw_pool (ps_gw P)) (gw_descs (ps_gw P)) of
        (pool, os) \<Rightarrow> (health_stop P)\<lparr>ps_gw := (ps_gw P)\<lparr>gw_pool := pool, gw_descs := os\<rparr>, ps_finished := True\<rparr>)"

text \<open>A worker thread constructs its event loop and then starts; an exception ends the process.\<close>

definition workerBegin ::
  "(string \<Rightarrow> 32 word option) \<Rightarrow> nat \<Rightarrow> fd \<Rightarrow> listen_io \<Rightarrow> bool \<Rightarrow> Gateway \<Rightarrow> (worker_thread \<times> Gateway) run" where
  "workerBegin pton i epollFd lio refused gw =
     (case EventLoop_init epollFd of
        Throw \<Rightarrow> Thrown
      | Ret loop \<Rightarrow>
          bind_run (worker_start pton lio refused
                      (gw\<lparr>gw_descs := open_fd epollFd (gw_descs gw)\<rparr>,
                       \<lparr>wk_id = int i, wk_loop = loop, wk_conns = [], wk_wire = []\<rparr>))
            (\<lambda>(server, gw, wk). Ran (WorkerServing server epollFd wk, gw)))"

definition workerEnd :: "TcpServer \<Rightarrow> fd \<Rightarrow> Worker \<Rightarrow> Gateway \<Rightarrow> Gateway" where
  "workerEnd server epollFd wk gw =
     (let gw = fst (worker_shutdown (gw, wk))
      in gw\<lparr>gw_descs := close_fd epollFd (TcpServer_close server (gw_descs gw))\<rparr>)"

text \<open>\<open>what\<close> is the text of the exception. A constructor that throws loses the socket it opened.\<close>

definition metricsBegin ::
  "(string \<Rightarrow> 32 word option) \<Rightarrow> listen_io \<Rightarrow> string \<Rightarrow> Process \<Rightarrow> Process" where
  "metricsBegin pton lio what P =
     (let gw = ps_gw P
      in case TcpServer_init pton (cf_listenHost (gw_cfg gw)) (cf_metricsPort (gw_cfg gw)) lio (gw_descs gw) of
           (Throw, os) \<Rightarrow>
             P\<lparr>ps_gw := log_event_gw ERROR (''metrics server stopped: '' @ what) [] (gw\<lparr>gw_descs := os\<rparr>),
               ps_metrics := MetricsDone,
               ps_lost := (if li_socket lio < 0 then ps_lost P else li_socket lio # ps_lost P)\<rparr>
         | (Ret (server, addr), os) \<Rightarrow>
             P\<lparr>ps_gw := log_event_gw INFO ''metrics server started''
                 (quoted ''port'' @ '':'' @ int_to_string (cf_metricsPort (gw_cfg gw))) (gw\<lparr>gw_descs := os\<rparr>),
               ps_metrics := MetricsServing server\<rparr>)"

definition healthSweep :: "probe_io list \<Rightarrow> Gateway \<Rightarrow> Gateway" where
  "healthSweep ios gw =
     (case sweep ios (gw_allBackends gw) (gw_descs gw) of
        (bs, os, evs) \<Rightarrow> gw\<lparr>gw_allBackends := bs, gw_descs := os, gw_log := gw_log gw @ evs\<rparr>)"

text \<open>
  \<^verbatim>\<open>main\<close>: a configuration that cannot be loaded ends the program with exit code 1 before
  anything is opened.
\<close>

definition gateway_main :: "string option \<Rightarrow> time_ns \<Rightarrow> int + Process" where
  "gateway_main file now =
     (case loadFromFile file of Inl e \<Rightarrow> Inl 1 | Inr cfg \<Rightarrow> Inr (run_begin now (Gateway_init cfg)))"

section \<open>Steps\<close>

text \<open>
  What a step relies on is that the kernel hands out descriptors that are not open and accepts no
  more bytes than it was given. Every call may fail: whatever a constructor, a callback or
  \<^verbatim>\<open>epoll_wait\<close> makes a worker thread throw ends the process.
\<close>

definition fresh :: "fd \<Rightarrow> Gateway \<Rightarrow> bool" where
  "fresh fd gw \<longleftrightarrow> fd \<notin> set (gw_descs gw)"

definition set_worker :: "nat \<Rightarrow> worker_thread \<Rightarrow> Gateway \<Rightarrow> Process \<Rightarrow> Process" where
  "set_worker i t gw P = P\<lparr>ps_workers := (ps_workers P)[i := t], ps_gw := gw\<rparr>"

fun metrics_fresh :: "(accept_result \<times> metrics_io) list \<Rightarrow> Gateway \<Rightarrow> bool" where
  "metrics_fresh [] gw = True"
| "metrics_fresh ((Accepted fd ip, io) # rs) gw \<longleftrightarrow> fresh fd gw \<and> metrics_fresh rs gw"
| "metrics_fresh ((r, io) # rs) gw = metrics_fresh rs gw"

inductive process_step :: "(real \<Rightarrow> string) \<Rightarrow> (string \<Rightarrow> 32 word option) \<Rightarrow> Process \<Rightarrow> Process \<Rightarrow> bool" for fmt pton where
  worker_begins: "i < length (ps_workers P) \<Longrightarrow> ps_workers P ! i = WorkerNew \<Longrightarrow>
    fresh efd (ps_gw P) \<Longrightarrow> fresh (li_socket lio) (ps_gw P) \<Longrightarrow> li_socket lio \<noteq> efd \<Longrightarrow>
    workerBegin pton i efd lio refused (ps_gw P) = Ran (t, gw) \<Longrightarrow> process_step fmt pton P (set_worker i t gw P)"
| worker_fails: "i < length (ps_workers P) \<Longrightarrow> ps_workers P ! i = WorkerNew \<Longrightarrow>
    workerBegin pton i efd lio refused (ps_gw P) = Thrown \<Longrightarrow>
    process_step fmt pton P (P\<lparr>ps_crash := Some StartFailed\<rparr>)"
| worker_event: "i < length (ps_workers P) \<Longrightarrow> ps_workers P ! i = WorkerServing server efd wk \<Longrightarrow>
    callback_of (ps_gw P, wk) fd = Some cb \<Longrightarrow> kernel_contract fmt cb evs io (ps_gw P, wk) \<Longrightarrow>
    run_callback fmt cb evs io (ps_gw P, wk) = Ran (gw, wk') \<Longrightarrow>
    process_step fmt pton P (set_worker i (WorkerServing server efd wk') gw P)"
| worker_throws: "i < length (ps_workers P) \<Longrightarrow> ps_workers P ! i = WorkerServing server efd wk \<Longrightarrow>
    callback_of (ps_gw P, wk) fd = Some cb \<Longrightarrow> kernel_contract fmt cb evs io (ps_gw P, wk) \<Longrightarrow>
    run_callback fmt cb evs io (ps_gw P, wk) = Thrown \<Longrightarrow>
    process_step fmt pton P (P\<lparr>ps_crash := Some HandlerThrew\<rparr>)"
| poll_fails: "i < length (ps_workers P) \<Longrightarrow> ps_workers P ! i = WorkerServing server efd wk \<Longrightarrow>
    poll callback_of (run_callback fmt) (sweepIdleConnections now) WaitFailed (ps_gw P, wk) = Thrown \<Longrightarrow>
    process_step fmt pton P (P\<lparr>ps_crash := Some PollFailed\<rparr>)"
| worker_ticks: "i < length (ps_workers P) \<Longrightarrow> ps_workers P ! i = WorkerServing server efd wk \<Longrightarrow>
    sweepIdleConnections now (ps_gw P, wk) = (gw, wk') \<Longrightarrow>
    process_step fmt pton P (set_worker i (WorkerServing server efd wk') gw P)"
| worker_ends: "i < length (ps_workers P) \<Longrightarrow> ps_workers P ! i = WorkerServing server efd wk \<Longrightarrow>
    \<not> gw_running (ps_gw P) \<Longrightarrow>
    process_step fmt pton P (set_worker i WorkerDone (workerEnd server efd wk (ps_gw P)) P)"
| metrics_begins: "ps_metrics P = MetricsNew \<Longrightarrow> fresh (li_socket lio) (ps_gw P) \<Longrightarrow>
    process_step fmt pton P (metricsBegin pton lio what P)"
| metrics_serves: "ps_metrics P = MetricsServing server \<Longrightarrow> metrics_fresh rs (ps_gw P) \<Longrightarrow>
    acceptAll (metricsClient fmt) rs (ps_gw P, ps_scraped P) = Ran (gw, sent) \<Longrightarrow>
    process_step fmt pton P (P\<lparr>ps_gw := gw, ps_scraped := sent\<rparr>)"
| metrics_ends: "ps_metrics P = MetricsServing server \<Longrightarrow> \<not> gw_running (ps_gw P) \<Longrightarrow>
    process_step fmt pton P
      (P\<lparr>ps_gw := (ps_gw P)\<lparr>gw_descs := TcpServer_close server (gw_descs (ps_gw P))\<rparr>, ps_metrics := MetricsDone\<rparr>)"
| health_checks: "ps_health P \<Longrightarrow> length ios = length (gw_allBackends (ps_gw P)) \<Longrightarrow>
    \<forall>io \<in> set ios. fresh_socket (pr_dial io) (gw_descs (ps_gw P)) \<Longrightarrow>
    process_step fmt pton P (P\<lparr>ps_gw := healthSweep ios (ps_gw P)\<rparr>)"
| stops: "process_step fmt pton P (stop P)"
| finishes: "list_all (\<lambda>t. t = WorkerDone) (ps_workers P) \<Longrightarrow> ps_metrics P = MetricsDone \<Longrightarrow> \<not> ps_finished P \<Longrightarrow>
    process_step fmt pton P (run_end P)"

text \<open>The process runs until it has finished or crashed.\<close>

inductive process_reach :: "(real \<Rightarrow> string) \<Rightarrow> (string \<Rightarrow> 32 word option) \<Rightarrow> Process \<Rightarrow> Process \<Rightarrow> bool" for fmt pton P0 where
  begins: "process_reach fmt pton P0 P0"
| steps: "process_reach fmt pton P0 P \<Longrightarrow> ps_crash P = None \<Longrightarrow> \<not> ps_finished P \<Longrightarrow> process_step fmt pton P P' \<Longrightarrow>
    process_reach fmt pton P0 P'"

section \<open>Ownership of descriptors\<close>

definition rest :: "'a set list \<Rightarrow> nat \<Rightarrow> 'a set" where
  "rest Ss i = (\<Union>j \<in> {..<length Ss} - {i}. Ss ! j)"

definition apart :: "'a set list \<Rightarrow> bool" where
  "apart Ss \<longleftrightarrow> (\<forall>i < length Ss. Ss ! i \<inter> rest Ss i = {})"

lemma union_rest: "i < length Ss \<Longrightarrow> \<Union>(set Ss) = rest Ss i \<union> Ss ! i"
  by (force simp: rest_def set_conv_nth)

lemma rest_update [simp]: "rest (Ss[i := S]) i = rest Ss i"
  by (auto simp: rest_def nth_list_update)

lemma apart_update:
  assumes "apart Ss" and "i < length Ss" and "S \<inter> rest Ss i = {}"
  shows "apart (Ss[i := S])" and "\<Union>(set (Ss[i := S])) = rest Ss i \<union> S"
proof -
  show "\<Union>(set (Ss[i := S])) = rest Ss i \<union> S" using union_rest [of i "Ss[i := S]"] assms(2) by simp
  have sep: "Ss ! j \<inter> Ss ! k = {}" if "j < length Ss" "k < length Ss" "j \<noteq> k" for j k
    using assms(1) that by (fastforce simp: apart_def rest_def)
  have new: "S \<inter> Ss ! k = {}" if "k < length Ss" "k \<noteq> i" for k
    using assms(3) that by (fastforce simp: rest_def)
  show "apart (Ss[i := S])"
    unfolding apart_def
  proof (intro allI impI)
    fix j assume j: "j < length (Ss[i := S])"
    have "Ss[i := S] ! j \<inter> Ss[i := S] ! k = {}" if "k < length Ss" "k \<noteq> j" for k
      using sep [of j k] new [of j] new [of k] that j by (cases "j = i"; cases "k = i") (simp_all add: Int_commute)
    then show "Ss[i := S] ! j \<inter> rest (Ss[i := S]) j = {}" by (auto simp: rest_def)
  qed
qed

text \<open>What a worker thread owns, and the part of \<open>node_ok\<close> that concerns only the worker.\<close>

fun owns :: "worker_thread \<Rightarrow> fd set" where
  "owns (WorkerServing server efd wk) = {efd, ts_listenFd server} \<union> dom (map_of (wk_conns wk))"
| "owns t = {}"

fun clients :: "worker_thread \<Rightarrow> int" where
  "clients (WorkerServing server efd wk) = int (length (wk_conns wk))"
| "clients t = 0"

definition worker_ok :: "fd \<Rightarrow> Worker \<Rightarrow> bool" where
  "worker_ok L wk \<longleftrightarrow> el_ok (wk_loop wk) \<and> distinct (map fst (wk_conns wk)) \<and>
     map_of (el_callbacks (wk_loop wk)) = callbacks_of L (dom (map_of (wk_conns wk))) \<and>
     L \<notin> dom (map_of (wk_conns wk)) \<and> (\<forall>(fd, conn) \<in> set (wk_conns wk). 0 \<le> fd \<and> conn_ok fd conn)"

fun thread_ok :: "worker_thread \<Rightarrow> bool" where
  "thread_ok (WorkerServing server efd wk) \<longleftrightarrow> worker_ok (ts_listenFd server) wk \<and> 0 \<le> ts_listenFd server \<and> 0 \<le> efd \<and>
     efd \<noteq> ts_listenFd server \<and> efd \<notin> dom (map_of (wk_conns wk))"
| "thread_ok t \<longleftrightarrow> True"

fun metrics_owns :: "metrics_thread \<Rightarrow> fd set" where
  "metrics_owns (MetricsServing server) = {ts_listenFd server}"
| "metrics_owns t = {}"

lemma node_ok_worker:
  "node_ok L F base (gw, wk) \<longleftrightarrow> gw_wf gw \<and> worker_ok L wk \<and>
     outside (gw_pool gw) (gw_descs gw) = insert L F \<union> dom (map_of (wk_conns wk)) \<and>
     dom (map_of (wk_conns wk)) \<inter> F = {} \<and> gauge gw = base + int (length (wk_conns wk))"
  by (auto simp: node_ok_def worker_ok_def Let_def)

text \<open>
  Every descriptor outside the pool has one owner: the environment of the process, a lost socket,
  the metrics server or one worker.
\<close>

definition owners :: "fd set \<Rightarrow> Process \<Rightarrow> fd set list" where
  "owners F P = F # set (ps_lost P) # metrics_owns (ps_metrics P) # map owns (ps_workers P)"

definition process_ok :: "fd set \<Rightarrow> int \<Rightarrow> Process \<Rightarrow> bool" where
  "process_ok F base P \<longleftrightarrow> gw_wf (ps_gw P) \<and> list_all thread_ok (ps_workers P) \<and> apart (owners F P) \<and>
     outside (gw_pool (ps_gw P)) (gw_descs (ps_gw P)) = \<Union>(set (owners F P)) \<and>
     gauge (ps_gw P) = base + sum_list (map clients (ps_workers P)) \<and>
     (case ps_metrics P of MetricsServing server \<Rightarrow> 0 \<le> ts_listenFd server | _ \<Rightarrow> True) \<and>
     length (ps_lost P) \<le> (if ps_metrics P = MetricsDone then 1 else 0)"

text \<open>Seen from one worker, the rest of the process is the environment of its node.\<close>

lemma process_node:
  assumes "process_ok F base P" and "i < length (ps_workers P)" and "ps_workers P ! i = WorkerServing server efd wk"
  defines "R \<equiv> rest (owners F P) (Suc (Suc (Suc i)))"
  shows "node_ok (ts_listenFd server) (insert efd R) (gauge (ps_gw P) - int (length (wk_conns wk))) (ps_gw P, wk)"
    and "efd \<notin> R" and "ts_listenFd server \<notin> R" and "0 \<le> ts_listenFd server" and "0 \<le> efd"
    and "efd \<noteq> ts_listenFd server"
proof -
  let ?k = "Suc (Suc (Suc i))"
  have k: "?k < length (owners F P)" "owners F P ! ?k = owns (ps_workers P ! i)" using assms(2) by (simp_all add: owners_def)
  have t: "thread_ok (WorkerServing server efd wk)" using assms(1-3) by (metis process_ok_def list_all_length)
  have ap: "owns (ps_workers P ! i) \<inter> R = {}" using assms(1) k unfolding R_def process_ok_def apart_def by metis
  have out: "outside (gw_pool (ps_gw P)) (gw_descs (ps_gw P)) = R \<union> owns (ps_workers P ! i)"
    using assms(1) union_rest [OF k(1)] k(2) by (simp add: process_ok_def R_def)
  show "efd \<notin> R" "ts_listenFd server \<notin> R" using ap assms(3) by auto
  show "0 \<le> ts_listenFd server" "0 \<le> efd" "efd \<noteq> ts_listenFd server" using t by simp_all
  show "node_ok (ts_listenFd server) (insert efd R) (gauge (ps_gw P) - int (length (wk_conns wk))) (ps_gw P, wk)"
    unfolding node_ok_worker using assms(1,3) t ap out by (auto simp: process_ok_def)
qed

lemma owners_set_worker:
  "i < length (ps_workers P) \<Longrightarrow> owners F (set_worker i t gw P) = (owners F P)[Suc (Suc (Suc i)) := owns t]"
  by (simp add: owners_def set_worker_def map_update)

lemma sum_replace: "i < length xs \<Longrightarrow> sum_list (xs[i := x]) = sum_list xs + x - xs ! i" for x :: int
  by (induction xs arbitrary: i) (auto simp: nth_Cons split: nat.splits)

text \<open>A worker that is replaced by one that owns nothing of the rest keeps the process in order.\<close>

lemma process_replace:
  assumes "process_ok F base P" and "i < length (ps_workers P)" and "gw_wf gw" and "thread_ok t"
  defines "R \<equiv> rest (owners F P) (Suc (Suc (Suc i)))"
  assumes "outside (gw_pool gw) (gw_descs gw) = R \<union> owns t" and "owns t \<inter> R = {}"
    and "gauge gw = gauge (ps_gw P) - clients (ps_workers P ! i) + clients t"
  shows "process_ok F base (set_worker i t gw P)"
proof -
  let ?k = "Suc (Suc (Suc i))"
  have k: "?k < length (owners F P)" using assms(2) by (simp add: owners_def)
  have "apart (owners F P)" using assms(1) by (simp add: process_ok_def)
  note up = apart_update [OF this k assms(7) [unfolded R_def]]
  have th: "list_all thread_ok ((ps_workers P)[i := t])"
    using assms(1,4) set_update_subset_insert [of "ps_workers P" i t] by (auto simp: process_ok_def list_all_iff)
  have "sum_list (map clients ((ps_workers P)[i := t])) = sum_list (map clients (ps_workers P)) + clients t - clients (ps_workers P ! i)"
    using assms(2) by (simp add: map_update sum_replace)
  with assms(1) have g: "gauge gw = base + sum_list (map clients ((ps_workers P)[i := t]))"
    using assms(8) by (simp add: process_ok_def)
  have "ps_workers (set_worker i t gw P) = (ps_workers P)[i := t]" "ps_gw (set_worker i t gw P) = gw"
    "ps_metrics (set_worker i t gw P) = ps_metrics P" "ps_lost (set_worker i t gw P) = ps_lost P"
    by (simp_all add: set_worker_def)
  with assms(1,3,6) th g up owners_set_worker [OF assms(2), of F t gw] show ?thesis
    by (simp add: process_ok_def R_def)
qed

lemma node_replace:
  assumes "process_ok F base P" and "i < length (ps_workers P)" and "ps_workers P ! i = WorkerServing server efd wk"
    and "\<And>F b. node_ok (ts_listenFd server) F b (ps_gw P, wk) \<Longrightarrow> node_ok (ts_listenFd server) F b (gw, wk')"
  shows "process_ok F base (set_worker i (WorkerServing server efd wk') gw P)"
proof -
  note pn = process_node [OF assms(1-3)]
  let ?R = "rest (owners F P) (Suc (Suc (Suc i)))" and ?L = "ts_listenFd server"
  have n: "gw_wf gw" "worker_ok ?L wk'" "outside (gw_pool gw) (gw_descs gw) = insert ?L (insert efd ?R) \<union> dom (map_of (wk_conns wk'))"
    "dom (map_of (wk_conns wk')) \<inter> insert efd ?R = {}" "gauge gw = gauge (ps_gw P) - int (length (wk_conns wk)) + int (length (wk_conns wk'))"
    using assms(4) [OF pn(1)] unfolding node_ok_worker by blast+
  show ?thesis
  proof (rule process_replace [OF assms(1,2) n(1)])
    show "thread_ok (WorkerServing server efd wk')" using n(2,4) pn by auto
    show "outside (gw_pool gw) (gw_descs gw) = ?R \<union> owns (WorkerServing server efd wk')" unfolding n(3) by auto
    show "owns (WorkerServing server efd wk') \<inter> ?R = {}" using n(4) pn by auto
    show "gauge gw = gauge (ps_gw P) - clients (ps_workers P ! i) + clients (WorkerServing server efd wk')"
      using n(5) assms(3) by simp
  qed
qed

section \<open>Every step keeps the process in order\<close>

lemma begin_ok:
  assumes "process_ok F base P" and "i < length (ps_workers P)" and "ps_workers P ! i = WorkerNew"
    and "fresh efd (ps_gw P)" and "fresh (li_socket lio) (ps_gw P)" and "li_socket lio \<noteq> efd"
    and "workerBegin pton i efd lio refused (ps_gw P) = Ran (t, gw)"
  shows "process_ok F base (set_worker i t gw P)"
proof -
  let ?gw = "ps_gw P" and ?R = "rest (owners F P) (Suc (Suc (Suc i)))"
  let ?gw1 = "?gw\<lparr>gw_descs := open_fd efd (gw_descs ?gw)\<rparr>"
  obtain loop server wk where l: "EventLoop_init efd = Ret loop"
    and st: "worker_start pton lio refused (?gw1, \<lparr>wk_id = int i, wk_loop = loop, wk_conns = [], wk_wire = []\<rparr>) = Ran (server, gw, wk)"
    and t: "t = WorkerServing server efd wk"
    using assms(7) by (auto simp: workerBegin_def bind_run_Ran split: outcome.splits)
  have loop: "el_callbacks loop = []" "el_interest loop = []" "0 \<le> efd"
    using l by (auto simp: EventLoop_init_def split: if_splits)
  have wf: "gw_wf ?gw" using assms(1) by (simp add: process_ok_def)
  then have own: "efd \<notin> set (owned (gw_pool ?gw))" using assms(4) by (auto simp: gw_wf_def pool_ok_def fresh_def)
  have wf1: "gw_wf ?gw1" using wf by (auto simp: gw_wf_def pool_ok_def)
  have out1: "outside (gw_pool ?gw1) (gw_descs ?gw1) = insert efd (outside (gw_pool ?gw) (gw_descs ?gw))"
    using own by (auto simp: outside_def)
  have new: "worker_new \<lparr>wk_id = int i, wk_loop = loop, wk_conns = [], wk_wire = []\<rparr>" using loop by (simp add: worker_new_def)
  have "li_socket lio \<notin> set (gw_descs ?gw1)" using assms(5,6) by (simp add: fresh_def)
  note n = worker_start_ok [OF wf1 new this st]
  have c: "wk_conns wk = []"
    using st by (auto simp: worker_start_def TcpServer_init_def Let_def split: if_splits outcome.splits)
  have g: "gauge ?gw1 = gauge ?gw" by simp
  note n1 = n(1) [unfolded node_ok_worker out1 c g]
  have k: "Suc (Suc (Suc i)) < length (owners F P)" "owners F P ! Suc (Suc (Suc i)) = {}"
    using assms(2,3) by (simp_all add: owners_def)
  have out: "outside (gw_pool ?gw) (gw_descs ?gw) = ?R"
    using assms(1) union_rest [OF k(1)] k(2) by (simp add: process_ok_def)
  have "efd \<notin> ?R" "li_socket lio \<notin> ?R" using assms(4,5) unfolding out [symmetric] by (auto simp: fresh_def outside_def)
  moreover have "ts_listenFd server = li_socket lio" "0 \<le> li_socket lio" by (fact n)+
  ultimately show ?thesis
    using n1 loop(3) assms(3,6) c
    by (intro process_replace [OF assms(1,2)]) (auto simp: t out)
qed

lemma end_ok:
  assumes "process_ok F base P" and "i < length (ps_workers P)" and "ps_workers P ! i = WorkerServing server efd wk"
  shows "process_ok F base (set_worker i WorkerDone (workerEnd server efd wk (ps_gw P)) P)"
proof -
  note pn = process_node [OF assms]
  let ?R = "rest (owners F P) (Suc (Suc (Suc i)))" and ?L = "ts_listenFd server"
  obtain gw wk1 where s: "worker_shutdown (ps_gw P, wk) = (gw, wk1)" by fastforce
  note sd = worker_shutdown_ok [OF pn(1), unfolded s snd_conv]
  have L: "?L \<notin> insert efd ?R" using pn by auto
  let ?os = "TcpServer_close server (gw_descs gw)"
  note cl = close_listener [OF sd L pn(4) refl]
  have p: "pool_ok (gw_pool gw) ?os" using cl(2) by (simp add: gw_wf_def)
  have "efd \<in> outside (gw_pool gw) ?os" using cl(1) by simp
  note dis = discard_owner [OF p pn(5) this]
  have d: "close_fd efd ?os = discard efd ?os" using pn(5) by (simp add: discard_def)
  have we: "workerEnd server efd wk (ps_gw P) = gw\<lparr>gw_descs := discard efd ?os\<rparr>"
    by (simp add: workerEnd_def s Let_def d)
  show ?thesis
    unfolding we
  proof (rule process_replace [OF assms(1,2)])
    show "gw_wf (gw\<lparr>gw_descs := discard efd ?os\<rparr>)" using cl(2) dis(1) by (simp add: gw_wf_def)
    show "outside (gw_pool (gw\<lparr>gw_descs := discard efd ?os\<rparr>)) (gw_descs (gw\<lparr>gw_descs := discard efd ?os\<rparr>)) = ?R \<union> owns WorkerDone"
      using dis(2) cl(1) pn(2) by simp
    show "gauge (gw\<lparr>gw_descs := discard efd ?os\<rparr>) = gauge (ps_gw P) - clients (ps_workers P ! i) + clients WorkerDone"
      using sd assms(3) unfolding node_ok_worker by simp
  qed simp_all
qed

lemma metrics_serve_same:
  "metrics_fresh rs gw \<Longrightarrow> acceptAll (metricsClient fmt) rs (gw, sent) = Ran (gw', sent') \<Longrightarrow> gw' = gw"
proof (induction rs arbitrary: sent)
  case (Cons r rs)
  obtain a io where r: "r = (a, io)" by fastforce
  show ?case
  proof (cases a)
    case (Accepted fd ip)
    then have "metricsClient fmt fd ip io (gw, sent) = Ret (gw, sent @ [(fd, sendMetrics (metricsReply fmt (mi_uptimeAt io) gw) 0 (mi_sends io))])"
      using Cons.prems(1) r by (simp add: metricsClient_def fresh_def Let_def)
    with Cons r Accepted show ?thesis by simp
  qed (use Cons r in auto)
qed simp

text \<open>A step that changes only the gateway, and of the gateway nothing that the invariant reads.\<close>

definition same_resources :: "Gateway \<Rightarrow> Gateway \<Rightarrow> bool" where
  "same_resources gw gw' \<longleftrightarrow> gw_wf gw' \<and> gauge gw' = gauge gw \<and>
     outside (gw_pool gw') (gw_descs gw') = outside (gw_pool gw) (gw_descs gw)"

lemma process_gw:
  assumes "process_ok F base P" and "same_resources (ps_gw P) gw"
    and "ps_workers P' = ps_workers P" "ps_metrics P' = ps_metrics P" "ps_lost P' = ps_lost P" "ps_gw P' = gw"
  shows "process_ok F base P'"
proof -
  have "owners F P' = owners F P" using assms(3-5) by (simp add: owners_def)
  with assms show ?thesis by (simp add: process_ok_def same_resources_def)
qed

lemma health_same:
  assumes "gw_wf gw" and "length ios = length (gw_allBackends gw)" and "\<forall>io \<in> set ios. fresh_socket (pr_dial io) (gw_descs gw)"
  shows "same_resources gw (healthSweep ios gw)"
proof -
  let ?bs = "map2 (\<lambda>io b. b\<lparr>be_healthy := probe_up io\<rparr>) ios (gw_allBackends gw)"
  have "\<forall>b \<in> set ?bs. cb_inv (be_circuitBreaker b)"
    using assms(1) by (auto simp: gw_wf_def dest: set_zip_rightD)
  moreover have "length ?bs = length (gw_allBackends gw)" using assms(2) by simp
  moreover have "healthSweep ios gw = gw\<lparr>gw_allBackends := ?bs, gw_log := gw_log gw @ snd (snd (sweep ios (gw_allBackends gw) (gw_descs gw)))\<rparr>"
    using sweep_result [OF assms(2,3)] by (simp add: healthSweep_def)
  ultimately show ?thesis using assms(1) by (simp add: same_resources_def gw_wf_def)
qed

lemma open_listener:
  assumes "gw_wf gw" and "fresh fd gw" and "gw' = log_event_gw lvl msg flds (gw\<lparr>gw_descs := open_fd fd (gw_descs gw)\<rparr>)"
  shows "gw_wf gw'" and "outside (gw_pool gw') (gw_descs gw') = insert fd (outside (gw_pool gw) (gw_descs gw))"
    and "gauge gw' = gauge gw"
proof -
  have own: "fd \<notin> set (owned (gw_pool gw))" using assms(1,2) by (auto simp: gw_wf_def pool_ok_def fresh_def)
  show "gw_wf gw'" using assms(1) by (auto simp: assms(3) log_event_gw_def gw_wf_def pool_ok_def)
  show "outside (gw_pool gw') (gw_descs gw') = insert fd (outside (gw_pool gw) (gw_descs gw))"
    using own by (auto simp: assms(3) log_event_gw_def outside_def)
  show "gauge gw' = gauge gw" by (simp add: assms(3) log_event_gw_def)
qed

text \<open>A new owner takes the place of one that owned nothing.\<close>

lemma process_owner:
  assumes "process_ok F base P" and "k < length (owners F P)" and "owners F P ! k = {}" and "fresh fd (ps_gw P)"
    and "gw_wf gw" and "outside (gw_pool gw) (gw_descs gw) = insert fd (outside (gw_pool (ps_gw P)) (gw_descs (ps_gw P)))"
    and "owners F P' = (owners F P)[k := {fd}]" and "ps_gw P' = gw" and "gauge gw = gauge (ps_gw P)"
    and "ps_workers P' = ps_workers P"
    and "case ps_metrics P' of MetricsServing server \<Rightarrow> 0 \<le> ts_listenFd server | _ \<Rightarrow> True"
    and "length (ps_lost P') \<le> (if ps_metrics P' = MetricsDone then 1 else 0)"
  shows "process_ok F base P'"
proof -
  have out: "outside (gw_pool (ps_gw P)) (gw_descs (ps_gw P)) = rest (owners F P) k"
    using assms(1,3) union_rest [OF assms(2)] by (simp add: process_ok_def)
  have "{fd} \<inter> rest (owners F P) k = {}" using assms(4) unfolding out [symmetric] by (auto simp: fresh_def outside_def)
  moreover have "apart (owners F P)" using assms(1) by (simp add: process_ok_def)
  ultimately have "apart (owners F P')" "\<Union>(set (owners F P')) = insert fd (rest (owners F P) k)"
    using apart_update [of "owners F P" k "{fd}"] assms(2,7) by simp_all
  with assms(1,5,6,8-12) out show ?thesis by (simp add: process_ok_def)
qed

lemma metrics_begin_ok:
  assumes "process_ok F base P" and "ps_metrics P = MetricsNew" and "fresh (li_socket lio) (ps_gw P)"
  shows "process_ok F base (metricsBegin pton lio what P)"
proof -
  let ?P = "metricsBegin pton lio what P" and ?gw = "ps_gw P"
  have wf: "gw_wf ?gw" and lost: "ps_lost P = []" using assms(1,2) by (simp_all add: process_ok_def)
  have k: "1 < length (owners F P)" "owners F P ! 1 = {}" "2 < length (owners F P)" "owners F P ! 2 = {}"
    using assms(2) lost by (simp_all add: owners_def numeral_2_eq_2)
  consider (none) "li_socket lio < 0" | (lost) "0 \<le> li_socket lio" "li_bind lio < 0 \<or> li_listen lio < 0"
    | (served) "0 \<le> li_socket lio" "0 \<le> li_bind lio" "0 \<le> li_listen lio" by linarith
  then show ?thesis
  proof cases
    case none
    then have "?P = P\<lparr>ps_gw := log_event_gw ERROR (''metrics server stopped: '' @ what) [] ?gw, ps_metrics := MetricsDone\<rparr>"
      by (simp add: metricsBegin_def TcpServer_init_def)
    with assms(1,2) \<open>ps_lost P = []\<close> show ?thesis
      by (simp add: process_ok_def owners_def log_event_gw_def gw_wf_def)
  next
    case lost
    define gw where "gw = log_event_gw ERROR (''metrics server stopped: '' @ what) [] (?gw\<lparr>gw_descs := open_fd (li_socket lio) (gw_descs ?gw)\<rparr>)"
    have P: "?P = P\<lparr>ps_gw := gw, ps_metrics := MetricsDone, ps_lost := [li_socket lio]\<rparr>"
      using lost \<open>ps_lost P = []\<close> by (auto simp: metricsBegin_def TcpServer_init_def Let_def gw_def)
    note op = open_listener [OF wf assms(3) gw_def]
    show ?thesis
      unfolding P by (rule process_owner [OF assms(1) k(1,2) assms(3) op(1,2)]) (simp_all add: owners_def op(3) assms(2))
  next
    case served
    define gw where "gw = log_event_gw INFO ''metrics server started''
      (quoted ''port'' @ '':'' @ int_to_string (cf_metricsPort (gw_cfg ?gw))) (?gw\<lparr>gw_descs := open_fd (li_socket lio) (gw_descs ?gw)\<rparr>)"
    have P: "?P = P\<lparr>ps_gw := gw, ps_metrics := MetricsServing \<lparr>ts_listenFd = li_socket lio\<rparr>\<rparr>"
      using served by (simp add: metricsBegin_def TcpServer_init_def Let_def gw_def)
    note op = open_listener [OF wf assms(3) gw_def]
    show ?thesis
      unfolding P by (rule process_owner [OF assms(1) k(3,4) assms(3) op(1,2)])
        (simp_all add: owners_def op(3) served \<open>ps_lost P = []\<close> numeral_2_eq_2)
  qed
qed

lemma metrics_end_ok:
  assumes "process_ok F base P" and "ps_metrics P = MetricsServing server"
  shows "process_ok F base (P\<lparr>ps_gw := (ps_gw P)\<lparr>gw_descs := TcpServer_close server (gw_descs (ps_gw P))\<rparr>, ps_metrics := MetricsDone\<rparr>)"
    (is "process_ok F base ?P")
proof -
  let ?gw = "ps_gw P" and ?L = "ts_listenFd server" and ?R = "rest (owners F P) 2"
  have k: "2 < length (owners F P)" "owners F P ! 2 = {?L}" using assms(2) by (simp_all add: owners_def numeral_2_eq_2)
  have L: "0 \<le> ?L" and wf: "gw_wf ?gw" and ap: "apart (owners F P)" using assms by (simp_all add: process_ok_def)
  have sep: "?L \<notin> ?R" using ap k by (force simp: apart_def)
  have out: "outside (gw_pool ?gw) (gw_descs ?gw) = insert ?L ?R"
    using assms(1) union_rest [OF k(1)] k(2) by (simp add: process_ok_def)
  have p: "pool_ok (gw_pool ?gw) (gw_descs ?gw)" using wf by (simp add: gw_wf_def)
  note dis = discard_owner [OF p L, unfolded out, OF insertI1]
  have d: "TcpServer_close server (gw_descs ?gw) = discard ?L (gw_descs ?gw)" using L by (simp add: TcpServer_close_def discard_def)
  have "owners F ?P = (owners F P)[2 := {}]" by (simp add: owners_def numeral_2_eq_2)
  moreover note apart_update [OF ap k(1), of "{}"]
  ultimately have "apart (owners F ?P)" "\<Union>(set (owners F ?P)) = ?R" by simp_all
  then show ?thesis using assms wf dis sep by (simp add: process_ok_def d gw_wf_def)
qed

lemma process_step_ok:
  assumes "process_step fmt pton P P'" and "process_ok F base P" and "\<not> ps_finished P" and "\<not> ps_finished P'"
  shows "process_ok F base P'"
  using assms
proof (induction rule: process_step.induct)
  case (worker_begins i P efd lio refused t gw)
  show ?case by (rule begin_ok [OF worker_begins.prems(1) worker_begins.hyps])
next
  case (worker_fails i P efd lio refused)
  then show ?case by (intro process_gw [OF worker_fails.prems(1)]) (simp_all add: same_resources_def process_ok_def)
next
  case (worker_event i P server efd wk fd cb evs io gw wk')
  show ?case
    by (rule node_replace [OF worker_event.prems(1) worker_event.hyps(1,2)])
      (rule run_callback_kernel(2) [OF _ worker_event.hyps(4,5)])
next
  case (worker_throws i P server efd wk fd cb evs io)
  then show ?case by (intro process_gw [OF worker_throws.prems(1)]) (simp_all add: same_resources_def process_ok_def)
next
  case (poll_fails i P server efd wk now)
  then show ?case by (intro process_gw [OF poll_fails.prems(1)]) (simp_all add: same_resources_def process_ok_def)
next
  case (worker_ticks i P server efd wk now gw wk')
  have "node_ok (ts_listenFd server) F' b (gw, wk')" if "node_ok (ts_listenFd server) F' b (ps_gw P, wk)" for F' b
    using close_all_ok [OF that, of "idle_fds now wk"] worker_ticks.hyps(3) by (simp add: sweepIdleConnections_def)
  then show ?case by (rule node_replace [OF worker_ticks.prems(1) worker_ticks.hyps(1,2)])
next
  case (worker_ends i P server efd wk)
  show ?case by (rule end_ok [OF worker_ends.prems(1) worker_ends.hyps(1,2)])
next
  case (metrics_begins P lio what)
  show ?case by (rule metrics_begin_ok [OF metrics_begins.prems(1) metrics_begins.hyps])
next
  case (metrics_serves P server rs gw sent)
  have "gw = ps_gw P" by (rule metrics_serve_same [OF metrics_serves.hyps(2,3)])
  then show ?case
    using metrics_serves.prems(1) by (intro process_gw [OF metrics_serves.prems(1)]) (simp_all add: same_resources_def process_ok_def)
next
  case (metrics_ends P server)
  show ?case by (rule metrics_end_ok [OF metrics_ends.prems(1) metrics_ends.hyps(1)])
next
  case (health_checks P ios)
  have "gw_wf (ps_gw P)" using health_checks.prems(1) by (simp add: process_ok_def)
  from health_same [OF this health_checks.hyps(2,3)] show ?case
    by (intro process_gw [OF health_checks.prems(1)]) simp_all
next
  case (stops P)
  then show ?case
    by (intro process_gw [OF stops.prems(1), of "ps_gw (stop P)"]) (simp_all add: same_resources_def process_ok_def stop_def health_stop_def gw_wf_def)
next
  case (finishes P)
  then show ?case by (simp add: run_end_def health_stop_def split: prod.splits)
qed

section \<open>Whole runs\<close>

lemma run_begin_ok:
  assumes "gw_wf gw"
  shows "process_ok (outside (gw_pool gw) (gw_descs gw)) (gauge gw) (run_begin now gw)"
proof -
  let ?F = "outside (gw_pool gw) (gw_descs gw)" and ?n = "nat (cf_workerThreads (gw_cfg gw))"
  have ow: "owners ?F (run_begin now gw) = ?F # replicate (Suc (Suc ?n)) {}" by (simp add: owners_def run_begin_def health_start_def)
  have "apart (?F # replicate m {})" for m
    by (auto simp: apart_def rest_def nth_Cons split: nat.splits)
  from this [of "Suc (Suc ?n)"] have "apart (?F # replicate (Suc (Suc ?n)) {})" .
  moreover have "\<Union>(set (?F # replicate (Suc (Suc ?n)) {})) = ?F" by (simp add: set_replicate_conv_if)
  ultimately show ?thesis
    using assms unfolding process_ok_def ow
    by (simp add: run_begin_def health_start_def log_event_gw_def gw_wf_def list_all_iff map_replicate sum_list_replicate)
qed

lemma step_finished:
  assumes "process_step fmt pton P P'" and "\<not> ps_finished P" and "ps_finished P'"
  shows "P' = run_end P" and "list_all (\<lambda>t. t = WorkerDone) (ps_workers P)" and "ps_metrics P = MetricsDone"
proof -
  have "P' = run_end P \<and> list_all (\<lambda>t. t = WorkerDone) (ps_workers P) \<and> ps_metrics P = MetricsDone"
    using assms
    by (induction rule: process_step.induct)
      (simp_all add: set_worker_def metricsBegin_def stop_def health_stop_def Let_def split: prod.splits outcome.splits if_splits)
  then show "P' = run_end P" "list_all (\<lambda>t. t = WorkerDone) (ps_workers P)" "ps_metrics P = MetricsDone" by blast+
qed

lemma all_done: "list_all (\<lambda>t. t = WorkerDone) ts \<Longrightarrow> \<Union>(owns ` set ts) = {} \<and> sum_list (map clients ts) = 0"
  by (induction ts) auto

lemma run_end_ok:
  assumes "process_ok F base P" and "list_all (\<lambda>t. t = WorkerDone) (ps_workers P)" and "ps_metrics P = MetricsDone"
  shows "set (gw_descs (ps_gw (run_end P))) = F \<union> set (ps_lost P)" and "gauge (ps_gw (run_end P)) = base"
    and "length (ps_lost P) \<le> 1" and "ps_lost (run_end P) = ps_lost P"
proof -
  have own: "\<Union>(owns ` set (ps_workers P)) = {}" "sum_list (map clients (ps_workers P)) = 0"
    using all_done [OF assms(2)] by blast+
  have "outside (gw_pool (ps_gw P)) (gw_descs (ps_gw P)) = F \<union> set (ps_lost P)"
    using assms(1,3) own(1) by (simp add: process_ok_def owners_def)
  with pool_close_all [of "gw_pool (ps_gw P)" "gw_descs (ps_gw P)"]
  show "set (gw_descs (ps_gw (run_end P))) = F \<union> set (ps_lost P)" by (simp add: run_end_def health_stop_def case_prod_unfold)
  show "gauge (ps_gw (run_end P)) = base" "length (ps_lost P) \<le> 1" "ps_lost (run_end P) = ps_lost P"
    using assms(1,3) own(2) by (simp_all add: process_ok_def run_end_def health_stop_def split: prod.splits)
qed

lemma reach_inv:
  assumes "process_reach fmt pton P0 P" and "process_ok F base P0" and "\<not> ps_finished P0"
  shows "\<not> ps_finished P \<Longrightarrow> process_ok F base P"
    and "ps_finished P \<Longrightarrow> set (gw_descs (ps_gw P)) = F \<union> set (ps_lost P) \<and> gauge (ps_gw P) = base \<and> length (ps_lost P) \<le> 1"
proof -
  have "(\<not> ps_finished P \<longrightarrow> process_ok F base P) \<and>
    (ps_finished P \<longrightarrow> set (gw_descs (ps_gw P)) = F \<union> set (ps_lost P) \<and> gauge (ps_gw P) = base \<and> length (ps_lost P) \<le> 1)"
    using assms
  proof (induction rule: process_reach.induct)
    case (steps P P')
    have ok: "process_ok F base P" using steps by blast
    show ?case
    proof (cases "ps_finished P'")
      case True
      note fin = step_finished [OF steps.hyps(4,3) True]
      show ?thesis using run_end_ok [OF ok fin(2,3)] True unfolding fin(1) by simp
    next
      case False
      with process_step_ok [OF steps.hyps(4) ok steps.hyps(3)] show ?thesis by simp
    qed
  qed simp
  then show "\<not> ps_finished P \<Longrightarrow> process_ok F base P"
    and "ps_finished P \<Longrightarrow> set (gw_descs (ps_gw P)) = F \<union> set (ps_lost P) \<and> gauge (ps_gw P) = base \<and> length (ps_lost P) \<le> 1"
    by blast+
qed

lemma fold_frame: "(\<And>x s. k (f x s) = k s) \<Longrightarrow> k (fold f xs s) = k s"
  by (induction xs arbitrary: s) simp_all

lemma gateway_init_fresh:
  "gw_descs (Gateway_init cfg) = [] \<and> gauge (Gateway_init cfg) = 0 \<and> gw_cfg (Gateway_init cfg) = cfg"
proof -
  define k where "k gw = (gw_descs gw, gw_metrics gw, gw_cfg gw)" for gw :: Gateway
  have "k (add_route r gw) = k gw" "k (add_group g gw) = k gw" for r g gw
    by (simp_all add: k_def add_route_def add_group_def log_event_gw_def Let_def split: option.split)
  then have "k (fold add_route rs gw) = k gw" "k (fold add_group gs gw) = k gw" for rs gs gw
    by (simp_all add: fold_frame)
  then have "k (buildRouter gw) = k gw" for gw by (simp add: buildRouter_def)
  then show ?thesis unfolding Gateway_init_def by (simp add: k_def Metrics_init_def)
qed

lemma main_begin_ok:
  assumes "gateway_main file now = Inr P0"
  shows "process_ok {} 0 P0" and "\<not> ps_finished P0" and "ps_crash P0 = None" and "ps_workers P0 \<noteq> []"
proof -
  obtain cfg where cfg: "loadFromFile file = Inr cfg" and P0: "P0 = run_begin now (Gateway_init cfg)"
    using assms by (auto simp: gateway_main_def split: sum.splits)
  note fr = gateway_init_fresh [of cfg]
  have "gw_wf (Gateway_init cfg)" using Gateway_init_wf by blast
  from run_begin_ok [OF this, of now] fr show "process_ok {} 0 P0" by (simp add: P0 outside_def)
  show "\<not> ps_finished P0" "ps_crash P0 = None" by (simp_all add: P0 run_begin_def health_start_def)
  have "validate cfg = None" using cfg by (auto simp: loadFromFile_def Let_def split: option.splits)
  then have "0 < cf_workerThreads cfg" by (auto simp: validate_def bad_values_def split: if_splits)
  with fr show "ps_workers P0 \<noteq> []" by (simp add: P0 run_begin_def health_start_def)
qed

section \<open>Shutting down\<close>

text \<open>How many threads are still serving.\<close>

definition serving :: "Process \<Rightarrow> nat" where
  "serving P = length (filter (\<lambda>t. t \<noteq> WorkerDone) (ps_workers P))"

lemma serving_less:
  assumes "i < length ts" and "ts ! i \<noteq> WorkerDone"
  shows "length (filter (\<lambda>t. t \<noteq> WorkerDone) (ts[i := WorkerDone])) < length (filter (\<lambda>t. t \<noteq> WorkerDone) ts)"
  using assms by (induction ts arbitrary: i) (auto simp: nth_Cons split: nat.splits)

lemma worker_shutdown_running: "gw_running (fst (worker_shutdown s)) = gw_running (fst s)"
proof -
  have "gw_running (fst (closeConnection fd s)) = gw_running (fst s)" for fd s
    by (simp add: closeConnection_def metric_def split: prod.splits option.splits)
  then show ?thesis
    unfolding worker_shutdown_def by (rule fold_frame [where k = "\<lambda>s. gw_running (fst s)"])
qed

lemma workers_end:
  assumes "process_reach fmt pton P0 P" and "ps_crash P = None" and "\<not> ps_finished P" and "\<not> gw_running (ps_gw P)"
    and "WorkerNew \<notin> set (ps_workers P)"
  shows "\<exists>Q. process_reach fmt pton P0 Q \<and> ps_crash Q = None \<and> \<not> ps_finished Q \<and> \<not> gw_running (ps_gw Q) \<and>
    list_all (\<lambda>t. t = WorkerDone) (ps_workers Q) \<and> ps_metrics Q = ps_metrics P"
  using assms
proof (induction "serving P" arbitrary: P rule: less_induct)
  case less
  show ?case
  proof (cases "list_all (\<lambda>t. t = WorkerDone) (ps_workers P)")
    case False
    then obtain i where i: "i < length (ps_workers P)" "ps_workers P ! i \<noteq> WorkerDone" by (auto simp: list_all_length)
    then obtain server efd wk where w: "ps_workers P ! i = WorkerServing server efd wk"
      using less.prems(5) by (cases "ps_workers P ! i") (auto simp: in_set_conv_nth)
    let ?Q = "set_worker i WorkerDone (workerEnd server efd wk (ps_gw P)) P"
    have "process_reach fmt pton P0 ?Q" by (rule steps [OF less.prems(1-3) worker_ends [OF i(1) w less.prems(4)]])
    moreover have "serving ?Q < serving P" using serving_less [OF i] by (simp add: serving_def set_worker_def)
    moreover have "ps_crash ?Q = None" "\<not> ps_finished ?Q" "ps_metrics ?Q = ps_metrics P"
      using less.prems by (simp_all add: set_worker_def)
    moreover have "\<not> gw_running (ps_gw ?Q)"
      using less.prems(4) worker_shutdown_running [of "(ps_gw P, wk)"] by (simp add: set_worker_def workerEnd_def Let_def)
    moreover have "WorkerNew \<notin> set (ps_workers ?Q)"
      using less.prems(5) set_update_subset_insert [of "ps_workers P" i WorkerDone] by (auto simp: set_worker_def)
    ultimately show ?thesis using less.hyps [of ?Q] by metis
  qed (use less.prems in blast)
qed

lemma can_finish:
  assumes "process_reach fmt pton P0 P" and "ps_crash P = None" and "\<not> ps_finished P"
    and "WorkerNew \<notin> set (ps_workers P)" and "ps_metrics P \<noteq> MetricsNew"
  shows "\<exists>Q. process_reach fmt pton P0 Q \<and> ps_crash Q = None \<and> ps_finished Q"
proof -
  have st: "ps_crash (stop P) = None" "\<not> ps_finished (stop P)" "\<not> gw_running (ps_gw (stop P))"
    "WorkerNew \<notin> set (ps_workers (stop P))" "ps_metrics (stop P) \<noteq> MetricsNew"
    using assms by (simp_all add: stop_def health_stop_def)
  obtain Q where Q: "process_reach fmt pton P0 Q" "ps_crash Q = None" "\<not> ps_finished Q" "\<not> gw_running (ps_gw Q)"
    "list_all (\<lambda>t. t = WorkerDone) (ps_workers Q)" "ps_metrics Q \<noteq> MetricsNew"
    using workers_end [OF steps [OF assms(1-3) stops] st(1-4)] st(5) by auto
  obtain R where R: "process_reach fmt pton P0 R" "ps_crash R = None" "\<not> ps_finished R"
    "list_all (\<lambda>t. t = WorkerDone) (ps_workers R)" "ps_metrics R = MetricsDone"
  proof (cases "ps_metrics Q")
    case (MetricsServing server)
    from steps [OF Q(1-3) metrics_ends [OF MetricsServing Q(4)]] Q that show ?thesis by simp
  qed (use Q that in auto)
  have "ps_finished (run_end R)" "ps_crash (run_end R) = None" using R(2) by (simp_all add: run_end_def health_stop_def case_prod_unfold)
  with steps [OF R(1-3) finishes [OF R(4,5,3)]] show ?thesis by blast
qed

lemma begin_reach_ok:
  assumes "process_reach fmt pton (run_begin now (Gateway_init cfg)) P"
  shows "\<not> ps_finished P \<Longrightarrow> process_ok {} 0 P"
    and "ps_finished P \<Longrightarrow> set (gw_descs (ps_gw P)) = set (ps_lost P) \<and> gauge (ps_gw P) = 0 \<and> length (ps_lost P) \<le> 1"
proof -
  have "gw_wf (Gateway_init cfg)" using Gateway_init_wf by blast
  with gateway_init_fresh [of cfg] run_begin_ok have "process_ok {} 0 (run_begin now (Gateway_init cfg))"
    by (metis outside_def set_empty empty_Diff)
  moreover have "\<not> ps_finished (run_begin now (Gateway_init cfg))" by (simp add: run_begin_def health_start_def)
  ultimately show "\<not> ps_finished P \<Longrightarrow> process_ok {} 0 P"
    and "ps_finished P \<Longrightarrow> set (gw_descs (ps_gw P)) = set (ps_lost P) \<and> gauge (ps_gw P) = 0 \<and> length (ps_lost P) \<le> 1"
    using reach_inv [OF assms, of "{}" 0] by simp_all
qed

lemma workerBegin_Thrown:
  "workerBegin pton i efd lio refused gw = Thrown \<longleftrightarrow>
     efd < 0 \<or> li_socket lio < 0 \<or> li_bind lio < 0 \<or> li_listen lio < 0 \<or> refused"
  by (auto simp: workerBegin_def EventLoop_init_def worker_start_def TcpServer_init_def Let_def add_def)

text \<open>The kernel refused something the thread asked for.\<close>

fun crash_cause :: "crash \<Rightarrow> Process \<Rightarrow> bool" where
  "crash_cause StartFailed P \<longleftrightarrow>
     (\<exists>i efd (lio :: listen_io) refused. i < length (ps_workers P) \<and> ps_workers P ! i = WorkerNew \<and>
        ((efd :: fd) < 0 \<or> li_socket lio < 0 \<or> li_bind lio < 0 \<or> li_listen lio < 0 \<or> refused))"
| "crash_cause HandlerThrew P \<longleftrightarrow>
     (\<exists>i server efd wk rs. i < length (ps_workers P) \<and> ps_workers P ! i = WorkerServing server efd wk \<and>
        acceptAll onAccept rs (ps_gw P, wk) = Thrown \<and> refusing rs)"
| "crash_cause PollFailed P \<longleftrightarrow>
     (\<exists>i server efd wk. i < length (ps_workers P) \<and> ps_workers P ! i = WorkerServing server efd wk)"

lemma step_crash:
  assumes "process_step fmt pton P P'" and "process_ok F base P" and "ps_crash P = None" and "ps_crash P' = Some c"
  shows "crash_cause c P"
  using assms(1)
proof cases
  case (worker_fails i efd lio refused)
  then have "c = StartFailed" using assms(4) by simp
  with worker_fails(2-4) show ?thesis unfolding workerBegin_Thrown by auto
next
  case (worker_throws i server efd wk fd cb evs io)
  then have c: "c = HandlerThrew" using assms(4) by simp
  from run_callback_kernel(1) [OF process_node(1) [OF assms(2) worker_throws(2,3)] worker_throws(5,6)]
  have cb: "cb = OnListen" "refusing (ev_accepts io)" by blast+
  then have "acceptAll onAccept (ev_accepts io) (ps_gw P, wk) = Thrown" using worker_throws(6) by (simp add: run_callback_def)
  with worker_throws(2,3) cb(2) show ?thesis unfolding c crash_cause.simps by blast
next
  case (poll_fails i server efd wk now)
  with assms(4) show ?thesis by auto
qed (use assms(3,4) in \<open>simp_all add: set_worker_def metricsBegin_def stop_def health_stop_def run_end_def Let_def split: prod.splits outcome.splits if_splits\<close>)

section \<open>Properties\<close>

text \<open>
  C1: Nothing is left open when \<open>run\<close> returns. Whatever clients, backends and the kernel did and in
  whatever order the threads took their steps, every descriptor the process opened is closed and
  no client is counted as connected; the only exception is the socket of a metrics server that could
  not bind or listen, which its constructor loses.
\<close>

theorem process_no_leak:
  assumes "process_reach fmt pton (run_begin now (Gateway_init cfg)) P" and "ps_finished P"
  shows "set (gw_descs (ps_gw P)) = set (ps_lost P) \<and> length (ps_lost P) \<le> 1 \<and> gauge (ps_gw P) = 0"
  using begin_reach_ok(2) [OF assms] by simp

text \<open>A process with one worker whose metrics port is taken.\<close>

definition sample_process :: Process where
  "sample_process = run_begin 0 (Gateway_init (sample_cfg\<lparr>cf_workerThreads := 1\<rparr>))"

lemma sample_started:
  "\<exists>P. process_reach no_fmt no_pton sample_process P \<and> ps_crash P = None \<and> \<not> ps_finished P \<and>
     WorkerNew \<notin> set (ps_workers P) \<and> ps_metrics P = MetricsDone \<and> ps_lost P = [9]"
proof -
  let ?P = "sample_process"
  let ?b = "workerBegin no_pton 0 4 sample_listen False (ps_gw ?P)"
  have w: "case ?b of Ran (t, gw) \<Rightarrow> gw_descs gw = [3, 4] \<and> t \<noteq> WorkerNew | _ \<Rightarrow> False" by code_simp
  then obtain t gw where b: "?b = Ran (t, gw)" and gw: "gw_descs gw = [3, 4]" and t: "t \<noteq> WorkerNew"
    by (cases ?b) auto
  have P: "ps_workers ?P = [WorkerNew]" "ps_crash ?P = None" "\<not> ps_finished ?P" "ps_metrics ?P = MetricsNew"
    "fresh 4 (ps_gw ?P)" "fresh (li_socket sample_listen) (ps_gw ?P)" "li_socket sample_listen \<noteq> 4" "ps_lost ?P = []"
    by code_simp+
  define Q where "Q = set_worker 0 t gw ?P"
  have "process_step no_fmt no_pton ?P Q"
    unfolding Q_def by (rule worker_begins [OF _ _ P(5-7) b]) (simp_all add: P(1))
  from steps [OF begins P(2,3) this] have Q: "process_reach no_fmt no_pton ?P Q" .
  have Qf: "ps_crash Q = None" "\<not> ps_finished Q" "ps_metrics Q = MetricsNew" "ps_workers Q = [t]" "ps_gw Q = gw" "ps_lost Q = []"
    using P by (simp_all add: Q_def set_worker_def)
  let ?lio = "\<lparr>li_socket = 9, li_bind = -1, li_listen = 0\<rparr>"
  have "fresh (li_socket ?lio) (ps_gw Q)" by (simp add: Qf gw fresh_def)
  from steps [OF Q Qf(1,2) metrics_begins [OF Qf(3) this, of no_fmt no_pton "[]"]]
  show ?thesis using Qf t by (intro exI [of _ "metricsBegin no_pton ?lio [] Q"])
      (simp add: metricsBegin_def TcpServer_init_def Let_def)
qed

theorem process_no_leak_witness:
  "\<exists>P. process_reach no_fmt no_pton sample_process P \<and> ps_finished P \<and>
     set (gw_descs (ps_gw P)) = set (ps_lost P) \<and> gauge (ps_gw P) = 0"
proof -
  obtain P where "process_reach no_fmt no_pton sample_process P" "ps_crash P = None" "\<not> ps_finished P"
    "WorkerNew \<notin> set (ps_workers P)" "ps_metrics P = MetricsDone" using sample_started by blast
  then obtain Q where Q: "process_reach no_fmt no_pton sample_process Q" "ps_finished Q"
    using can_finish [of no_fmt no_pton sample_process P] by auto
  from process_no_leak [OF Q(1) [unfolded sample_process_def] Q(2)] Q show ?thesis by blast
qed

text \<open>A client arrives that the kernel then refuses to watch.\<close>

definition sample_refused :: event_io where
  "sample_refused = \<lparr>ev_accepts = [(Accepted 7 ''10.0.0.1'', \<lparr>ac_now = 1, ac_refused = True\<rparr>)], ev_client = quiet\<rparr>"

lemma sample_crashed: "\<exists>P. process_reach no_fmt no_pton sample_process P \<and> ps_crash P = Some HandlerThrew"
proof -
  let ?P = "sample_process" and ?io = sample_refused
  let ?b = "workerBegin no_pton 0 4 sample_listen False (ps_gw ?P)"
  let ?r = "\<lambda>gw wk. run_callback no_fmt OnListen EPOLLIN ?io (gw, wk)"
  define good where "good t gw = (case t of
      WorkerServing server efd wk \<Rightarrow> callback_of (gw, wk) 3 = Some OnListen \<and>
        kernel_contract no_fmt OnListen EPOLLIN ?io (gw, wk) \<and> (case ?r gw wk of Thrown \<Rightarrow> True | _ \<Rightarrow> False)
    | _ \<Rightarrow> False)" for t gw
  have "case ?b of Ran (t, gw) \<Rightarrow> good t gw | _ \<Rightarrow> False" unfolding good_def by code_simp
  then obtain t gw where b': "?b = Ran (t, gw)" and g: "good t gw" by (cases ?b) auto
  obtain server efd wk where t: "t = WorkerServing server efd wk" using g by (cases t) (simp_all add: good_def)
  note b = b' [unfolded t]
  have cb: "callback_of (gw, wk) 3 = Some OnListen" "kernel_contract no_fmt OnListen EPOLLIN ?io (gw, wk)"
    using g by (simp_all add: good_def t)
  have th: "?r gw wk = Thrown" using g by (cases "?r gw wk") (simp_all add: good_def t)
  have P: "ps_workers ?P = [WorkerNew]" "ps_crash ?P = None" "\<not> ps_finished ?P"
    "fresh 4 (ps_gw ?P)" "fresh (li_socket sample_listen) (ps_gw ?P)" "li_socket sample_listen \<noteq> 4" by code_simp+
  let ?Q = "set_worker 0 (WorkerServing server efd wk) gw ?P"
  have "process_step no_fmt no_pton ?P ?Q" by (rule worker_begins [OF _ _ P(4-6) b]) (simp_all add: P(1))
  from steps [OF begins P(2,3) this] have Q: "process_reach no_fmt no_pton ?P ?Q" .
  have "process_step no_fmt no_pton ?Q (?Q\<lparr>ps_crash := Some HandlerThrew\<rparr>)"
    using cb th
    by (intro worker_throws [where i = 0 and fd = 3 and cb = OnListen and evs = EPOLLIN and io = ?io and
          server = server and efd = efd and wk = wk]) (simp_all add: set_worker_def P(1))
  from steps [OF Q _ _ this] P(2,3) show ?thesis
    by (intro exI [of _ "?Q\<lparr>ps_crash := Some HandlerThrew\<rparr>"]) (simp add: set_worker_def)
qed





end
