(* ===== verification/Spec2Isabelle.thy ===== *)
theory Spec2Isabelle
  imports HttpParser RateLimiter CircuitBreaker RetryPolicy LRUCache LoadBalancer Router
    ConnectionPool Logger Metrics RequestId HealthChecker Config Relay Requests BackendServer Process
begin

text \<open>
  Verification of the API gateway: an HTTP/1.1 reverse proxy in C++20 with one epoll loop per
  worker thread.

  \<^bold>\<open>The program.\<close> \<^verbatim>\<open>main\<close> loads the configuration, builds the gateway object and calls
  \<^verbatim>\<open>run\<close>, which starts a health checker, a metrics server and the workers. Each worker listens on
  the same port, accepts clients, feeds their bytes to an incremental parser and handles every
  complete request: built-in endpoints, rate limiter, router, response cache, then forwarding, which
  picks a backend, asks its circuit breaker, leases a connection from the pool, exchanges request
  and response and retries. Responses are appended to the pending bytes of the connection and
  written as the socket allows. The subsystems behind the gateway object are shared by all workers.

  \<^bold>\<open>Theories and sources\<close> (file names are relative to src/).

  \<^item> \<open>Prelude\<close>: types, and the parts of the C++ library the sources call.
  \<^item> \<open>HttpMessage\<close>: include/http/HttpRequest.hpp, HttpResponse.hpp.
  \<^item> \<open>HttpParser\<close>: src/http/HttpParser.cpp; \<open>append\<close>, \<open>parse\<close> and its stages.
  \<^item> \<open>Metered\<close>: the contract of components that admit or refuse; \<open>RateLimiter\<close>, \<open>CircuitBreaker\<close>,
    \<open>RetryPolicy\<close>: the headers of include/resilience.
  \<^item> \<open>LRUCache\<close>: include/cache/LRUCache.hpp, with list nodes and iterators.
  \<^item> \<open>LoadBalancer\<close>, \<open>Router\<close>: the headers of include/routing; backends live in a store.
  \<^item> \<open>Descriptors\<close>: open descriptors and the connect sequence; \<open>ConnectionPool\<close> and
    \<open>HealthChecker\<close>: src/network/ConnectionPool.cpp and HealthChecker.cpp.
  \<^item> \<open>Logger\<close>, \<open>Metrics\<close>, \<open>RequestId\<close>: the headers of include/observability.
  \<^item> \<open>Config\<close>: src/config/Config.cpp; tokenizer, section state machine, validation.
  \<^item> \<open>Relay\<close>: \<open>buildBackendRequest\<close> and \<open>sendAndReceive\<close> of src/core/Gateway.cpp.
  \<^item> \<open>Forwarding\<close>: the gateway object, its constructor, \<open>buildRouter\<close>, \<open>forwardWithResilience\<close>.
  \<^item> \<open>EventLoop\<close>: src/core/EventLoop.cpp; \<open>TcpServer\<close>: src/network/TcpServer.cpp.
  \<^item> \<open>Worker\<close>: class \<^verbatim>\<open>Gateway::Worker\<close> and include/core/Connection.hpp; \<open>Serving\<close> and
    \<open>Requests\<close> hold the properties of the thread and of what it answers.
  \<^item> \<open>Process\<close>: \<open>run\<close>, \<open>stop\<close>, the metrics server, src/main.cpp.
  \<^item> \<open>BackendServer\<close>: backends/backend_server.cpp.

  \<^bold>\<open>State and effects.\<close> A class is a record with its members and an operation returns the updated
  record. Exceptions are values (\<open>outcome\<close>, \<open>run\<close>). Shared objects are positions in a store. An
  \<^verbatim>\<open>unordered_map\<close> is an association list, a descriptor and a clock reading an integer, an atomic
  counter a 64-bit word, \<^verbatim>\<open>size_t\<close> a natural number with the wrap-around of its subtraction
  written out, a \<^verbatim>\<open>double\<close> a real number. The list of open descriptors is part of the state.
  What the kernel, the clock and the random engine answer is a script, one entry per call or per
  iteration of a loop; \<^verbatim>\<open>inet_pton\<close> and the printing of a \<^verbatim>\<open>double\<close> are functions
  that the definitions take. About the kernel it is assumed that a new descriptor is not one
  that is open, that \<^verbatim>\<open>send\<close> accepts no more than it was given, and that changing the events of
  a watched descriptor is not refused. Each assumption is a premise or a guard of a step.

  \<^bold>\<open>What is shown.\<close>

  \<^item> Parsing: the result does not depend on how the bytes are cut, as long as the buffer is within
    the limit on the request line; accepted requests are well formed; pipelined requests come apart.
  \<^item> Resilience: bounds on admissions, the states of the breaker, when it opens and refuses, the
    range of the delay, recovery of a bucket.
  \<^item> Cache, routing and balancing: the pointer structure refines the list in order of recency; the
    longest prefix wins; a picked backend is a healthy member.
  \<^item> Forwarding: descriptors and active connections are conserved, a result is returned, the relayed
    response is the one the backend serialized, open breakers are not contacted.
  \<^item> Serving: responses in the order of requests, no byte lost or repeated, admission before any
    backend, a cache hit stems from an earlier answer to the same target that has not expired.
  \<^item> Process: no descriptor is left when \<open>run\<close> returns, the possible causes of a crash, a running
    process can be shut down, in any interleaving of the steps of the threads.
  \<^item> Configuration: round trip through printing, and what a loaded configuration guarantees.
  \<^item> Limits of the code: a forgotten request to close, a scan that misses a healthy backend, least
    connections held by a shut breaker, the percentile of a single sample.

  \<^bold>\<open>Interfaces.\<close> Locales state what one part relies on, and each is interpreted on the model:
  \<open>resumable\<close> on the parser, \<open>metered\<close> on the rate limiter and on the trials of the breaker,
  \<open>ttl_cache\<close> on the LRU cache, \<open>balancer\<close> on the load balancer, \<open>descriptor_pool\<close> on the
  connection pool and \<open>reactor\<close> on the callbacks of a worker.

  \<^bold>\<open>Termination and scripts.\<close> No definition uses fuel. Loops over data are total functions; the
  header scanners and the command line have a termination proof, by the bytes or arguments left. A loop that waits
  consumes its script; when the script ends it is \<open>Pending\<close>, \<open>Waiting\<close> or \<open>None\<close>. That enough
  entries give a result is proved where the code bounds the loop: an exchange needs at
  most one send per byte of the request, unless a send would block, and 32769 reads more than the
  limit on the body (\<open>relay_terminates\<close>), because a reader without a complete header gives up
  beyond 32768 bytes; forwarding needs one more attempt than retries (\<open>forward_returns\<close>).

  \<^bold>\<open>Not modelled.\<close>

  \<^item> Socket options and the timing of condition variables: they leave no trace in the state.
  \<^item> Interleavings finer than a step of \<open>Process\<close>. Subsystems lock for each operation, but a request
    makes several, and workers can alternate between them; the model runs a callback without
    interruption. Only for the balancer is a finer interleaving studied.
  \<^item> \<^verbatim>\<open>stop\<close> as a signal handler: it is a step between others, so calls that are not safe in a
    handler are not represented.
  \<^item> Rounding, infinities and NaN of \<^verbatim>\<open>double\<close>; notations of \<^verbatim>\<open>stod\<close> other than decimal.
  \<^item> Exhaustion of memory, and signed overflow where the sources do not check it.
  \<^item> benchmarks/gateway_benchmark.cpp, a client that measures and prints, and the programs under
    tests/: nothing the gateway runs depends on them.
\<close>

end
